(* ===== verification/Prelude.thy ===== *)
theory Prelude
  imports Main "HOL-Library.Word" "HOL-Library.Monad_Syntax"
begin

text \<open>
  What every component of the model shares: the machine types of the C code, the C string
  functions it calls, the constants of \<^verbatim>\<open>dm-cache/inc/config.h\<close>, the reading of
  partial results, reachability in a step relation with the locale of inductive invariants,
  and generic lemmas on words and lists.

  A C \<^verbatim>\<open>unsigned\<close> is a 32-bit word, so its wrap-around is the code's. A C string is the
  list of its bytes before the terminating NUL. A call whose behaviour is undefined (a NULL
  dereference, a string copied over the end of its array) or that never returns (a lock that
  is never released, a list that has become cyclic) has the result \<^const>\<open>None\<close>; every
  other call returns \<^const>\<open>Some\<close> of its results and the new state.
\<close>

section \<open>Collections of facts\<close>

named_theorems frames \<open>what an operation changes and what it leaves alone\<close>

section \<open>Machine types and constants\<close>

type_synonym u32 = "32 word"
type_synonym u64 = "64 word"
type_synonym byte = "8 word"
type_synonym path = string
type_synonym key = "path \<times> u32"

definition CBLOCK_SHIFT :: nat where "CBLOCK_SHIFT = 15"
definition CACHE_BLOCK_SIZE :: u32 where "CACHE_BLOCK_SIZE = push_bit CBLOCK_SHIFT 1"
definition CACHE_BLOCK_NUMBER :: u32 where "CACHE_BLOCK_NUMBER = push_bit 15 1"
definition BUCKETS_NUMBER :: u32 where "BUCKETS_NUMBER = push_bit 2 CACHE_BLOCK_NUMBER"
definition PAGE_SHIFT :: nat where "PAGE_SHIFT = 12"
definition PAGE_SIZE :: u32 where "PAGE_SIZE = push_bit PAGE_SHIFT 1"
definition MOD_PAGE_PER_CBLOCK_SHIFT :: u32 where "MOD_PAGE_PER_CBLOCK_SHIFT = 0b111"
definition MAX_PATH_SIZE :: nat where "MAX_PATH_SIZE = 2 ^ 5"
definition MAX_WORKQUEUE_SIZE :: nat where "MAX_WORKQUEUE_SIZE = 2 ^ 4"

lemma CACHE_BLOCK_SIZE_eq: "CACHE_BLOCK_SIZE = 32768"
  by (simp add: CACHE_BLOCK_SIZE_def CBLOCK_SHIFT_def push_bit_eq_mult)

lemma CACHE_BLOCK_NUMBER_eq: "CACHE_BLOCK_NUMBER = 32768"
  by (simp add: CACHE_BLOCK_NUMBER_def push_bit_eq_mult)

lemma BUCKETS_NUMBER_eq: "BUCKETS_NUMBER = 131072"
  by (simp add: BUCKETS_NUMBER_def CACHE_BLOCK_NUMBER_eq push_bit_eq_mult)

lemma PAGE_SIZE_eq: "PAGE_SIZE = 4096"
  by (simp add: PAGE_SIZE_def PAGE_SHIFT_def push_bit_eq_mult)

lemmas config_eqs =
  CACHE_BLOCK_SIZE_eq CACHE_BLOCK_NUMBER_eq BUCKETS_NUMBER_eq PAGE_SIZE_eq
  CBLOCK_SHIFT_def PAGE_SHIFT_def MOD_PAGE_PER_CBLOCK_SHIFT_def
  MAX_PATH_SIZE_def MAX_WORKQUEUE_SIZE_def

datatype operate = READ | WRITE | DISCARD
datatype mg_type = PROMOTION | DEMOTION | WRITEBACK

section \<open>C strings\<close>

text \<open>
  \<^verbatim>\<open>strcmp (a, b) == 0\<close> is equality of the lists, \<^verbatim>\<open>strncmp (a, b, n) == 0\<close> equality of
  their first \<open>n\<close> bytes. \<^verbatim>\<open>strcpy\<close> into an array of \<open>cap\<close> bytes also writes the NUL, so it
  stays inside the array exactly when the string is shorter than the array. A C \<^verbatim>\<open>char\<close> is
  signed on the targets of this code: in arithmetic it is sign-extended.
\<close>

definition strcmp_eq :: "string \<Rightarrow> string \<Rightarrow> bool" where
  "strcmp_eq a b \<longleftrightarrow> a = b"

definition strncmp_eq :: "string \<Rightarrow> string \<Rightarrow> nat \<Rightarrow> bool" where
  "strncmp_eq a b n \<longleftrightarrow> take n a = take n b"

definition strcpy :: "nat \<Rightarrow> string \<Rightarrow> string option" where
  "strcpy cap src = (if length src < cap then Some src else None)"

definition char_u32 :: "char \<Rightarrow> u32" where
  "char_u32 c = signed (of_char c :: 8 word)"

lemma strcpy_Some [simp]: "length s < cap \<Longrightarrow> strcpy cap s = Some s"
  by (simp add: strcpy_def)

lemma strcpy_None [simp]: "cap \<le> length s \<Longrightarrow> strcpy cap s = None"
  by (simp add: strcpy_def)

lemma strncmp_eq_prefix: "strncmp_eq a b (length a) \<longleftrightarrow> (\<exists>r. b = a @ r)"
proof
  assume "strncmp_eq a b (length a)"
  then have "take (length a) b = a" by (simp add: strncmp_eq_def)
  then have "b = a @ drop (length a) b" by (metis append_take_drop_id)
  then show "\<exists>r. b = a @ r" ..
qed (auto simp: strncmp_eq_def)

section \<open>Repetition\<close>

text \<open>\<open>n\<close> calls of an operation in a row, each on the state the one before left.\<close>

fun iterate :: "nat \<Rightarrow> ('s \<Rightarrow> 's option) \<Rightarrow> 's \<Rightarrow> 's option" where
  "iterate 0 f s = Some s"
| "iterate (Suc n) f s = (case f s of None \<Rightarrow> None | Some s' \<Rightarrow> iterate n f s')"

section \<open>Reachable states and inductive invariants\<close>

inductive reachable :: "('s \<Rightarrow> bool) \<Rightarrow> ('s \<Rightarrow> 's \<Rightarrow> bool) \<Rightarrow> 's \<Rightarrow> bool"
  for ini :: "'s \<Rightarrow> bool" and step :: "'s \<Rightarrow> 's \<Rightarrow> bool" where
  reach_start: "ini s \<Longrightarrow> reachable ini step s"
| reach_step: "reachable ini step s \<Longrightarrow> step s t \<Longrightarrow> reachable ini step t"

text \<open>
  The interface between a component's step relation and its safety properties: an invariant
  that the initial states satisfy and every step keeps.
\<close>

locale inductive_invariant =
  fixes ini :: "'s \<Rightarrow> bool"
    and step :: "'s \<Rightarrow> 's \<Rightarrow> bool"
    and inv :: "'s \<Rightarrow> bool"
  assumes inv_ini: "ini s \<Longrightarrow> inv s"
    and inv_step: "inv s \<Longrightarrow> step s t \<Longrightarrow> inv t"
begin

lemma reachable_inv: "reachable ini step s \<Longrightarrow> inv s"
  by (induction rule: reachable.induct) (auto intro: inv_ini inv_step)

lemma reachable_weaken: "reachable ini step s \<Longrightarrow> (\<And>t. inv t \<Longrightarrow> Q t) \<Longrightarrow> Q s"
  by (blast dest: reachable_inv)

end

section \<open>Words\<close>

lemma unat_Suc_less: "(x::'a::len word) < y \<Longrightarrow> unat (x + 1) = Suc (unat x)"
proof -
  assume less: "x < y"
  have "1 + x \<noteq> 0"
  proof
    assume "1 + x = 0"
    then have "x = - 1" by (simp add: eq_neg_iff_add_eq_0 add.commute)
    with less show False by simp
  qed
  then show ?thesis by (simp add: unatSuc add.commute)
qed

lemma unat_of_nat_u32: "n < 4294967296 \<Longrightarrow> unat (of_nat n :: u32) = n"
  by (simp add: unat_of_nat)

section \<open>Lists\<close>

lemma last_snoc_if: "last (if xs = [] then [y] else xs @ [y]) = y"
  by simp

lemma set_remove1_distinct: "distinct xs \<Longrightarrow> set (remove1 x xs) = set xs - {x}"
  by (rule set_remove1_eq)

lemma remove1_middle: "x \<notin> set as \<Longrightarrow> remove1 x (as @ x # bs) = as @ bs"
  by (simp add: remove1_append)

section \<open>Allocators\<close>

text \<open>Allocators that find room while there is some.\<close>

definition allocates :: "((u64 \<Rightarrow> 'a option) \<Rightarrow> u64) \<Rightarrow> bool" where
  "allocates malloc \<longleftrightarrow> (\<forall>h. (\<exists>a. a \<noteq> 0 \<and> h a = None) \<longrightarrow> malloc h \<noteq> 0 \<and> h (malloc h) = None)"

lemma allocates_room:
  assumes "allocates malloc" and "card (dom h) < 2 ^ 64 - 1"
  shows "malloc h \<noteq> 0" and "h (malloc h) = None"
proof -
  have "card (insert 0 (dom h)) \<le> Suc (card (dom h))" by (simp add: card_insert_if)
  with assms(2) have "card (insert (0 :: u64) (dom h)) < card (UNIV :: u64 set)" by (simp add: card_word)
  then have "insert 0 (dom h) \<noteq> UNIV" by auto
  then obtain a where "a \<noteq> 0" "h a = None" by auto
  then show "malloc h \<noteq> 0" "h (malloc h) = None" using assms(1) by (auto simp: allocates_def)
qed

text \<open>An allocator that searches the addresses for a free one.\<close>

fun search_free :: "nat \<Rightarrow> u64 \<Rightarrow> (u64 \<Rightarrow> 'a option) \<Rightarrow> u64" where
  "search_free 0 a h = 0"
| "search_free (Suc n) a h = (if a \<noteq> 0 \<and> h a = None then a else search_free n (a + 1) h)"

definition first_free :: "(u64 \<Rightarrow> 'a option) \<Rightarrow> u64" where
  "first_free h = search_free (unat (- 1 :: u64) + 1) 0 h"

lemma search_free_finds:
  "k < n \<Longrightarrow> a + of_nat k \<noteq> 0 \<Longrightarrow> h (a + of_nat k) = None \<Longrightarrow> search_free n a h \<noteq> 0 \<and> h (search_free n a h) = None"
proof (induction n arbitrary: a k)
  case (Suc n)
  show ?case
  proof (cases "a \<noteq> 0 \<and> h a = None")
    case False
    with Suc.prems obtain k' where "k = Suc k'" by (cases k) auto
    with Suc.prems False Suc.IH [of k' "a + 1"] show ?thesis by (simp add: add.assoc)
  qed simp
qed simp

lemma first_free_allocates: "allocates first_free"
  unfolding allocates_def
proof (intro allI impI)
  fix h :: "u64 \<Rightarrow> 'a option"
  assume "\<exists>a. a \<noteq> 0 \<and> h a = None"
  then obtain a where a: "a \<noteq> 0" "h a = None" by blast
  have "a \<le> - 1" by simp
  then have "unat a < unat (- 1 :: u64) + 1" by (simp only: word_le_nat_alt)
  with search_free_finds [of "unat a" "unat (- 1 :: u64) + 1" 0 h] a
  show "first_free h \<noteq> 0 \<and> h (first_free h) = None" unfolding first_free_def by simp
qed

end
