(* ===== verification/Spinlock.thy ===== *)
theory Spinlock
  imports Prelude
begin

text \<open>
  The spinlock of \<^verbatim>\<open>dm-cache/lib/atomic.c\<close>. \<open>spinlock_lock\<close> repeats a compare-and-swap
  until it succeeds: run alone on a held lock it never returns, which is \<^const>\<open>None\<close>.
  The second half runs any number of threads through \<open>spinlock_lock\<close> and
  \<open>spinlock_unlock\<close>, one atomic instruction at a time, and shows that at most one of them is
  between the two. This is what lets the other theories treat a section between
  \<open>spinlock_lock\<close> and \<open>spinlock_unlock\<close> of one lock as a single step.
\<close>

section \<open>The operations\<close>

record spinlock =
  locked :: u32

definition spinlock_init :: "spinlock \<Rightarrow> spinlock" where
  "spinlock_init l = l\<lparr>locked := 0\<rparr>"

definition atomic_compare_exchange :: "spinlock \<Rightarrow> u32 \<Rightarrow> u32 \<Rightarrow> spinlock \<times> bool" where
  "atomic_compare_exchange l compare exchange =
     (if locked l = compare then (l\<lparr>locked := exchange\<rparr>, True) else (l, False))"

partial_function (option) spinlock_lock :: "spinlock \<Rightarrow> spinlock option" where
  "spinlock_lock l =
     (case atomic_compare_exchange l 0 1 of
        (l', ok) \<Rightarrow> if ok then Some l' else spinlock_lock l')"

definition spinlock_unlock :: "spinlock \<Rightarrow> spinlock" where
  "spinlock_unlock l = l\<lparr>locked := 0\<rparr>"

abbreviation unlocked :: "spinlock \<Rightarrow> bool" where
  "unlocked l \<equiv> locked l = 0"

declare spinlock_lock.simps [code]

section \<open>A single thread\<close>

lemma spinlock_lock_free [simp]: "unlocked l \<Longrightarrow> spinlock_lock l = Some (l\<lparr>locked := 1\<rparr>)"
  by (subst spinlock_lock.simps) (simp add: atomic_compare_exchange_def)

lemma spinlock_lock_returns: "spinlock_lock l = Some l' \<Longrightarrow> unlocked l \<and> l' = l\<lparr>locked := 1\<rparr>"
proof (rule spinlock_lock.raw_induct [where P = "\<lambda>l l'. unlocked l \<and> l' = l\<lparr>locked := 1\<rparr>"])
  fix f :: "spinlock \<Rightarrow> spinlock option" and l l'
  assume IH: "\<And>l l'. f l = Some l' \<Longrightarrow> unlocked l \<and> l' = l\<lparr>locked := 1\<rparr>"
    and eq: "(case atomic_compare_exchange l 0 1 of (l', ok) \<Rightarrow> if ok then Some l' else f l') = Some l'"
  then show "unlocked l \<and> l' = l\<lparr>locked := 1\<rparr>"
    by (auto simp: atomic_compare_exchange_def split: if_splits)
qed

lemma spinlock_lock_held [simp]: "locked l \<noteq> 0 \<Longrightarrow> spinlock_lock l = None"
  by (cases "spinlock_lock l") (auto dest: spinlock_lock_returns)

lemma spinlock_unlock_lock [simp]:
  "unlocked l \<Longrightarrow> spinlock_unlock (l\<lparr>locked := 1\<rparr>) = l"
  by (simp add: spinlock_unlock_def)

lemma unlocked_unlock [simp]: "unlocked (spinlock_unlock l)"
  by (simp add: spinlock_unlock_def)

lemma unlocked_init [simp]: "unlocked (spinlock_init l)"
  by (simp add: spinlock_init_def)

section \<open>Many threads\<close>

text \<open>
  A thread is outside, is spinning in \<open>spinlock_lock\<close>, or holds the lock. Each step is one
  atomic instruction of one thread: a failed or a successful compare-and-swap, or the store of
  \<open>spinlock_unlock\<close>.
\<close>

datatype lock_pc = Outside | Spinning | Holding

record lock_sys =
  lk :: spinlock
  pcs :: "nat \<Rightarrow> lock_pc"

definition lock_ini :: "lock_sys \<Rightarrow> bool" where
  "lock_ini s \<longleftrightarrow> (\<exists>l. lk s = spinlock_init l) \<and> (\<forall>i. pcs s i = Outside)"

inductive lock_step :: "lock_sys \<Rightarrow> lock_sys \<Rightarrow> bool" where
  call: "pcs s i = Outside \<Longrightarrow> lock_step s (s\<lparr>pcs := (pcs s)(i := Spinning)\<rparr>)"
| cas_fail: "pcs s i = Spinning \<Longrightarrow> atomic_compare_exchange (lk s) 0 1 = (l', False) \<Longrightarrow>
    lock_step s (s\<lparr>lk := l'\<rparr>)"
| cas_ok: "pcs s i = Spinning \<Longrightarrow> atomic_compare_exchange (lk s) 0 1 = (l', True) \<Longrightarrow>
    lock_step s (s\<lparr>lk := l', pcs := (pcs s)(i := Holding)\<rparr>)"
| release: "pcs s i = Holding \<Longrightarrow>
    lock_step s (s\<lparr>lk := spinlock_unlock (lk s), pcs := (pcs s)(i := Outside)\<rparr>)"

text \<open>The lock word says whether there is a holder, and there is at most one.\<close>

definition lock_holder :: "lock_sys \<Rightarrow> nat option \<Rightarrow> bool" where
  "lock_holder s h \<longleftrightarrow> (unlocked (lk s) \<longleftrightarrow> h = None) \<and> (\<forall>i. pcs s i = Holding \<longleftrightarrow> h = Some i)"

definition lock_inv :: "lock_sys \<Rightarrow> bool" where
  "lock_inv s \<longleftrightarrow> (\<exists>h. lock_holder s h)"

lemma lock_inv_ini: "lock_ini s \<Longrightarrow> lock_inv s"
  unfolding lock_inv_def by (rule exI [of _ None]) (auto simp: lock_ini_def lock_holder_def)

lemma lock_inv_step:
  assumes "lock_inv s" and "lock_step s t"
  shows "lock_inv t"
proof -
  from assms(1) obtain h where h: "lock_holder s h" by (auto simp: lock_inv_def)
  from assms(2) show ?thesis
  proof cases
    case (call i)
    with h have "h \<noteq> Some i" by (simp add: lock_holder_def) (metis lock_pc.distinct(4))
    with call h have "lock_holder t h" by (auto simp: lock_holder_def)
    then show ?thesis by (auto simp: lock_inv_def)
  next
    case (cas_fail i l')
    with h have "lock_holder t h" by (auto simp: lock_holder_def atomic_compare_exchange_def split: if_splits)
    then show ?thesis by (auto simp: lock_inv_def)
  next
    case (cas_ok i l')
    with h have "lock_holder t (Some i)"
      by (auto simp: lock_holder_def atomic_compare_exchange_def split: if_splits)
    then show ?thesis by (auto simp: lock_inv_def)
  next
    case (release i)
    with h have "h = Some i" by (simp add: lock_holder_def)
    with release h have "lock_holder t None" by (auto simp: lock_holder_def)
    then show ?thesis by (auto simp: lock_inv_def)
  qed
qed

interpretation spin: inductive_invariant lock_ini lock_step lock_inv
  by unfold_locales (auto intro: lock_inv_ini lock_inv_step)

section \<open>Properties\<close>

text \<open>
  C30. In every reachable state of any number of threads that use the spinlock, at most one
  thread is between \<open>spinlock_lock\<close> and \<open>spinlock_unlock\<close>, and while one is the lock word
  is set; while none is, the compare-and-swap of a spinning thread succeeds.
\<close>

theorem spinlock_mutual_exclusion:
  assumes "reachable lock_ini lock_step s"
  shows "(\<forall>i j. pcs s i = Holding \<and> pcs s j = Holding \<longrightarrow> i = j)
    \<and> (\<forall>i. pcs s i = Holding \<longrightarrow> spinlock_lock (lk s) = None)
    \<and> ((\<forall>i. pcs s i \<noteq> Holding) \<longrightarrow> snd (atomic_compare_exchange (lk s) 0 1))"
proof -
  from assms have "lock_inv s" by (rule spin.reachable_inv)
  then show ?thesis
    by (auto simp: lock_inv_def lock_holder_def atomic_compare_exchange_def)
qed

text \<open>One thread takes the lock: a reachable state in which it is held.\<close>

theorem spinlock_mutual_exclusion_witness:
  "pcs \<lparr>lk = \<lparr>locked = 1\<rparr>, pcs = (\<lambda>_. Outside)(7 := Holding)\<rparr> 7 = Holding
   \<and> spinlock_lock \<lparr>locked = 1\<rparr> = None"
proof -
  let ?start = "\<lparr>lk = \<lparr>locked = 0\<rparr>, pcs = \<lambda>_. Outside\<rparr>"
  let ?spin = "?start\<lparr>pcs := (pcs ?start)(7 := Spinning)\<rparr>"
  let ?held = "\<lparr>lk = \<lparr>locked = 1\<rparr>, pcs = (\<lambda>_. Outside)(7 := Holding)\<rparr>"
  have "reachable lock_ini lock_step ?start"
    by (rule reach_start, unfold lock_ini_def, rule conjI, rule exI [of _ "\<lparr>locked = 0\<rparr>"])
      (simp_all add: spinlock_init_def)
  then have "reachable lock_ini lock_step ?spin"
    by (rule reach_step) (rule lock_step.call, simp)
  moreover have "lock_step ?spin (?spin\<lparr>lk := \<lparr>locked = 1\<rparr>, pcs := (pcs ?spin)(7 := Holding)\<rparr>)"
    by (rule lock_step.cas_ok) (simp_all add: atomic_compare_exchange_def)
  ultimately have "reachable lock_ini lock_step ?held"
    by (auto intro: reach_step)
  from spinlock_mutual_exclusion [OF this] show ?thesis by simp
qed

end
