(* ===== verification/WorkQueue.thy ===== *)
theory WorkQueue
  imports Spinlock
begin

text \<open>
  The promotion queue of \<^verbatim>\<open>dm-cache/lib/work_queue.c\<close>: a ring of \<^const>\<open>MAX_WORKQUEUE_SIZE\<close>
  works with a front and a rear index, a size and a lock. Users insert the cache pages they
  missed, the migration worker takes them from the front.

  The indices and the size are C \<^verbatim>\<open>int\<close>s that the operations keep between 0 and 16, so they
  are naturals here. The abstract view of a queue is the list of its keys (path, cache page
  index) from front to rear; the operations are shown to be those of a bounded first-in
  first-out queue without duplicates.
\<close>

section \<open>State\<close>



record work =
  w_full_path_name :: path
  w_cache_page_index :: u32

record work_queue =
  works :: "nat \<Rightarrow> work"
  front :: nat
  rear :: nat
  wq_size :: nat
  wq_lock :: spinlock

definition work_key :: "work \<Rightarrow> key" where
  "work_key w = (w_full_path_name w, w_cache_page_index w)"

section \<open>Operations\<close>

definition init_work_queue :: "work_queue \<Rightarrow> work_queue" where
  "init_work_queue wq =
     wq\<lparr>front := 0, rear := 0, wq_size := 0, wq_lock := spinlock_init (wq_lock wq)\<rparr>"

definition lock_wq :: "work_queue \<Rightarrow> work_queue option" where
  "lock_wq wq = do { l \<leftarrow> spinlock_lock (wq_lock wq); Some (wq\<lparr>wq_lock := l\<rparr>) }"

definition unlock_wq :: "work_queue \<Rightarrow> work_queue" where
  "unlock_wq wq = wq\<lparr>wq_lock := spinlock_unlock (wq_lock wq)\<rparr>"

definition is_full :: "work_queue \<Rightarrow> (work_queue \<times> bool) option" where
  "is_full wq = do {
     wq \<leftarrow> lock_wq wq;
     let res = (wq_size wq = MAX_WORKQUEUE_SIZE);
     Some (unlock_wq wq, res) }"

definition is_empty :: "work_queue \<Rightarrow> (work_queue \<times> bool) option" where
  "is_empty wq = do {
     wq \<leftarrow> lock_wq wq;
     let res = (wq_size wq = 0);
     Some (unlock_wq wq, res) }"

text \<open>
  The scan from \<open>front\<close> to \<open>rear\<close> shared by \<open>contains_work\<close> and \<open>insert_work\<close>, over the test
  of its body. It would not stop if \<open>rear\<close> were not an index of the ring.
\<close>

partial_function (option) scan_works :: "(work \<Rightarrow> bool) \<Rightarrow> work_queue \<Rightarrow> nat \<Rightarrow> bool option" where
  "scan_works test wq i =
     (if i \<noteq> rear wq
      then if test (works wq i) then Some True
           else scan_works test wq ((i + 1) mod MAX_WORKQUEUE_SIZE)
      else Some False)"

declare scan_works.simps [code]

definition contains_test :: "path \<Rightarrow> u32 \<Rightarrow> work \<Rightarrow> bool" where
  "contains_test full_path_name cache_page_index w \<longleftrightarrow>
     w_cache_page_index w = cache_page_index
     \<and> strncmp_eq (w_full_path_name w) full_path_name (length (w_full_path_name w))"

definition contains_work :: "work_queue \<Rightarrow> path \<Rightarrow> u32 \<Rightarrow> (work_queue \<times> bool) option" where
  "contains_work wq full_path_name cache_page_index = do {
     wq \<leftarrow> lock_wq wq;
     found \<leftarrow> scan_works (contains_test full_path_name cache_page_index) wq (front wq);
     Some (unlock_wq wq, found) }"

definition insert_test :: "path \<Rightarrow> u32 \<Rightarrow> work \<Rightarrow> bool" where
  "insert_test full_path_name cache_page_index w \<longleftrightarrow>
     w_cache_page_index w = cache_page_index \<and> strcmp_eq (w_full_path_name w) full_path_name"

definition insert_work :: "work_queue \<Rightarrow> path \<Rightarrow> u32 \<Rightarrow> (work_queue \<times> bool) option" where
  "insert_work wq full_path_name cache_page_index = do {
     wq \<leftarrow> lock_wq wq;
     if wq_size wq = MAX_WORKQUEUE_SIZE - 1 then Some (unlock_wq wq, False)
     else do {
       queued \<leftarrow> scan_works (insert_test full_path_name cache_page_index) wq (front wq);
       if queued then Some (unlock_wq wq, False)
       else do {
         name \<leftarrow> strcpy (MAX_PATH_SIZE + 1) full_path_name;
         let wq = wq\<lparr>works := (works wq)(rear wq :=
           \<lparr>w_full_path_name = name, w_cache_page_index = cache_page_index\<rparr>)\<rparr>;
         let wq = wq\<lparr>rear := (rear wq + 1) mod MAX_WORKQUEUE_SIZE\<rparr>;
         let wq = wq\<lparr>wq_size := wq_size wq + 1\<rparr>;
         Some (unlock_wq wq, True) } } }"

definition remove_work :: "work_queue \<Rightarrow> (work_queue \<times> bool) option" where
  "remove_work wq = do {
     wq \<leftarrow> lock_wq wq;
     if wq_size wq = 0 then Some (unlock_wq wq, False)
     else do {
       let wq = wq\<lparr>front := (front wq + 1) mod MAX_WORKQUEUE_SIZE\<rparr>;
       let wq = wq\<lparr>wq_size := wq_size wq - 1\<rparr>;
       Some (unlock_wq wq, True) } }"

text \<open>\<open>peak_work\<close> copies the path into an array of the caller, of \<open>cap\<close> bytes.\<close>

definition peak_work :: "nat \<Rightarrow> work_queue \<Rightarrow> (work_queue \<times> key option) option" where
  "peak_work cap wq = do {
     wq \<leftarrow> lock_wq wq;
     if wq_size wq = 0 then Some (unlock_wq wq, None)
     else do {
       name \<leftarrow> strcpy cap (w_full_path_name (works wq (front wq)));
       let cache_page_index = w_cache_page_index (works wq (front wq));
       Some (unlock_wq wq, Some (name, cache_page_index)) } }"

section \<open>The abstract queue\<close>

definition wq_keys :: "work_queue \<Rightarrow> key list" where
  "wq_keys wq = map (\<lambda>k. work_key (works wq ((front wq + k) mod MAX_WORKQUEUE_SIZE))) [0..<wq_size wq]"

definition wq_inv :: "work_queue \<Rightarrow> bool" where
  "wq_inv wq \<longleftrightarrow>
     front wq < MAX_WORKQUEUE_SIZE \<and> wq_size wq < MAX_WORKQUEUE_SIZE
     \<and> rear wq = (front wq + wq_size wq) mod MAX_WORKQUEUE_SIZE
     \<and> distinct (wq_keys wq) \<and> (\<forall>k \<in> set (wq_keys wq). length (fst k) \<le> MAX_PATH_SIZE)
     \<and> unlocked (wq_lock wq)"

lemma length_wq_keys [simp]: "length (wq_keys wq) = wq_size wq"
  by (simp add: wq_keys_def)

lemma wq_keys_nth: "k < wq_size wq \<Longrightarrow>
    wq_keys wq ! k = work_key (works wq ((front wq + k) mod MAX_WORKQUEUE_SIZE))"
  by (simp add: wq_keys_def)

lemma wq_keys_lock [simp]: "wq_keys (wq\<lparr>wq_lock := l\<rparr>) = wq_keys wq"
  by (simp add: wq_keys_def)

lemma wq_inv_unlocked: "wq_inv wq \<Longrightarrow> unlocked (wq_lock wq)"
  by (simp add: wq_inv_def)

lemma lock_wq_free [simp]: "unlocked (wq_lock wq) \<Longrightarrow> lock_wq wq = Some (wq\<lparr>wq_lock := (wq_lock wq)\<lparr>locked := 1\<rparr>\<rparr>)"
  by (simp add: lock_wq_def)

lemma unlock_wq_lock [simp]: "unlocked (wq_lock wq) \<Longrightarrow> unlock_wq (wq\<lparr>wq_lock := (wq_lock wq)\<lparr>locked := 1\<rparr>\<rparr>) = wq"
  by (simp add: unlock_wq_def)

lemma ring_index_neq:
  assumes "k < n" and "n < MAX_WORKQUEUE_SIZE"
  shows "(f + k) mod MAX_WORKQUEUE_SIZE \<noteq> (f + n) mod MAX_WORKQUEUE_SIZE"
proof
  assume "(f + k) mod MAX_WORKQUEUE_SIZE = (f + n) mod MAX_WORKQUEUE_SIZE"
  then have "MAX_WORKQUEUE_SIZE dvd (f + n) - (f + k)"
    using assms(1) mod_eq_dvd_iff_nat [of "f + k" "f + n" MAX_WORKQUEUE_SIZE] by simp
  then have "MAX_WORKQUEUE_SIZE \<le> n - k"
    using assms(1) by (auto intro: dvd_imp_le)
  with assms show False by simp
qed

text \<open>The scan visits the queued works and nothing else.\<close>

lemma scan_works_from:
  assumes "front wq < MAX_WORKQUEUE_SIZE" and "wq_size wq < MAX_WORKQUEUE_SIZE"
    and "rear wq = (front wq + wq_size wq) mod MAX_WORKQUEUE_SIZE"
    and "k \<le> wq_size wq"
  shows "scan_works test wq ((front wq + k) mod MAX_WORKQUEUE_SIZE) =
    Some (\<exists>j. k \<le> j \<and> j < wq_size wq \<and> test (works wq ((front wq + j) mod MAX_WORKQUEUE_SIZE)))"
  using assms(4)
proof (induction "wq_size wq - k" arbitrary: k)
  case 0
  with assms show ?case by (subst scan_works.simps) auto
next
  case (Suc n)
  then have k: "k < wq_size wq" by simp
  with assms have neq: "(front wq + k) mod MAX_WORKQUEUE_SIZE \<noteq> rear wq"
    by (simp add: ring_index_neq)
  have "n = wq_size wq - Suc k" and "Suc k \<le> wq_size wq" using Suc.hyps(2) k by simp_all
  note IH = Suc.hyps(1) [OF this]
  have step: "((front wq + k) mod MAX_WORKQUEUE_SIZE + 1) mod MAX_WORKQUEUE_SIZE
    = (front wq + Suc k) mod MAX_WORKQUEUE_SIZE"
    by (simp add: mod_Suc_eq)
  show ?case
  proof (cases "test (works wq ((front wq + k) mod MAX_WORKQUEUE_SIZE))")
    case True
    with neq k show ?thesis by (subst scan_works.simps) auto
  next
    case False
    then have "(\<exists>j\<ge>k. j < wq_size wq \<and> test (works wq ((front wq + j) mod MAX_WORKQUEUE_SIZE)))
      = (\<exists>j\<ge>Suc k. j < wq_size wq \<and> test (works wq ((front wq + j) mod MAX_WORKQUEUE_SIZE)))"
      by (metis Suc_leD le_antisym not_less_eq_eq)
    with neq False IH show ?thesis
      by (subst scan_works.simps) (simp add: step del: add_Suc_right One_nat_def)
  qed
qed

lemma scan_works_front:
  assumes "wq_inv wq" and "\<And>w. test w = P (work_key w)"
  shows "scan_works test (wq\<lparr>wq_lock := l\<rparr>) (front wq) = Some (\<exists>k \<in> set (wq_keys wq). P k)"
proof -
  let ?wq = "wq\<lparr>wq_lock := l\<rparr>"
  have "scan_works test ?wq ((front ?wq + 0) mod MAX_WORKQUEUE_SIZE) =
    Some (\<exists>j. 0 \<le> j \<and> j < wq_size ?wq \<and> test (works ?wq ((front ?wq + j) mod MAX_WORKQUEUE_SIZE)))"
    using assms(1) by (intro scan_works_from) (simp_all add: wq_inv_def)
  moreover have "(front ?wq + 0) mod MAX_WORKQUEUE_SIZE = front wq"
    using assms(1) by (simp add: wq_inv_def)
  ultimately show ?thesis
    by (auto simp: wq_keys_def assms(2))
qed

section \<open>What each operation does\<close>

lemma insert_test_key: "insert_test p c w \<longleftrightarrow> work_key w = (p, c)"
  by (auto simp: insert_test_def work_key_def strcmp_eq_def)

lemma contains_test_key:
  "contains_test p c w \<longleftrightarrow> (\<exists>r. p = fst (work_key w) @ r) \<and> snd (work_key w) = c"
  by (auto simp: contains_test_def work_key_def strncmp_eq_prefix)

lemma contains_work_spec:
  "wq_inv wq \<Longrightarrow> contains_work wq p c =
     Some (wq, \<exists>k \<in> set (wq_keys wq). (\<exists>r. p = fst k @ r) \<and> snd k = c)"
  by (simp add: contains_work_def wq_inv_unlocked
      scan_works_front [where P = "\<lambda>k. (\<exists>r. p = fst k @ r) \<and> snd k = c", OF _ contains_test_key])

definition wq_append :: "work_queue \<Rightarrow> key \<Rightarrow> work_queue" where
  "wq_append wq k = wq\<lparr>works := (works wq)(rear wq := \<lparr>w_full_path_name = fst k, w_cache_page_index = snd k\<rparr>),
     rear := (rear wq + 1) mod MAX_WORKQUEUE_SIZE, wq_size := wq_size wq + 1\<rparr>"

lemma wq_keys_append:
  assumes "wq_inv wq" and "wq_size wq < MAX_WORKQUEUE_SIZE - 1"
  shows "wq_keys (wq_append wq k) = wq_keys wq @ [k]"
proof -
  have "(front wq + j) mod MAX_WORKQUEUE_SIZE \<noteq> rear wq" if "j < wq_size wq" for j
    using assms that by (simp add: wq_inv_def ring_index_neq)
  moreover have "rear wq = (front wq + wq_size wq) mod MAX_WORKQUEUE_SIZE"
    using assms(1) by (simp add: wq_inv_def)
  ultimately show ?thesis
    by (auto simp: wq_keys_def wq_append_def work_key_def)
qed

lemma wq_inv_append:
  assumes "wq_inv wq" and "wq_size wq < MAX_WORKQUEUE_SIZE - 1"
    and "k \<notin> set (wq_keys wq)" and "length (fst k) \<le> MAX_PATH_SIZE"
  shows "wq_inv (wq_append wq k)"
  using assms unfolding wq_inv_def [of "wq_append wq k"] wq_keys_append [OF assms(1,2)]
  by (auto simp: wq_append_def wq_inv_def mod_Suc_eq)

lemma insert_work_spec:
  assumes "wq_inv wq" and "length p \<le> MAX_PATH_SIZE"
  shows "insert_work wq p c =
    (if wq_size wq = MAX_WORKQUEUE_SIZE - 1 \<or> (p, c) \<in> set (wq_keys wq) then Some (wq, False)
     else Some (wq_append wq (p, c), True))"
proof -
  have scan: "scan_works (insert_test p c) (wq\<lparr>wq_lock := l\<rparr>) (front wq)
      = Some ((p, c) \<in> set (wq_keys wq))" for l
    using scan_works_front [where P = "\<lambda>k. k = (p, c)", OF assms(1) insert_test_key] by simp
  show ?thesis
    using assms wq_inv_unlocked [OF assms(1)]
    by (auto simp: insert_work_def scan wq_append_def unlock_wq_def spinlock_unlock_def)
qed

definition wq_drop :: "work_queue \<Rightarrow> work_queue" where
  "wq_drop wq = wq\<lparr>front := (front wq + 1) mod MAX_WORKQUEUE_SIZE, wq_size := wq_size wq - 1\<rparr>"

lemma wq_keys_drop:
  "wq_size wq \<noteq> 0 \<Longrightarrow> wq_keys wq = work_key (works wq (front wq mod MAX_WORKQUEUE_SIZE)) # wq_keys (wq_drop wq)"
  by (auto simp: list_eq_iff_nth_eq nth_Cons wq_keys_nth mod_Suc_eq wq_drop_def mod_add_left_eq
      split: nat.split)

lemma wq_inv_drop:
  assumes "wq_inv wq" and "wq_size wq \<noteq> 0"
  shows "wq_inv (wq_drop wq)"
proof -
  have "(front (wq_drop wq) + wq_size (wq_drop wq)) mod MAX_WORKQUEUE_SIZE = rear (wq_drop wq)"
    using assms by (cases "wq_size wq") (simp_all add: wq_drop_def wq_inv_def mod_add_left_eq)
  moreover have "distinct (wq_keys (wq_drop wq))" and "set (wq_keys (wq_drop wq)) \<subseteq> set (wq_keys wq)"
    using assms(1) wq_keys_drop [OF assms(2)] by (auto simp: wq_inv_def)
  ultimately show ?thesis
    using assms unfolding wq_inv_def by (auto simp: wq_drop_def MAX_WORKQUEUE_SIZE_def)
qed

lemma remove_work_spec:
  "wq_inv wq \<Longrightarrow> remove_work wq = (if wq_size wq = 0 then Some (wq, False) else Some (wq_drop wq, True))"
  by (auto simp: remove_work_def wq_inv_unlocked wq_drop_def unlock_wq_def spinlock_unlock_def)

lemma peak_work_spec:
  assumes "wq_inv wq" and "wq_size wq \<noteq> 0 \<Longrightarrow> length (fst (hd (wq_keys wq))) < cap"
  shows "peak_work cap wq = Some (wq, if wq_size wq = 0 then None else Some (hd (wq_keys wq)))"
proof -
  have "hd (wq_keys wq) = work_key (works wq (front wq))" if "wq_size wq \<noteq> 0"
    using assms(1) that by (simp add: wq_keys_drop wq_inv_def)
  with assms show ?thesis
    by (auto simp: peak_work_def wq_inv_unlocked work_key_def)
qed

section \<open>The interface: a bounded queue without duplicates\<close>

text \<open>
  What the cache mapping and the migration worker rely on. \<open>keys\<close> is the queue as a list,
  \<open>storable\<close> says which keys fit into a slot, \<open>cap\<close> is how many works it holds.
\<close>

locale bounded_fifo =
  fixes keys :: "'q \<Rightarrow> 'k list"
    and inv :: "'q \<Rightarrow> bool"
    and cap :: nat
    and storable :: "'k \<Rightarrow> bool"
    and ins :: "'q \<Rightarrow> 'k \<Rightarrow> ('q \<times> bool) option"
    and rem :: "'q \<Rightarrow> ('q \<times> bool) option"
    and peek :: "'q \<Rightarrow> ('q \<times> 'k option) option"
  assumes inv_keys: "inv q \<Longrightarrow> distinct (keys q) \<and> length (keys q) \<le> cap"
    and ins_law: "inv q \<Longrightarrow> storable k \<Longrightarrow>
      \<exists>q'. ins q k = Some (q', k \<notin> set (keys q) \<and> length (keys q) < cap) \<and> inv q'
        \<and> keys q' = (if k \<notin> set (keys q) \<and> length (keys q) < cap then keys q @ [k] else keys q)"
    and rem_law: "inv q \<Longrightarrow>
      \<exists>q'. rem q = Some (q', keys q \<noteq> []) \<and> inv q' \<and> keys q' = tl (keys q)"
    and peek_law: "inv q \<Longrightarrow> (keys q \<noteq> [] \<Longrightarrow> storable (hd (keys q))) \<Longrightarrow>
      peek q = Some (q, if keys q = [] then None else Some (hd (keys q)))"
begin

lemma ins_again:
  assumes "inv q" and "storable k" and "ins q k = Some (q1, True)"
  shows "\<exists>q2. ins q1 k = Some (q2, False) \<and> keys q2 = keys q1"
proof -
  from ins_law [OF assms(1,2)] assms(3) have "inv q1" and "k \<in> set (keys q1)" by auto
  with ins_law [OF this(1) assms(2)] show ?thesis by auto
qed

lemma removes: "inv q \<Longrightarrow> \<exists>q'. iterate n (\<lambda>q. map_option fst (rem q)) q = Some q' \<and> inv q' \<and> keys q' = drop n (keys q)"
proof (induction n arbitrary: q)
  case (Suc n)
  obtain q1 where q1: "rem q = Some (q1, keys q \<noteq> [])" "inv q1" "keys q1 = tl (keys q)"
    using rem_law [OF Suc.prems] by blast
  from Suc.IH [OF q1(2)] q1 show ?case by (simp add: drop_Suc)
qed simp

lemma served_in_turn:
  assumes "inv q" and "storable k" and "ins q k = Some (q1, True)"
  shows "\<exists>q2. iterate (length (keys q)) (\<lambda>q. map_option fst (rem q)) q1 = Some q2
    \<and> peek q2 = Some (q2, Some k)"
proof -
  from ins_law [OF assms(1,2)] assms(3) have q1: "inv q1" "keys q1 = keys q @ [k]"
    by (auto split: if_splits)
  from removes [OF q1(1)] q1(2) obtain q2 where q2:
    "iterate (length (keys q)) (\<lambda>q. map_option fst (rem q)) q1 = Some q2" "inv q2" "keys q2 = [k]"
    by fastforce
  with peek_law [OF q2(2)] assms(2) show ?thesis by simp
qed

end

definition storable_in :: "nat \<Rightarrow> key \<Rightarrow> bool" where
  "storable_in n k \<longleftrightarrow> length (fst k) < n"

definition insert_key :: "work_queue \<Rightarrow> key \<Rightarrow> (work_queue \<times> bool) option" where
  "insert_key wq k = insert_work wq (fst k) (snd k)"

text \<open>
  The code's queue provides the interface for paths that fit into the array the caller of
  \<open>peak_work\<close> has: \<^const>\<open>MAX_PATH_SIZE\<close> bytes in the migration worker.
\<close>

interpretation wq: bounded_fifo wq_keys wq_inv "MAX_WORKQUEUE_SIZE - 1" "storable_in MAX_PATH_SIZE"
  insert_key remove_work "peak_work MAX_PATH_SIZE"
proof unfold_locales
  fix q :: work_queue and k :: key
  assume inv: "wq_inv q"
  then show "distinct (wq_keys q) \<and> length (wq_keys q) \<le> MAX_WORKQUEUE_SIZE - 1"
    by (auto simp: wq_inv_def)
  show "\<exists>q'. remove_work q = Some (q', wq_keys q \<noteq> []) \<and> wq_inv q' \<and> wq_keys q' = tl (wq_keys q)"
    using inv wq_keys_drop [of q] wq_inv_drop [of q]
    by (auto simp: remove_work_spec wq_keys_def simp flip: length_0_conv)
  show "peak_work MAX_PATH_SIZE q = Some (q, if wq_keys q = [] then None else Some (hd (wq_keys q)))"
    if "wq_keys q \<noteq> [] \<Longrightarrow> storable_in MAX_PATH_SIZE (hd (wq_keys q))"
    using peak_work_spec [OF inv, of MAX_PATH_SIZE] that
    by (auto simp: storable_in_def simp flip: length_0_conv)
next
  fix q :: work_queue and k :: key
  assume inv: "wq_inv q" and "storable_in MAX_PATH_SIZE k"
  then have len: "length (fst k) \<le> MAX_PATH_SIZE" by (simp add: storable_in_def)
  show "\<exists>q'. insert_key q k = Some (q', k \<notin> set (wq_keys q) \<and> length (wq_keys q) < MAX_WORKQUEUE_SIZE - 1)
    \<and> wq_inv q' \<and> wq_keys q' = (if k \<notin> set (wq_keys q) \<and> length (wq_keys q) < MAX_WORKQUEUE_SIZE - 1
        then wq_keys q @ [k] else wq_keys q)"
    using inv len insert_work_spec [OF inv len, of "snd k"] wq_keys_append [OF inv, of k]
      wq_inv_append [OF inv _ _ len]
    by (auto simp: insert_key_def wq_inv_def [of q])
qed

section \<open>Properties\<close>

text \<open>A small queue for the witnesses: one work for block 3 of \<^verbatim>\<open>ab\<close>.\<close>

definition empty_wq :: work_queue where
  "empty_wq = init_work_queue \<lparr>works = \<lambda>_. \<lparr>w_full_path_name = [], w_cache_page_index = 0\<rparr>,
     front = 9, rear = 4, wq_size = 2, wq_lock = \<lparr>locked = 1\<rparr>\<rparr>"

definition one_work :: work_queue where
  "one_work = wq_append empty_wq (''ab'', 3)"

lemma wq_inv_init: "wq_inv (init_work_queue wq) \<and> wq_keys (init_work_queue wq) = []"
  by (simp add: wq_inv_def init_work_queue_def wq_keys_def MAX_WORKQUEUE_SIZE_def)

lemma wq_inv_empty_wq: "wq_inv empty_wq \<and> wq_keys empty_wq = []"
  by (simp add: empty_wq_def wq_inv_init)

lemma empty_wq_size: "wq_size empty_wq = 0"
  by (simp add: empty_wq_def init_work_queue_def)

lemma wq_inv_one_work: "wq_inv one_work \<and> wq_keys one_work = [(''ab'', 3)]"
proof -
  have "wq_size empty_wq < MAX_WORKQUEUE_SIZE - 1"
    by (simp add: empty_wq_size MAX_WORKQUEUE_SIZE_def)
  with wq_inv_empty_wq show ?thesis
    by (simp add: one_work_def wq_inv_append wq_keys_append MAX_PATH_SIZE_def)
qed

text \<open>
  C28. \<open>insert_work\<close> on a valid queue returns with the lock released: it answers true exactly when
  fewer than 15 works are queued and the key is not among them, the queue is then extended by the
  key at its end, and otherwise it is unchanged.
\<close>

theorem insert_work_bounded_set:
  assumes "wq_inv wq" and "length p \<le> MAX_PATH_SIZE"
  shows "\<exists>wq'. insert_work wq p c =
      Some (wq', (p, c) \<notin> set (wq_keys wq) \<and> length (wq_keys wq) < MAX_WORKQUEUE_SIZE - 1)
    \<and> wq_inv wq'
    \<and> wq_keys wq' = (if (p, c) \<notin> set (wq_keys wq) \<and> length (wq_keys wq) < MAX_WORKQUEUE_SIZE - 1
                     then wq_keys wq @ [(p, c)] else wq_keys wq)"
proof -
  from assms(1) have "wq_size wq < MAX_WORKQUEUE_SIZE" by (simp add: wq_inv_def)
  then show ?thesis
    using insert_work_spec [OF assms] wq_keys_append [OF assms(1)] wq_inv_append [OF assms(1)] assms
    by auto
qed

theorem insert_work_bounded_set_witness:
  "wq_inv one_work \<and> length ''ab'' \<le> MAX_PATH_SIZE
   \<and> (\<exists>wq'. insert_work one_work ''ab'' 3 = Some (wq', False) \<and> wq_keys wq' = [(''ab'', 3)])"
proof -
  have len: "length ''ab'' \<le> MAX_PATH_SIZE" by (simp add: MAX_PATH_SIZE_def)
  show ?thesis
    using wq_inv_one_work len
      insert_work_bounded_set [OF wq_inv_one_work [THEN conjunct1] len, of 3] by auto
qed

text \<open>
  A work that \<open>insert_work\<close> accepted while \<open>n\<close> works were queued is the one \<open>peak_work\<close>
  copies out after \<open>n\<close> calls of \<open>remove_work\<close>: the queue serves in the order of insertion and
  loses nothing.
\<close>

theorem work_served_in_turn:
  assumes "wq_inv wq" and "length p < MAX_PATH_SIZE" and "insert_work wq p c = Some (wq1, True)"
  shows "\<exists>wq2. iterate (length (wq_keys wq)) (\<lambda>q. map_option fst (remove_work q)) wq1 = Some wq2
    \<and> peak_work MAX_PATH_SIZE wq2 = Some (wq2, Some (p, c))"
  using wq.served_in_turn [of wq "(p, c)" wq1] assms
  by (simp add: storable_in_def insert_key_def)

theorem work_served_in_turn_witness:
  "\<exists>wq1 wq2. insert_work one_work ''f'' 7 = Some (wq1, True)
     \<and> iterate 1 (\<lambda>q. map_option fst (remove_work q)) wq1 = Some wq2
     \<and> peak_work MAX_PATH_SIZE wq2 = Some (wq2, Some (''f'', 7))"
proof -
  have len: "length ''f'' < MAX_PATH_SIZE" by (simp add: MAX_PATH_SIZE_def)
  have "wq_size one_work = 1"
    using wq_inv_one_work length_wq_keys [of one_work] by simp
  then have "insert_work one_work ''f'' 7 = Some (wq_append one_work (''f'', 7), True)"
    using wq_inv_one_work len by (simp add: insert_work_spec MAX_WORKQUEUE_SIZE_def)
  from this work_served_in_turn [OF wq_inv_one_work [THEN conjunct1] len this] wq_inv_one_work
  show ?thesis by auto
qed

text \<open>
  \<open>contains_work\<close> answers true exactly when some queued work has the cache page index asked
  for and a path that is a prefix of the path asked for. It therefore finds every queued key, and
  it also claims keys that are not queued: with only block 3 of \<^verbatim>\<open>ab\<close> queued it answers true
  for block 3 of \<^verbatim>\<open>abc\<close>.
\<close>

theorem contains_work_prefix_match:
  assumes "wq_inv wq"
  shows "contains_work wq p c =
      Some (wq, \<exists>k \<in> set (wq_keys wq). (\<exists>r. p = fst k @ r) \<and> snd k = c)
    \<and> (''abc'', 3) \<notin> set (wq_keys one_work) \<and> contains_work one_work ''abc'' 3 = Some (one_work, True)"
  using assms wq_inv_one_work by (simp add: contains_work_spec)

theorem contains_work_prefix_match_witness:
  "wq_inv one_work \<and> contains_work one_work ''ba'' 3 = Some (one_work, False)"
  using wq_inv_one_work contains_work_prefix_match [of one_work "''ba''" 3] by simp

text \<open>
  \<open>is_full\<close> answers false on every valid queue, also on one that refuses every further work
  because it holds 15: its test compares the size with 16. \<open>is_empty\<close> is right.
\<close>

theorem is_full_never_true:
  assumes "wq_inv wq"
  shows "is_full wq = Some (wq, False) \<and> is_empty wq = Some (wq, wq_keys wq = [])
    \<and> (wq_size wq = MAX_WORKQUEUE_SIZE - 1 \<longrightarrow> insert_work wq [] c = Some (wq, False))"
  using assms insert_work_spec [OF assms, of "[]"]
  by (auto simp: is_full_def is_empty_def wq_inv_unlocked wq_inv_def [of wq] wq_keys_def)

theorem is_full_never_true_witness:
  "wq_inv one_work \<and> is_full one_work = Some (one_work, False) \<and> is_empty one_work = Some (one_work, False)"
  using wq_inv_one_work is_full_never_true [of one_work 0] by simp

end
