(* ===== verification/IList.thy ===== *)
theory IList
  imports Spinlock
begin

text \<open>
  The entries of the cache mapping and the doubly linked lists that thread through them, from
  the first part of \<^verbatim>\<open>dm-cache/lib/ssd_cache_mapping.c\<close> and \<^verbatim>\<open>dm-cache/inc/cache.h\<close>.
  The array \<open>entrys\<close> is a function from index to entry; lists link entries by index, with
  \<open>INDEXER_NULL\<close> for none. A \<^verbatim>\<open>struct entry *\<close> is the index of the entry it points to, and
  NULL is \<^const>\<open>None\<close>.

  The abstract view of a list is the sequence of indices it links. \<open>ilist_rep\<close> relates the two;
  every operation is shown to be the operation on sequences it stands for, to keep all other
  lists, and to touch nothing of an entry but its two links.
\<close>

section \<open>State\<close>

definition INDEXER_NULL :: u32 where
  "INDEXER_NULL = push_bit 28 1 - 1"

record entry =
  hash_next :: u32
  e_prev :: u32
  e_next :: u32
  param :: "3 word"
  full_path_name :: path
  cache_page_index :: u32

type_synonym entrys = "u32 \<Rightarrow> entry"

record ilist =
  nr_elts :: u32
  head :: u32
  tail :: u32

section \<open>Operations\<close>

definition to_entry :: "u32 \<Rightarrow> u32 option" where
  "to_entry block = (if block = INDEXER_NULL then None else Some block)"

definition l_init :: "ilist \<Rightarrow> ilist" where
  "l_init l = l\<lparr>nr_elts := 0, head := INDEXER_NULL, tail := INDEXER_NULL\<rparr>"

definition l_head :: "ilist \<Rightarrow> u32 option" where
  "l_head l = to_entry (head l)"

definition l_tail :: "ilist \<Rightarrow> u32 option" where
  "l_tail l = to_entry (tail l)"

definition l_next :: "entrys \<Rightarrow> u32 \<Rightarrow> u32 option" where
  "l_next es e = to_entry (e_next (es e))"

definition l_prev :: "entrys \<Rightarrow> u32 \<Rightarrow> u32 option" where
  "l_prev es e = to_entry (e_prev (es e))"

definition l_empty :: "ilist \<Rightarrow> bool" where
  "l_empty l \<longleftrightarrow> head l = INDEXER_NULL"

definition set_next :: "entrys \<Rightarrow> u32 \<Rightarrow> u32 \<Rightarrow> entrys" where
  "set_next es i x = es(i := (es i)\<lparr>e_next := x\<rparr>)"

definition set_prev :: "entrys \<Rightarrow> u32 \<Rightarrow> u32 \<Rightarrow> entrys" where
  "set_prev es i x = es(i := (es i)\<lparr>e_prev := x\<rparr>)"

definition l_add_head :: "entrys \<Rightarrow> ilist \<Rightarrow> u32 \<Rightarrow> entrys \<times> ilist" where
  "l_add_head es l e =
     (let hd = l_head l;
          es = set_next es e (head l);
          es = set_prev es e INDEXER_NULL;
          (es, l) = (case hd of
              Some h \<Rightarrow> (set_prev es h e, l\<lparr>head := e\<rparr>)
            | None \<Rightarrow> (es, l\<lparr>head := e, tail := e\<rparr>))
      in (es, l\<lparr>nr_elts := nr_elts l + 1\<rparr>))"

definition l_add_tail :: "entrys \<Rightarrow> ilist \<Rightarrow> u32 \<Rightarrow> entrys \<times> ilist" where
  "l_add_tail es l e =
     (let tl = l_tail l;
          es = set_next es e INDEXER_NULL;
          es = set_prev es e (tail l);
          (es, l) = (case tl of
              Some t \<Rightarrow> (set_next es t e, l\<lparr>tail := e\<rparr>)
            | None \<Rightarrow> (es, l\<lparr>head := e, tail := e\<rparr>))
      in (es, l\<lparr>nr_elts := nr_elts l + 1\<rparr>))"

definition l_del :: "entrys \<Rightarrow> ilist \<Rightarrow> u32 \<Rightarrow> entrys \<times> ilist" where
  "l_del es l e =
     (let prev = l_prev es e;
          nxt = l_next es e;
          (es, l) = (case prev of
              Some p \<Rightarrow> (set_next es p (e_next (es e)), l)
            | None \<Rightarrow> (es, l\<lparr>head := e_next (es e)\<rparr>));
          (es, l) = (case nxt of
              Some n \<Rightarrow> (set_prev es n (e_prev (es e)), l)
            | None \<Rightarrow> (es, l\<lparr>tail := e_prev (es e)\<rparr>))
      in (es, l\<lparr>nr_elts := nr_elts l - 1\<rparr>))"

text \<open>The loop of \<open>l_pop_head\<close> returns in its first iteration.\<close>

definition l_pop_head :: "entrys \<Rightarrow> ilist \<Rightarrow> (entrys \<times> ilist) \<times> u32 option" where
  "l_pop_head es l =
     (case l_head l of
        Some e \<Rightarrow> (l_del es l e, Some e)
      | None \<Rightarrow> ((es, l), None))"

section \<open>Linked sequences\<close>

text \<open>
  \<open>links es p xs n\<close>: the entries \<open>xs\<close> are linked in this order in both directions, from a
  predecessor \<open>p\<close> of the first to a successor \<open>n\<close> of the last.
\<close>

fun links :: "entrys \<Rightarrow> u32 \<Rightarrow> u32 list \<Rightarrow> u32 \<Rightarrow> bool" where
  "links es p [] n \<longleftrightarrow> True"
| "links es p (x # xs) n \<longleftrightarrow>
     e_prev (es x) = p \<and> e_next (es x) = (case xs of [] \<Rightarrow> n | y # _ \<Rightarrow> y) \<and> links es x xs n"

definition first :: "u32 list \<Rightarrow> u32 \<Rightarrow> u32" where
  "first xs d = (case xs of [] \<Rightarrow> d | x # _ \<Rightarrow> x)"

definition final :: "u32 list \<Rightarrow> u32 \<Rightarrow> u32" where
  "final xs d = (if xs = [] then d else last xs)"

lemma first_simps [simp]: "first [] d = d" "first (x # xs) d = x"
  by (simp_all add: first_def)

lemma final_simps [simp]: "final [] d = d" "final (x # xs) d = final xs x"
  by (simp_all add: final_def)

lemma first_append [simp]: "first (xs @ ys) d = first xs (first ys d)"
  by (cases xs) simp_all

lemma final_append [simp]: "final (xs @ ys) d = final ys (final xs d)"
  by (simp add: final_def)

lemma first_final_ne:
  "xs \<noteq> [] \<Longrightarrow> first xs d = hd xs"
  "xs \<noteq> [] \<Longrightarrow> final xs d = last xs"
  by (simp_all add: first_def final_def split: list.split)

lemma first_in: "first xs d = d \<or> first xs d \<in> set xs"
  by (cases xs) auto

lemma final_in: "final xs d = d \<or> final xs d \<in> set xs"
  by (auto simp: final_def)

lemma links_Cons: "links es p (x # xs) n \<longleftrightarrow>
    e_prev (es x) = p \<and> e_next (es x) = first xs n \<and> links es x xs n"
  by (auto simp: first_def split: list.splits)

declare links.simps(2) [simp del]
declare links_Cons [simp]

lemma links_append [simp]:
  "links es p (xs @ ys) n \<longleftrightarrow> links es p xs (first ys n) \<and> links es (final xs p) ys n"
  by (induction xs arbitrary: p) auto

lemma links_cong:
  assumes "\<And>i. i \<in> set xs \<Longrightarrow> e_prev (es' i) = e_prev (es i) \<and> e_next (es' i) = e_next (es i)"
  shows "links es' p xs n = links es p xs n"
  using assms
proof (induction xs arbitrary: p)
  case (Cons x xs)
  from Cons.prems [of x] Cons.IH [of x] Cons.prems show ?case by simp
qed simp

definition ilist_rep :: "entrys \<Rightarrow> ilist \<Rightarrow> u32 list \<Rightarrow> bool" where
  "ilist_rep es l xs \<longleftrightarrow>
     head l = first xs INDEXER_NULL \<and> tail l = final xs INDEXER_NULL
     \<and> nr_elts l = of_nat (length xs)
     \<and> links es INDEXER_NULL xs INDEXER_NULL
     \<and> distinct xs \<and> INDEXER_NULL \<notin> set xs"

lemma ilist_rep_cong:
  "(\<And>i. i \<in> set xs \<Longrightarrow> e_prev (es' i) = e_prev (es i) \<and> e_next (es' i) = e_next (es i))
    \<Longrightarrow> ilist_rep es' l xs = ilist_rep es l xs"
  using links_cong [of xs es' es INDEXER_NULL INDEXER_NULL] by (simp add: ilist_rep_def)

text \<open>Reading a list from its head, for at most as many steps as it counts elements.\<close>

fun walk :: "entrys \<Rightarrow> u32 \<Rightarrow> nat \<Rightarrow> u32 list" where
  "walk es i 0 = []"
| "walk es i (Suc n) = (if i = INDEXER_NULL then [] else i # walk es (e_next (es i)) n)"

definition elements :: "entrys \<Rightarrow> ilist \<Rightarrow> u32 list" where
  "elements es l = walk es (head l) (unat (nr_elts l))"

lemma walk_links:
  "links es p xs INDEXER_NULL \<Longrightarrow> INDEXER_NULL \<notin> set xs \<Longrightarrow> walk es (first xs INDEXER_NULL) (length xs) = xs"
  by (induction xs arbitrary: p) auto

lemma distinct_length_u32:
  fixes xs :: "u32 list"
  assumes "distinct xs" and "y \<notin> set xs"
  shows "length xs < 4294967296"
proof -
  have "card (set (y # xs)) \<le> card (UNIV :: u32 set)" by (rule card_mono) simp_all
  with assms show ?thesis by (simp add: distinct_card card_word)
qed

lemma ilist_rep_elements: "ilist_rep es l xs \<Longrightarrow> elements es l = xs"
  using walk_links [of es INDEXER_NULL xs] distinct_length_u32 [of xs INDEXER_NULL]
  by (simp add: ilist_rep_def elements_def unat_of_nat_u32)

lemma ilist_rep_unique: "ilist_rep es l xs \<Longrightarrow> ilist_rep es l ys \<Longrightarrow> xs = ys"
  using ilist_rep_elements by blast

section \<open>The operations on sequences\<close>

lemma set_next_apply [simp]:
  "e_next (set_next es i x j) = (if j = i then x else e_next (es j))"
  "e_prev (set_next es i x j) = e_prev (es j)"
  "e_next (set_prev es i x j) = e_next (es j)"
  "e_prev (set_prev es i x j) = (if j = i then x else e_prev (es j))"
  by (simp_all add: set_next_def set_prev_def)

lemma set_next_other [simp]:
  "j \<noteq> i \<Longrightarrow> set_next es i x j = es j"
  "j \<noteq> i \<Longrightarrow> set_prev es i x j = es j"
  by (simp_all add: set_next_def set_prev_def)

text \<open>What an entry holds besides its two links; no list operation changes it.\<close>

definition unlinked :: "entry \<Rightarrow> entry" where
  "unlinked e = e\<lparr>e_prev := 0, e_next := 0\<rparr>"

lemma unlinked_set [simp]:
  "unlinked (set_next es i x j) = unlinked (es j)"
  "unlinked (set_prev es i x j) = unlinked (es j)"
  by (simp_all add: unlinked_def set_next_def set_prev_def)

lemma unlinked_fields:
  assumes "unlinked a = unlinked b"
  shows "hash_next a = hash_next b" and "param a = param b"
    and "full_path_name a = full_path_name b" and "cache_page_index a = cache_page_index b"
  using arg_cong [OF assms, of hash_next] arg_cong [OF assms, of param]
    arg_cong [OF assms, of full_path_name] arg_cong [OF assms, of cache_page_index]
  by (simp_all add: unlinked_def)

lemma l_add_tail_unlinked: "unlinked (fst (l_add_tail es l e) i) = unlinked (es i)"
  by (simp add: l_add_tail_def Let_def split: option.split)

lemma l_add_head_unlinked: "unlinked (fst (l_add_head es l e) i) = unlinked (es i)"
  by (simp add: l_add_head_def Let_def split: option.split)

lemma l_del_unlinked: "unlinked (fst (l_del es l e) i) = unlinked (es i)"
  by (simp add: l_del_def Let_def split: option.split)

lemmas ilist_unlinked [simp] = l_add_tail_unlinked l_add_head_unlinked l_del_unlinked

lemma l_add_tail_empty:
  "ilist_rep es l [] \<Longrightarrow> l_add_tail es l e =
     (set_prev (set_next es e INDEXER_NULL) e INDEXER_NULL,
      l\<lparr>nr_elts := nr_elts l + 1, head := e, tail := e\<rparr>)"
  by (simp add: l_add_tail_def ilist_rep_def l_tail_def to_entry_def)

lemma l_add_tail_snoc:
  "ilist_rep es l (xs @ [t]) \<Longrightarrow> l_add_tail es l e =
     (set_next (set_prev (set_next es e INDEXER_NULL) e t) t e,
      l\<lparr>nr_elts := nr_elts l + 1, tail := e\<rparr>)"
  by (auto simp: l_add_tail_def ilist_rep_def l_tail_def to_entry_def)

lemma l_add_head_empty:
  "ilist_rep es l [] \<Longrightarrow> l_add_head es l e =
     (set_prev (set_next es e INDEXER_NULL) e INDEXER_NULL,
      l\<lparr>nr_elts := nr_elts l + 1, head := e, tail := e\<rparr>)"
  by (simp add: l_add_head_def ilist_rep_def l_head_def to_entry_def)

lemma l_add_head_Cons:
  "ilist_rep es l (h # xs) \<Longrightarrow> l_add_head es l e =
     (set_prev (set_prev (set_next es e h) e INDEXER_NULL) h e,
      l\<lparr>nr_elts := nr_elts l + 1, head := e\<rparr>)"
  by (auto simp: l_add_head_def ilist_rep_def l_head_def to_entry_def)

lemma l_add_tail_other:
  "ilist_rep es l xs \<Longrightarrow> i \<notin> insert e (set xs) \<Longrightarrow> fst (l_add_tail es l e) i = es i"
  by (cases xs rule: rev_cases) (simp_all add: l_add_tail_empty l_add_tail_snoc)

lemma l_add_head_other:
  "ilist_rep es l xs \<Longrightarrow> i \<notin> insert e (set xs) \<Longrightarrow> fst (l_add_head es l e) i = es i"
  by (cases xs) (simp_all add: l_add_head_empty l_add_head_Cons)

lemma l_add_tail_rep:
  assumes "ilist_rep es l xs" and "e \<notin> set xs" and "e \<noteq> INDEXER_NULL"
  shows "ilist_rep (fst (l_add_tail es l e)) (snd (l_add_tail es l e)) (xs @ [e])"
proof (cases xs rule: rev_cases)
  case Nil
  with assms show ?thesis by (simp add: l_add_tail_empty) (simp add: ilist_rep_def)
next
  case (snoc ys t)
  let ?es = "set_next (set_prev (set_next es e INDEXER_NULL) e t) t e"
  from assms snoc have "links es INDEXER_NULL ys t" and "e \<notin> set ys" and "t \<notin> set ys"
    by (auto simp: ilist_rep_def)
  then have "links ?es INDEXER_NULL ys t"
    by (subst links_cong [of ys ?es es]) auto
  with assms snoc show ?thesis
    by (auto simp: l_add_tail_snoc) (auto simp: ilist_rep_def)
qed

lemma l_add_head_rep:
  assumes "ilist_rep es l xs" and "e \<notin> set xs" and "e \<noteq> INDEXER_NULL"
  shows "ilist_rep (fst (l_add_head es l e)) (snd (l_add_head es l e)) (e # xs)"
proof (cases xs)
  case Nil
  with assms show ?thesis by (simp add: l_add_head_empty) (simp add: ilist_rep_def)
next
  case (Cons h ys)
  let ?es = "set_prev (set_prev (set_next es e h) e INDEXER_NULL) h e"
  from assms Cons have "links es h ys INDEXER_NULL" and "e \<notin> set ys" and "h \<notin> set ys"
    by (auto simp: ilist_rep_def)
  then have "links ?es h ys INDEXER_NULL"
    by (subst links_cong [of ys ?es es]) auto
  with assms Cons show ?thesis
    by (auto simp: l_add_head_Cons) (auto simp: ilist_rep_def)
qed

text \<open>
  Removal of an element from the middle: the neighbours, if there are any, are linked to each
  other, and the ends of the list move when the element was one of them.
\<close>

definition relink :: "entrys \<Rightarrow> u32 list \<Rightarrow> u32 list \<Rightarrow> entrys" where
  "relink es as bs =
     (let es = (if as = [] then es else set_next es (last as) (first bs INDEXER_NULL))
      in (if bs = [] then es else set_prev es (hd bs) (final as INDEXER_NULL)))"

lemma relink_apply:
  "e_next (relink es as bs j) = (if as \<noteq> [] \<and> j = last as then first bs INDEXER_NULL else e_next (es j))"
  "e_prev (relink es as bs j) = (if bs \<noteq> [] \<and> j = hd bs then final as INDEXER_NULL else e_prev (es j))"
  by (simp_all add: relink_def Let_def)

lemma l_del_middle:
  assumes "ilist_rep es l (as @ e # bs)"
  shows "l_del es l e = (relink es as bs,
    l\<lparr>nr_elts := nr_elts l - 1,
      head := (if as = [] then first bs INDEXER_NULL else head l),
      tail := (if bs = [] then final as INDEXER_NULL else tail l)\<rparr>)"
proof -
  have prev: "l_prev es e = (if as = [] then None else Some (last as))"
    using assms by (auto simp: ilist_rep_def l_prev_def to_entry_def final_def)
      (metis last_in_set)+
  have nxt: "l_next es e = (if bs = [] then None else Some (hd bs))"
    using assms by (cases bs) (auto simp: ilist_rep_def l_next_def to_entry_def)
  have "e_prev (es e) = final as INDEXER_NULL" and "e_next (es e) = first bs INDEXER_NULL"
    using assms by (auto simp: ilist_rep_def)
  then show ?thesis
    by (simp add: l_del_def prev nxt relink_def Let_def split: option.split)
qed

lemma relink_links:
  assumes "links es INDEXER_NULL (as @ e # bs) INDEXER_NULL" and "distinct (as @ e # bs)"
  shows "links (relink es as bs) INDEXER_NULL (as @ bs) INDEXER_NULL"
proof -
  have before: "links (relink es as bs) INDEXER_NULL as (first bs INDEXER_NULL)"
  proof (cases as rule: rev_cases)
    case (snoc as' a)
    then have "links (relink es as bs) INDEXER_NULL as' a = links es INDEXER_NULL as' a"
      using assms(2) by (intro links_cong) (cases bs; auto simp: relink_apply)
    with snoc assms show ?thesis by (cases bs) (auto simp: relink_apply)
  qed simp
  have after: "links (relink es as bs) (final as INDEXER_NULL) bs INDEXER_NULL"
  proof (cases bs)
    case (Cons b bs')
    then have "links (relink es as bs) b bs' INDEXER_NULL = links es b bs' INDEXER_NULL"
      using assms(2) by (intro links_cong) (cases as rule: rev_cases; auto simp: relink_apply)
    with Cons assms show ?thesis by (cases as rule: rev_cases) (auto simp: relink_apply)
  qed simp
  from before after show ?thesis by simp
qed

lemma l_del_rep:
  assumes "ilist_rep es l xs" and "e \<in> set xs"
  shows "ilist_rep (fst (l_del es l e)) (snd (l_del es l e)) (remove1 e xs)"
proof -
  obtain as bs where xs: "xs = as @ e # bs" and "e \<notin> set as"
    using assms(2) by (metis split_list_first)
  then have rem: "remove1 e xs = as @ bs" by (simp add: remove1_append)
  have "links es INDEXER_NULL (as @ e # bs) INDEXER_NULL" and "distinct (as @ e # bs)"
    using assms(1) xs by (auto simp: ilist_rep_def)
  note links = relink_links [OF this]
  show ?thesis
    using assms(1) links unfolding rem
    unfolding xs by (subst (1 2) l_del_middle) (auto simp: ilist_rep_def first_final_ne)
qed

lemma relink_other: "i \<notin> set as \<Longrightarrow> i \<notin> set bs \<Longrightarrow> relink es as bs i = es i"
  by (cases as rule: rev_cases; cases bs) (auto simp: relink_def)

lemma l_del_other:
  assumes "ilist_rep es l xs" and "e \<in> set xs" and "i \<notin> set xs"
  shows "fst (l_del es l e) i = es i"
proof -
  obtain as bs where xs: "xs = as @ e # bs"
    using assms(2) by (metis split_list)
  with assms(1) have "l_del es l e = (relink es as bs, snd (l_del es l e))"
    by (simp add: l_del_middle)
  with assms(3) xs show ?thesis by (metis fst_conv relink_other in_set_conv_decomp
        Un_iff set_append list.set_intros(2))
qed

lemma l_init_rep: "ilist_rep es (l_init l) []"
  by (simp add: l_init_def ilist_rep_def)

lemma l_empty_iff: "ilist_rep es l xs \<Longrightarrow> l_empty l \<longleftrightarrow> xs = []"
  by (cases xs) (auto simp: l_empty_def ilist_rep_def)

lemma l_head_rep: "ilist_rep es l xs \<Longrightarrow> l_head l = (if xs = [] then None else Some (hd xs))"
  by (cases xs) (auto simp: l_head_def to_entry_def ilist_rep_def)

lemma nr_elts_rep: "ilist_rep es l xs \<Longrightarrow> unat (nr_elts l) = length xs"
  using distinct_length_u32 [of xs INDEXER_NULL] by (simp add: ilist_rep_def unat_of_nat_u32)

lemma l_pop_head_rep:
  "ilist_rep es l xs \<Longrightarrow> l_pop_head es l =
     (if xs = [] then ((es, l), None) else (l_del es l (hd xs), Some (hd xs)))"
  by (simp add: l_pop_head_def l_head_rep)

section \<open>The interface: disjoint lists over shared entries\<close>

text \<open>
  What the allocator and the mapping rely on: \<open>rep s l xs\<close> says that the list \<open>l\<close> links the
  elements \<open>xs\<close> in the shared store \<open>s\<close>; adding and deleting is adding and deleting on the
  sequence, and lists with other elements are not affected. From these laws follow the two
  compound steps of the code: moving an element to the end of its list, and from one list to
  the end of another.
\<close>

locale linked_lists =
  fixes rep :: "'s \<Rightarrow> 'l \<Rightarrow> 'i list \<Rightarrow> bool"
    and valid :: "'i \<Rightarrow> bool"
    and add_tail :: "'s \<Rightarrow> 'l \<Rightarrow> 'i \<Rightarrow> 's \<times> 'l"
    and del :: "'s \<Rightarrow> 'l \<Rightarrow> 'i \<Rightarrow> 's \<times> 'l"
  assumes rep_distinct: "rep s l xs \<Longrightarrow> distinct xs \<and> (\<forall>x \<in> set xs. valid x)"
    and add_tail_law: "rep s l xs \<Longrightarrow> e \<notin> set xs \<Longrightarrow> valid e \<Longrightarrow> add_tail s l e = (s', l') \<Longrightarrow>
      rep s' l' (xs @ [e])"
    and add_tail_frame: "rep s l xs \<Longrightarrow> rep s k ys \<Longrightarrow> set xs \<inter> set ys = {} \<Longrightarrow> e \<notin> set ys \<Longrightarrow>
      add_tail s l e = (s', l') \<Longrightarrow> rep s' k ys"
    and del_law: "rep s l xs \<Longrightarrow> e \<in> set xs \<Longrightarrow> del s l e = (s', l') \<Longrightarrow> rep s' l' (remove1 e xs)"
    and del_frame: "rep s l xs \<Longrightarrow> rep s k ys \<Longrightarrow> set xs \<inter> set ys = {} \<Longrightarrow> e \<in> set xs \<Longrightarrow>
      del s l e = (s', l') \<Longrightarrow> rep s' k ys"
begin

lemma not_in_remove1: "rep s l xs \<Longrightarrow> e \<notin> set (remove1 e xs)"
  using rep_distinct by (simp add: set_remove1_eq)

lemma touch:
  assumes "rep s l xs" and "e \<in> set xs"
    and "del s l e = (s1, l1)" and "add_tail s1 l1 e = (s2, l2)"
  shows "rep s2 l2 (remove1 e xs @ [e])"
    and "rep s k ys \<Longrightarrow> set xs \<inter> set ys = {} \<Longrightarrow> rep s2 k ys"
proof -
  have l1: "rep s1 l1 (remove1 e xs)" by (rule del_law [OF assms(1-3)])
  have "valid e" using rep_distinct [OF assms(1)] assms(2) by blast
  then show "rep s2 l2 (remove1 e xs @ [e])"
    using add_tail_law [OF l1 not_in_remove1 [OF assms(1)]] assms(4) by blast
  assume ys: "rep s k ys" "set xs \<inter> set ys = {}"
  then have "rep s1 k ys" by (rule del_frame [OF assms(1) _ _ assms(2,3)])
  then show "rep s2 k ys"
    by (rule add_tail_frame [OF l1 _ _ _ assms(4)]) (use ys assms(2) in \<open>auto dest: set_remove1_subset [THEN subsetD]\<close>)
qed

lemma transfer:
  assumes "rep s l xs" and "rep s k ys" and "set xs \<inter> set ys = {}" and "e \<in> set xs"
    and "del s l e = (s1, l1)" and "add_tail s1 k e = (s2, k2)"
  shows "rep s2 l1 (remove1 e xs)" and "rep s2 k2 (ys @ [e])"
    and "rep s j zs \<Longrightarrow> set zs \<inter> (set xs \<union> set ys) = {} \<Longrightarrow> rep s2 j zs"
proof -
  have l1: "rep s1 l1 (remove1 e xs)" by (rule del_law [OF assms(1,4,5)])
  have k1: "rep s1 k ys" by (rule del_frame [OF assms(1-5)])
  have "valid e" and e: "e \<notin> set ys" using rep_distinct [OF assms(1)] assms(3,4) by blast+
  then show "rep s2 k2 (ys @ [e])" using add_tail_law [OF k1] assms(6) by blast
  have "set ys \<inter> set (remove1 e xs) = {}" using assms(3) by (auto dest: set_remove1_subset [THEN subsetD])
  then show "rep s2 l1 (remove1 e xs)"
    by (rule add_tail_frame [OF k1 l1 _ not_in_remove1 [OF assms(1)] assms(6)])
  assume zs: "rep s j zs" "set zs \<inter> (set xs \<union> set ys) = {}"
  then have "rep s1 j zs" by (intro del_frame [OF assms(1) _ _ assms(4,5)]) auto
  then show "rep s2 j zs"
    by (rule add_tail_frame [OF k1 _ _ _ assms(6)]) (use zs assms(4) in auto)
qed

end

interpretation il: linked_lists ilist_rep "\<lambda>e. e \<noteq> INDEXER_NULL" l_add_tail l_del
proof unfold_locales
  fix s l xs k ys s' l' and e :: u32
  assume l: "ilist_rep s l xs"
  then show "distinct xs \<and> (\<forall>x \<in> set xs. x \<noteq> INDEXER_NULL)" by (auto simp: ilist_rep_def)
  show "ilist_rep s' l' (xs @ [e])"
    if "e \<notin> set xs" "e \<noteq> INDEXER_NULL" "l_add_tail s l e = (s', l')"
    using l_add_tail_rep [OF l that(1,2)] that(3) by simp
  show "ilist_rep s' l' (remove1 e xs)" if "e \<in> set xs" "l_del s l e = (s', l')"
    using l_del_rep [OF l that(1)] that(2) by simp
  assume k: "ilist_rep s k ys" "set xs \<inter> set ys = {}"
  show "ilist_rep s' k ys" if "e \<notin> set ys" "l_add_tail s l e = (s', l')"
  proof (subst ilist_rep_cong [of ys s' s])
    fix i assume "i \<in> set ys"
    with k(2) that(1) have "i \<notin> insert e (set xs)" by auto
    from l_add_tail_other [OF l this] that(2) show "e_prev (s' i) = e_prev (s i) \<and> e_next (s' i) = e_next (s i)"
      by simp
  qed (rule k(1))
  show "ilist_rep s' k ys" if "e \<in> set xs" "l_del s l e = (s', l')"
  proof (subst ilist_rep_cong [of ys s' s])
    fix i assume "i \<in> set ys"
    with k(2) have "i \<notin> set xs" by auto
    from l_del_other [OF l that(1) this] that(2) show "e_prev (s' i) = e_prev (s i) \<and> e_next (s' i) = e_next (s i)"
      by simp
  qed (rule k(1))
qed

end
