(* ===== verification/HashTable.thy ===== *)
theory HashTable
  imports IList
begin

text \<open>
  The hash table of the cache mapping, from \<^verbatim>\<open>dm-cache/lib/ssd_cache_mapping.c\<close>: buckets of
  singly linked entries, keyed by path and cache page index. A lookup moves the entry it finds to
  the front of its bucket.

  The loop of \<open>__h_lookup\<close> follows \<open>hash_next\<close> until NULL; in a cyclic bucket it would not stop.
  The abstract view of a table is the set of the entries it holds, in which no two have the same
  key; lookup, insertion and removal are shown to be those of a finite map, and to change nothing
  of an entry but its \<open>hash_next\<close>.
\<close>

section \<open>State\<close>

record hash_table =
  hash_bits :: nat
  buckets :: "u32 \<Rightarrow> u32"

section \<open>The hash function\<close>

definition djb2 :: "u32 \<Rightarrow> u32 \<Rightarrow> u32" where
  "djb2 hash_val x = (push_bit 5 hash_val + hash_val) + x"

definition hash_32 :: "path \<Rightarrow> u32 \<Rightarrow> nat \<Rightarrow> u32" where
  "hash_32 p c bits =
     (let hash_val = 5381;
          hash_val = djb2 hash_val c;
          hash_val = fold (\<lambda>x h. djb2 h (char_u32 x)) p hash_val
      in drop_bit (32 - bits) (push_bit (32 - bits) hash_val))"

text \<open>\<^verbatim>\<open>__builtin_clz\<close>: the number of zero bits before the highest bit set.\<close>

definition clz :: "u32 \<Rightarrow> nat" where
  "clz w = length (takeWhile (\<lambda>i. \<not> bit w i) (rev [0..<32]))"

fun fill_buckets :: "nat \<Rightarrow> (u32 \<Rightarrow> u32) \<Rightarrow> (u32 \<Rightarrow> u32)" where
  "fill_buckets 0 b = b"
| "fill_buckets (Suc n) b = (fill_buckets n b)(of_nat n := INDEXER_NULL)"

definition alloc_hash_table :: "hash_table \<Rightarrow> hash_table" where
  "alloc_hash_table ht =
     (let ht = ht\<lparr>hash_bits := 31 - clz BUCKETS_NUMBER\<rparr>
      in ht\<lparr>buckets := fill_buckets (unat BUCKETS_NUMBER) (buckets ht)\<rparr>)"

section \<open>Buckets\<close>

definition set_hash_next :: "entrys \<Rightarrow> u32 \<Rightarrow> u32 \<Rightarrow> entrys" where
  "set_hash_next es i x = es(i := (es i)\<lparr>hash_next := x\<rparr>)"

definition h_head :: "hash_table \<Rightarrow> u32 \<Rightarrow> u32 option" where
  "h_head ht bucket = to_entry (buckets ht bucket)"

definition h_next :: "entrys \<Rightarrow> u32 \<Rightarrow> u32 option" where
  "h_next es e = to_entry (hash_next (es e))"

definition insert_bucket :: "hash_table \<Rightarrow> entrys \<Rightarrow> u32 \<Rightarrow> u32 \<Rightarrow> hash_table \<times> entrys" where
  "insert_bucket ht es bucket e =
     (let es = set_hash_next es e (buckets ht bucket)
      in (ht\<lparr>buckets := (buckets ht)(bucket := e)\<rparr>, es))"

definition h_insert :: "hash_table \<Rightarrow> entrys \<Rightarrow> u32 \<Rightarrow> hash_table \<times> entrys" where
  "h_insert ht es e =
     (let h = hash_32 (full_path_name (es e)) (cache_page_index (es e)) (hash_bits ht)
      in insert_bucket ht es h e)"

text \<open>
  \<open>__h_lookup\<close> as \<open>lookup_bucket\<close>: \<open>prev\<close> is its last argument, \<open>e\<close> its loop variable. The result
  is the entry found, or NULL, and the entry before it.
\<close>

partial_function (option) lookup_from ::
    "entrys \<Rightarrow> path \<Rightarrow> u32 \<Rightarrow> u32 option \<Rightarrow> u32 option \<Rightarrow> (u32 option \<times> u32 option) option" where
  "lookup_from es p c prev e =
     (case e of
        None \<Rightarrow> Some (None, prev)
      | Some i \<Rightarrow>
          if c = cache_page_index (es i) \<and> strcmp_eq p (full_path_name (es i))
          then Some (Some i, prev)
          else lookup_from es p c (Some i) (h_next es i))"

declare lookup_from.simps [code]

definition lookup_bucket ::
    "hash_table \<Rightarrow> entrys \<Rightarrow> u32 \<Rightarrow> path \<Rightarrow> u32 \<Rightarrow> (u32 option \<times> u32 option) option" where
  "lookup_bucket ht es h p c = lookup_from es p c None (h_head ht h)"

definition unlink_bucket ::
    "hash_table \<Rightarrow> entrys \<Rightarrow> u32 \<Rightarrow> u32 \<Rightarrow> u32 option \<Rightarrow> hash_table \<times> entrys" where
  "unlink_bucket ht es h e prev =
     (case prev of
        Some p \<Rightarrow> (ht, set_hash_next es p (hash_next (es e)))
      | None \<Rightarrow> (ht\<lparr>buckets := (buckets ht)(h := hash_next (es e))\<rparr>, es))"

definition h_lookup ::
    "hash_table \<Rightarrow> entrys \<Rightarrow> path \<Rightarrow> u32 \<Rightarrow> ((hash_table \<times> entrys) \<times> u32 option) option" where
  "h_lookup ht es p c = do {
     let h = hash_32 p c (hash_bits ht);
     (e, prev) \<leftarrow> lookup_bucket ht es h p c;
     case (e, prev) of
       (Some i, Some _) \<Rightarrow> do {
         let (ht, es) = unlink_bucket ht es h i prev;
         let (ht, es) = insert_bucket ht es h i;
         Some ((ht, es), e) }
     | _ \<Rightarrow> Some ((ht, es), e) }"

definition h_remove :: "hash_table \<Rightarrow> entrys \<Rightarrow> u32 \<Rightarrow> (hash_table \<times> entrys) option" where
  "h_remove ht es e = do {
     let h = hash_32 (full_path_name (es e)) (cache_page_index (es e)) (hash_bits ht);
     (found, prev) \<leftarrow> lookup_bucket ht es h (full_path_name (es e)) (cache_page_index (es e));
     case found of
       Some i \<Rightarrow> Some (unlink_bucket ht es h i prev)
     | None \<Rightarrow> Some (ht, es) }"

section \<open>The hash value is a bucket\<close>

lemma drop_bit_15_bound: "drop_bit 15 (w :: u32) < 131072"
proof -
  have "unat w < 4294967296" using unsigned_less [of w, where 'a = nat] by simp
  then have "unat w div 32768 < 131072" by (simp add: less_mult_imp_div_less)
  then show ?thesis by (simp add: word_less_nat_alt unat_drop_bit_eq drop_bit_eq_div unat_div)
qed

lemma hash_32_bound: "hash_32 p c 17 < BUCKETS_NUMBER"
  using drop_bit_15_bound by (simp add: hash_32_def Let_def BUCKETS_NUMBER_eq)

lemma clz_BUCKETS_NUMBER: "clz BUCKETS_NUMBER = 14"
  unfolding BUCKETS_NUMBER_eq by code_simp

lemma fill_buckets_apply:
  "n \<le> 4294967296 \<Longrightarrow> fill_buckets n b i = (if unat i < n then INDEXER_NULL else b i)"
  by (induction n) (auto simp: less_Suc_eq unat_of_nat_u32)

lemma alloc_hash_table_apply:
  "hash_bits (alloc_hash_table ht) = 17"
  "i < BUCKETS_NUMBER \<Longrightarrow> buckets (alloc_hash_table ht) i = INDEXER_NULL"
  using clz_BUCKETS_NUMBER
  by (simp_all add: alloc_hash_table_def Let_def fill_buckets_apply BUCKETS_NUMBER_eq word_less_nat_alt)

section \<open>Chains\<close>

text \<open>\<open>chain es i xs\<close>: following \<open>hash_next\<close> from \<open>i\<close> visits \<open>xs\<close> and ends.\<close>

fun chain :: "entrys \<Rightarrow> u32 \<Rightarrow> u32 list \<Rightarrow> bool" where
  "chain es i [] \<longleftrightarrow> i = INDEXER_NULL"
| "chain es i (x # xs) \<longleftrightarrow> i = x \<and> x \<noteq> INDEXER_NULL \<and> chain es (hash_next (es x)) xs"

definition entry_key :: "entry \<Rightarrow> key" where
  "entry_key e = (full_path_name e, cache_page_index e)"

text \<open>What an entry holds besides \<open>hash_next\<close>; no table operation changes it.\<close>

definition unhashed :: "entry \<Rightarrow> entry" where
  "unhashed e = e\<lparr>hash_next := 0\<rparr>"

lemma unhashed_fields:
  assumes "unhashed a = unhashed b"
  shows "e_prev a = e_prev b" and "e_next a = e_next b" and "param a = param b"
    and "full_path_name a = full_path_name b" and "cache_page_index a = cache_page_index b"
    and "entry_key a = entry_key b"
  using arg_cong [OF assms, of e_prev] arg_cong [OF assms, of e_next] arg_cong [OF assms, of param]
    arg_cong [OF assms, of full_path_name] arg_cong [OF assms, of cache_page_index]
  by (simp_all add: unhashed_def entry_key_def)

lemma unhashed_set_hash_next [simp]: "unhashed (set_hash_next es i x j) = unhashed (es j)"
  by (simp add: unhashed_def set_hash_next_def)

lemma set_hash_next_apply [simp]:
  "hash_next (set_hash_next es i x j) = (if j = i then x else hash_next (es j))"
  "entry_key (set_hash_next es i x j) = entry_key (es j)"
  "full_path_name (set_hash_next es i x j) = full_path_name (es j)"
  "cache_page_index (set_hash_next es i x j) = cache_page_index (es j)"
  by (simp_all add: set_hash_next_def entry_key_def)

lemma chain_cong:
  assumes "\<And>i. i \<in> set xs \<Longrightarrow> hash_next (es' i) = hash_next (es i)"
  shows "chain es' i xs = chain es i xs"
  using assms by (induction xs arbitrary: i) auto

lemma chain_drop: "chain es i (xs @ y # ys) \<Longrightarrow> y \<noteq> INDEXER_NULL \<and> chain es (hash_next (es y)) ys"
  by (induction xs arbitrary: i) auto

lemma chain_bypass:
  "chain es i (xs @ [p, e] @ ys) \<Longrightarrow> distinct (xs @ [p, e] @ ys) \<Longrightarrow>
    chain (set_hash_next es p (hash_next (es e))) i (xs @ [p] @ ys)"
proof (induction xs arbitrary: i)
  case Nil
  then have "chain (set_hash_next es p (hash_next (es e))) (hash_next (es e)) ys"
    by (subst chain_cong [of ys _ es]) auto
  with Nil show ?case by simp
next
  case (Cons x xs)
  then show ?case by auto
qed

lemma chain_not_null: "chain es i xs \<Longrightarrow> INDEXER_NULL \<notin> set xs"
  by (induction xs arbitrary: i) auto

lemma to_entry_chain: "chain es i xs \<Longrightarrow> to_entry i = (if xs = [] then None else Some (hd xs))"
  by (cases xs) (auto simp: to_entry_def)

lemma lookup_test:
  "c = cache_page_index e \<and> strcmp_eq p (full_path_name e) \<longleftrightarrow> entry_key e = (p, c)"
  by (auto simp: strcmp_eq_def entry_key_def)

text \<open>The loop of \<open>__h_lookup\<close> stops at the first entry with the key, or at the end.\<close>

lemma lookup_from_hit:
  "chain es i (as @ e # bs) \<Longrightarrow> \<forall>x \<in> set as. entry_key (es x) \<noteq> (p, c) \<Longrightarrow> entry_key (es e) = (p, c) \<Longrightarrow>
    lookup_from es p c prev (to_entry i) = Some (Some e, if as = [] then prev else Some (last as))"
proof (induction as arbitrary: i prev)
  case Nil
  then show ?case
    by (subst lookup_from.simps) (simp add: to_entry_def lookup_test)
next
  case (Cons a as)
  then have "lookup_from es p c (Some a) (h_next es a) = Some (Some e, Some (last (a # as)))"
    by (auto simp: h_next_def)
  with Cons.prems show ?case
    by (subst lookup_from.simps) (simp add: to_entry_def lookup_test)
qed

lemma lookup_from_miss:
  "chain es i xs \<Longrightarrow> \<forall>x \<in> set xs. entry_key (es x) \<noteq> (p, c) \<Longrightarrow>
    \<exists>prev'. lookup_from es p c prev (to_entry i) = Some (None, prev')"
proof (induction xs arbitrary: i prev)
  case Nil
  then show ?case by (subst lookup_from.simps) (simp add: to_entry_def)
next
  case (Cons a as)
  then have "\<exists>prev'. lookup_from es p c (Some a) (h_next es a) = Some (None, prev')"
    by (auto simp: h_next_def)
  with Cons.prems show ?case
    by (subst lookup_from.simps) (simp add: to_entry_def lookup_test)
qed

section \<open>The table as a set of entries with distinct keys\<close>

definition bucket_of :: "entry \<Rightarrow> u32" where
  "bucket_of e = hash_32 (full_path_name e) (cache_page_index e) 17"

definition members :: "(u32 \<Rightarrow> u32 list) \<Rightarrow> u32 set" where
  "members B = (\<Union>b \<in> {b. b < BUCKETS_NUMBER}. set (B b))"

definition table_rep :: "entrys \<Rightarrow> hash_table \<Rightarrow> (u32 \<Rightarrow> u32 list) \<Rightarrow> bool" where
  "table_rep es ht B \<longleftrightarrow>
     hash_bits ht = 17
     \<and> (\<forall>b < BUCKETS_NUMBER. chain es (buckets ht b) (B b) \<and> distinct (B b)
          \<and> (\<forall>i \<in> set (B b). bucket_of (es i) = b))
     \<and> inj_on (\<lambda>i. entry_key (es i)) (members B)"

definition table :: "entrys \<Rightarrow> hash_table \<Rightarrow> u32 set \<Rightarrow> bool" where
  "table es ht M \<longleftrightarrow> (\<exists>B. table_rep es ht B \<and> members B = M)"

lemma bucket_of_bound: "bucket_of e < BUCKETS_NUMBER"
  by (simp add: bucket_of_def hash_32_bound)

lemma bucket_of_key: "entry_key a = entry_key b \<Longrightarrow> bucket_of a = bucket_of b"
  by (simp add: bucket_of_def entry_key_def)

lemma member_bucket: "table_rep es ht B \<Longrightarrow> i \<in> members B \<longleftrightarrow> i \<in> set (B (bucket_of (es i)))"
  using bucket_of_bound by (auto simp: table_rep_def members_def)

lemma table_not_null: "table es ht M \<Longrightarrow> INDEXER_NULL \<notin> M"
  by (auto simp: table_def table_rep_def members_def dest: chain_not_null)

lemma table_inj: "table es ht M \<Longrightarrow> inj_on (\<lambda>i. entry_key (es i)) M"
  by (auto simp: table_def table_rep_def)

lemma table_bits: "table es ht M \<Longrightarrow> hash_bits ht = 17"
  by (auto simp: table_def table_rep_def)

lemma table_cong:
  assumes "table es ht M"
    and same: "\<And>i. i \<in> M \<Longrightarrow> hash_next (es' i) = hash_next (es i) \<and> entry_key (es' i) = entry_key (es i)"
  shows "table es' ht M"
proof -
  from assms(1) obtain B where B: "table_rep es ht B" and M: "M = members B"
    by (auto simp: table_def)
  have "table_rep es' ht B"
    unfolding table_rep_def
  proof (intro conjI allI impI)
    show "hash_bits ht = 17" using B by (simp add: table_rep_def)
    show "inj_on (\<lambda>i. entry_key (es' i)) (members B)"
      using B same M by (auto simp: table_rep_def inj_on_def)
    fix b assume b: "b < BUCKETS_NUMBER"
    then have sub: "\<And>i. i \<in> set (B b) \<Longrightarrow> i \<in> M" by (auto simp: M members_def)
    have "chain es' (buckets ht b) (B b) = chain es (buckets ht b) (B b)"
      using same sub by (intro chain_cong) blast
    with B b show "chain es' (buckets ht b) (B b)" "distinct (B b)"
      by (simp_all add: table_rep_def)
    show "\<forall>i \<in> set (B b). bucket_of (es' i) = b"
      using B b same sub bucket_of_key by (metis table_rep_def)
  qed
  with M show ?thesis by (auto simp: table_def)
qed

lemma table_alloc: "table es (alloc_hash_table ht) {}"
  unfolding table_def
  by (rule exI [of _ "\<lambda>_. []"]) (simp add: table_rep_def members_def alloc_hash_table_apply)

lemma table_insert_bucket:
  assumes "table es ht M" and "e \<notin> M" and "e \<noteq> INDEXER_NULL"
    and "\<forall>i \<in> M. entry_key (es i) \<noteq> entry_key (es e)"
    and "insert_bucket ht es (bucket_of (es e)) e = (ht', es')"
  shows "table es' ht' (insert e M)"
proof -
  let ?h = "bucket_of (es e)"
  from assms(1) obtain B where B: "table_rep es ht B" and M: "M = members B"
    by (auto simp: table_def)
  from assms(5) have es': "es' = set_hash_next es e (buckets ht ?h)"
    and ht': "ht' = ht\<lparr>buckets := (buckets ht)(?h := e)\<rparr>"
    by (auto simp: insert_bucket_def Let_def)
  let ?B = "B(?h := e # B ?h)"
  have mem: "members ?B = insert e M"
    using bucket_of_bound [of "es e"] by (auto simp: members_def M split: if_splits)
  have e: "e \<notin> set (B b)" if "b < BUCKETS_NUMBER" for b
    using assms(2) that by (auto simp: M members_def)
  have "table_rep es' ht' ?B"
    unfolding table_rep_def mem
  proof (intro conjI allI impI)
    show "hash_bits ht' = 17" using B by (simp add: ht' table_rep_def)
    show "inj_on (\<lambda>i. entry_key (es' i)) (insert e M)"
      using B assms(4) by (auto simp: M table_rep_def es' inj_on_def)
    fix b assume b: "b < BUCKETS_NUMBER"
    have "chain es' i (B b) = chain es i (B b)" for i
      using e [OF b] by (intro chain_cong) (auto simp: es')
    with B b e [OF b] assms(3) show "chain es' (buckets ht' b) (?B b)" "distinct (?B b)"
      by (auto simp: table_rep_def ht' es')
    show "\<forall>i \<in> set (?B b). bucket_of (es' i) = b"
      using B b by (auto simp: table_rep_def es' bucket_of_def split: if_splits)
  qed
  with mem show ?thesis by (auto simp: table_def)
qed

lemma members_split:
  "h < BUCKETS_NUMBER \<Longrightarrow> members B = set (B h) \<union> (\<Union>b \<in> {b. b < BUCKETS_NUMBER \<and> b \<noteq> h}. set (B b))"
  by (auto simp: members_def)

lemma table_unlink:
  assumes B: "table_rep es ht B" and h: "h < BUCKETS_NUMBER" and Bh: "B h = as @ e # bs"
    and un: "unlink_bucket ht es h e (if as = [] then None else Some (last as)) = (ht', es')"
  shows "table es' ht' (members B - {e})"
proof -
  let ?B = "B(h := as @ bs)"
  have dist: "distinct (as @ e # bs)" using B h Bh by (metis table_rep_def)
  have in_bucket: "bucket_of (es i) = b" if "b < BUCKETS_NUMBER" "i \<in> set (B b)" for i b
    using B that by (auto simp: table_rep_def)
  have other: "i \<notin> set (B b)" if "b < BUCKETS_NUMBER" "b \<noteq> h" "i \<in> set (as @ e # bs)" for i b
    using in_bucket [OF h, of i] in_bucket [OF that(1), of i] Bh that by auto
  let ?R = "\<Union>b \<in> {b. b < BUCKETS_NUMBER \<and> b \<noteq> h}. set (B b)"
  have rest: "e \<notin> ?R" using other [of _ e] by simp
  have "members ?B = set (as @ bs) \<union> ?R" unfolding members_split [OF h] by simp
  moreover have "members B = set (as @ e # bs) \<union> ?R" unfolding members_split [OF h] Bh ..
  ultimately have mem: "members ?B = members B - {e}" using dist rest by auto
  have keys: "entry_key (es' i) = entry_key (es i)" for i
    using un by (auto simp: unlink_bucket_def split: if_splits)
  have bits: "hash_bits ht' = 17"
    using B un by (auto simp: unlink_bucket_def table_rep_def split: if_splits)
  have chain_h: "chain es (buckets ht h) (as @ e # bs)"
    using B h Bh by (metis table_rep_def)
  have "table_rep es' ht' ?B"
    unfolding table_rep_def mem
  proof (intro conjI allI impI)
    show "inj_on (\<lambda>i. entry_key (es' i)) (members B - {e})"
      using B by (auto simp: table_rep_def keys intro: inj_on_subset)
    fix b assume b: "b < BUCKETS_NUMBER"
    show "chain es' (buckets ht' b) (?B b)"
    proof (cases as rule: rev_cases)
      case Nil
      with un chain_h b B show ?thesis
        by (auto simp: unlink_bucket_def table_rep_def)
    next
      case (snoc as' p)
      with un have es': "es' = set_hash_next es p (hash_next (es e))" and ht': "ht' = ht"
        by (auto simp: unlink_bucket_def)
      show ?thesis
      proof (cases "b = h")
        case True
        with chain_bypass [of es "buckets ht h" as' p e bs] chain_h dist snoc show ?thesis
          by (simp add: es' ht')
      next
        case False
        with other [OF b, of p] snoc have "p \<notin> set (B b)" by simp
        then have "chain es' (buckets ht b) (B b) = chain es (buckets ht b) (B b)"
          by (intro chain_cong) (auto simp: es')
        with False B b show ?thesis by (simp add: ht' table_rep_def)
      qed
    qed
    show "distinct (?B b)" using dist B b by (auto simp: table_rep_def)
    show "\<forall>i \<in> set (?B b). bucket_of (es' i) = b"
    proof
      fix i assume "i \<in> set (?B b)"
      then have "i \<in> set (B b)" using Bh by (auto split: if_splits)
      then show "bucket_of (es' i) = b" using in_bucket [OF b] bucket_of_key [OF keys [of i]] by simp
    qed
  qed (rule bits)
  with mem show ?thesis by (auto simp: table_def)
qed

section \<open>What the operations do\<close>

lemma table_unhashed_cong:
  assumes "table es ht M" and "\<And>i. unlinked (es' i) = unlinked (es i)"
  shows "table es' ht M"
  by (rule table_cong [OF assms(1)])
    (use unlinked_fields [OF assms(2)] in \<open>simp add: entry_key_def\<close>)

lemma insert_bucket_unhashed:
  "insert_bucket ht es h e = (ht', es') \<Longrightarrow> unhashed (es' i) = unhashed (es i)"
  by (auto simp: insert_bucket_def Let_def)

lemma unlink_bucket_unhashed:
  "unlink_bucket ht es h e prev = (ht', es') \<Longrightarrow> unhashed (es' i) = unhashed (es i)"
  by (auto simp: unlink_bucket_def split: option.splits)

lemma h_insert_table:
  assumes "table es ht M" and "e \<notin> M" and "e \<noteq> INDEXER_NULL"
    and "\<forall>i \<in> M. entry_key (es i) \<noteq> entry_key (es e)"
    and "h_insert ht es e = (ht', es')"
  shows "table es' ht' (insert e M)" and "unhashed (es' i) = unhashed (es i)"
  using assms table_insert_bucket [OF assms(1-4)]
  by (auto simp: h_insert_def table_bits bucket_of_def intro: insert_bucket_unhashed)

text \<open>The bucket of a key either holds the entry with this key, at one place, or no such entry.\<close>

lemma lookup_bucket_spec:
  assumes B: "table_rep es ht B"
  obtains (hit) e as bs where "B (hash_32 p c 17) = as @ e # bs" "entry_key (es e) = (p, c)" "e \<in> members B"
      "lookup_bucket ht es (hash_32 p c 17) p c = Some (Some e, if as = [] then None else Some (last as))"
  | (miss) prev where "\<forall>i \<in> members B. entry_key (es i) \<noteq> (p, c)"
      "lookup_bucket ht es (hash_32 p c 17) p c = Some (None, prev)"
proof -
  let ?h = "hash_32 p c 17"
  have chain: "chain es (buckets ht ?h) (B ?h)"
    using B hash_32_bound by (simp add: table_rep_def)
  have here: "i \<in> set (B ?h)" if "i \<in> members B" "entry_key (es i) = (p, c)" for i
    using member_bucket [OF B] that by (auto simp: bucket_of_def entry_key_def)
  show ?thesis
  proof (cases "\<exists>i \<in> set (B ?h). entry_key (es i) = (p, c)")
    case True
    then obtain as e bs where split: "B ?h = as @ e # bs" "entry_key (es e) = (p, c)"
        "\<forall>x \<in> set as. entry_key (es x) \<noteq> (p, c)"
      using split_list_first_prop [of "B ?h" "\<lambda>i. entry_key (es i) = (p, c)"] by blast
    moreover from split(1) have "e \<in> members B"
      using hash_32_bound [of p c] by (auto simp: members_def)
    ultimately show ?thesis
      using lookup_from_hit [of es "buckets ht ?h" as e bs p c None] chain
      by (intro hit) (simp_all add: lookup_bucket_def h_head_def)
  next
    case False
    then obtain prev where "lookup_bucket ht es ?h p c = Some (None, prev)"
      using lookup_from_miss [OF chain, of p c None] by (auto simp: lookup_bucket_def h_head_def)
    with False here show ?thesis by (intro miss) blast+
  qed
qed

lemma h_lookup_table:
  assumes "table es ht M"
  obtains ht' es' r where "h_lookup ht es p c = Some ((ht', es'), r)" "table es' ht' M"
    "\<And>i. unhashed (es' i) = unhashed (es i)"
    "case r of None \<Rightarrow> \<forall>i \<in> M. entry_key (es i) \<noteq> (p, c) | Some e \<Rightarrow> e \<in> M \<and> entry_key (es e) = (p, c)"
proof -
  let ?h = "hash_32 p c 17"
  from assms obtain B where B: "table_rep es ht B" and M: "members B = M"
    by (auto simp: table_def)
  have bits: "hash_bits ht = 17" using assms by (rule table_bits)
  from B show ?thesis
  proof (cases rule: lookup_bucket_spec [of es ht B p c])
    case (miss prev)
    with assms M show ?thesis by (intro that) (auto simp: h_lookup_def bits)
  next
    case (hit e as bs)
    show ?thesis
    proof (cases "as = []")
      case True
      with hit assms M show ?thesis by (intro that) (auto simp: h_lookup_def bits)
    next
      case False
      obtain ht1 es1 where un: "unlink_bucket ht es ?h e (Some (last as)) = (ht1, es1)" by fastforce
      obtain ht2 es2 where ins: "insert_bucket ht1 es1 ?h e = (ht2, es2)" by fastforce
      have t1: "table es1 ht1 (M - {e})"
        using table_unlink [OF B hash_32_bound hit(1)] un False M by simp
      have same: "unhashed (es1 i) = unhashed (es i)" for i
        by (rule unlink_bucket_unhashed [OF un])
      then have key: "entry_key (es1 i) = entry_key (es i)" for i
        by (rule unhashed_fields)
      have "inj_on (\<lambda>i. entry_key (es i)) M" using assms by (rule table_inj)
      then have fresh: "\<forall>i \<in> M - {e}. entry_key (es1 i) \<noteq> entry_key (es1 e)"
        using hit(3) M by (auto simp: key dest: inj_onD)
      have h: "bucket_of (es1 e) = ?h"
        using key [of e] hit(2) by (simp add: bucket_of_def entry_key_def)
      have "e \<noteq> INDEXER_NULL" using table_not_null [OF assms] hit(3) M by auto
      from table_insert_bucket [OF t1 _ this fresh] ins h hit(3) M
      have "table es2 ht2 M" by (simp add: insert_absorb)
      moreover have "unhashed (es2 i) = unhashed (es i)" for i
        using insert_bucket_unhashed [OF ins] same by simp
      moreover have "h_lookup ht es p c = Some ((ht2, es2), Some e)"
          using hit(4) False un ins by (simp add: h_lookup_def bits)
      ultimately show ?thesis using hit(2,3) M by (intro that [of ht2 es2 "Some e"]) auto
    qed
  qed
qed

lemma h_remove_table:
  assumes "table es ht M" and "e \<in> M"
  obtains ht' es' where "h_remove ht es e = Some (ht', es')" "table es' ht' (M - {e})"
    "\<And>i. unhashed (es' i) = unhashed (es i)"
proof -
  from assms(1) obtain B where B: "table_rep es ht B" and M: "members B = M"
    by (auto simp: table_def)
  have bits: "hash_bits ht = 17" using assms(1) by (rule table_bits)
  let ?p = "full_path_name (es e)" and ?c = "cache_page_index (es e)"
  have key: "entry_key (es e) = (?p, ?c)" by (simp add: entry_key_def)
  from B show ?thesis
  proof (cases rule: lookup_bucket_spec [of es ht B ?p ?c])
    case (miss prev)
    with assms(2) M key show ?thesis by blast
  next
    case (hit i as bs)
    then have "i = e" using inj_onD [OF table_inj [OF assms(1)], of i e] assms(2) M key by simp
    moreover obtain ht' es' where un: "unlink_bucket ht es (hash_32 ?p ?c 17) e
        (if as = [] then None else Some (last as)) = (ht', es')" by fastforce
    ultimately show ?thesis
      using hit table_unlink [OF B hash_32_bound, of ?p ?c as e bs] M unlink_bucket_unhashed [OF un]
      by (intro that [of ht' es']) (simp_all add: h_remove_def bits Let_def)
  qed
qed

section \<open>The interface: a table of entries with distinct keys\<close>

text \<open>
  What the mapping relies on. \<open>tab s t M\<close> says that the table \<open>t\<close> over the store \<open>s\<close> holds the
  elements \<open>M\<close>; \<open>same\<close> relates stores that differ in the table's own links only. A lookup may
  rearrange the table, so it returns a new store and table.
\<close>

locale keyed_table =
  fixes tab :: "'s \<Rightarrow> 't \<Rightarrow> 'i set \<Rightarrow> bool"
    and key :: "'s \<Rightarrow> 'i \<Rightarrow> 'k"
    and same :: "'s \<Rightarrow> 's \<Rightarrow> bool"
    and valid :: "'i \<Rightarrow> bool"
    and lookup :: "'t \<Rightarrow> 's \<Rightarrow> 'k \<Rightarrow> (('t \<times> 's) \<times> 'i option) option"
    and insert_in :: "'t \<Rightarrow> 's \<Rightarrow> 'i \<Rightarrow> 't \<times> 's"
    and remove_from :: "'t \<Rightarrow> 's \<Rightarrow> 'i \<Rightarrow> ('t \<times> 's) option"
  assumes same_key: "same s s' \<Longrightarrow> key s' i = key s i"
    and tab_inj: "tab s t M \<Longrightarrow> inj_on (key s) M"
    and lookup_law: "tab s t M \<Longrightarrow> \<exists>t' s' r. lookup t s k = Some ((t', s'), r) \<and> tab s' t' M \<and> same s s'
      \<and> (case r of None \<Rightarrow> \<forall>i \<in> M. key s i \<noteq> k | Some e \<Rightarrow> e \<in> M \<and> key s e = k)"
    and insert_law: "tab s t M \<Longrightarrow> e \<notin> M \<Longrightarrow> valid e \<Longrightarrow> \<forall>i \<in> M. key s i \<noteq> key s e \<Longrightarrow>
      insert_in t s e = (t', s') \<Longrightarrow> tab s' t' (insert e M) \<and> same s s'"
    and remove_law: "tab s t M \<Longrightarrow> e \<in> M \<Longrightarrow>
      \<exists>t' s'. remove_from t s e = Some (t', s') \<and> tab s' t' (M - {e}) \<and> same s s'"
begin

lemma lookup_hit:
  assumes "tab s t M" and "e \<in> M" and "key s e = k"
  shows "\<exists>t' s'. lookup t s k = Some ((t', s'), Some e) \<and> tab s' t' M \<and> same s s'"
proof -
  obtain t' s' r where r: "lookup t s k = Some ((t', s'), r)" "tab s' t' M" "same s s'"
    "case r of None \<Rightarrow> \<forall>i \<in> M. key s i \<noteq> k | Some e \<Rightarrow> e \<in> M \<and> key s e = k"
    using lookup_law [OF assms(1)] by blast
  with assms(2,3) inj_onD [OF tab_inj [OF assms(1)]] have "r = Some e"
    by (auto split: option.splits)
  with r show ?thesis by blast
qed

lemma lookup_miss:
  assumes "tab s t M" and "\<forall>i \<in> M. key s i \<noteq> k"
  shows "\<exists>t' s'. lookup t s k = Some ((t', s'), None) \<and> tab s' t' M \<and> same s s'"
  using lookup_law [OF assms(1), of k] assms(2) by (auto split: option.splits)

lemma lookup_inserted:
  assumes "tab s t M" and "e \<notin> M" and "valid e" and "\<forall>i \<in> M. key s i \<noteq> key s e"
    and "insert_in t s e = (t', s')"
  shows "\<exists>u v. lookup t' s' (key s e) = Some ((u, v), Some e)"
    and "\<lbrakk>i \<in> M; key s i = k\<rbrakk> \<Longrightarrow> \<exists>u v. lookup t' s' k = Some ((u, v), Some i)"
proof -
  have t: "tab s' t' (insert e M)" and same: "same s s'"
    using insert_law [OF assms] by blast+
  show "\<exists>u v. lookup t' s' (key s e) = Some ((u, v), Some e)"
    using lookup_hit [OF t, of e] same_key [OF same] by blast
  show "\<exists>u v. lookup t' s' k = Some ((u, v), Some i)" if "i \<in> M" "key s i = k"
    using lookup_hit [OF t, of i] same_key [OF same] that by blast
qed

lemma lookup_removed:
  assumes "tab s t M" and "e \<in> M"
  shows "\<exists>t' s'. remove_from t s e = Some (t', s')
    \<and> (\<exists>u v. lookup t' s' (key s e) = Some ((u, v), None))
    \<and> (\<forall>i \<in> M - {e}. \<exists>u v. lookup t' s' (key s i) = Some ((u, v), Some i))"
proof -
  obtain t' s' where rem: "remove_from t s e = Some (t', s')" and t: "tab s' t' (M - {e})"
    and same: "same s s'"
    using remove_law [OF assms] by blast
  have "\<forall>i \<in> M - {e}. key s' i \<noteq> key s e"
    using inj_onD [OF tab_inj [OF assms(1)]] assms(2) same_key [OF same] by auto
  from lookup_miss [OF t this] have "\<exists>u v. lookup t' s' (key s e) = Some ((u, v), None)" by blast
  moreover have "\<forall>i \<in> M - {e}. \<exists>u v. lookup t' s' (key s i) = Some ((u, v), Some i)"
    using lookup_hit [OF t] same_key [OF same] by blast
  ultimately show ?thesis using rem by blast
qed

end

definition h_lookup_key :: "hash_table \<Rightarrow> entrys \<Rightarrow> key \<Rightarrow> ((hash_table \<times> entrys) \<times> u32 option) option" where
  "h_lookup_key ht es k = h_lookup ht es (fst k) (snd k)"

interpretation ht: keyed_table table "\<lambda>(es :: entrys) i. entry_key (es i)"
  "\<lambda>es es'. \<forall>i. unhashed (es' i) = unhashed (es i)" "\<lambda>e. e \<noteq> INDEXER_NULL"
  h_lookup_key h_insert h_remove
proof unfold_locales
  fix es es' :: entrys and ht ht' M k e i
  show "entry_key (es' i) = entry_key (es i)" if "\<forall>i. unhashed (es' i) = unhashed (es i)"
    using that by (auto intro: unhashed_fields)
  assume t: "table es ht M"
  then show "inj_on (\<lambda>i. entry_key (es i)) M" by (rule table_inj)
  from t show "\<exists>t' s' r. h_lookup_key ht es k = Some ((t', s'), r) \<and> table s' t' M
      \<and> (\<forall>i. unhashed (s' i) = unhashed (es i))
      \<and> (case r of None \<Rightarrow> \<forall>i \<in> M. entry_key (es i) \<noteq> k | Some e \<Rightarrow> e \<in> M \<and> entry_key (es e) = k)"
    unfolding h_lookup_key_def
    by (rule h_lookup_table [of es ht M "fst k" "snd k"]) (simp only: prod.collapse, blast)
  show "table es' ht' (insert e M) \<and> (\<forall>i. unhashed (es' i) = unhashed (es i))"
    if "e \<notin> M" "e \<noteq> INDEXER_NULL" "\<forall>i \<in> M. entry_key (es i) \<noteq> entry_key (es e)"
      "h_insert ht es e = (ht', es')"
    using h_insert_table [OF t that] by blast
  show "\<exists>t' s'. h_remove ht es e = Some (t', s') \<and> table s' t' (M - {e})
      \<and> (\<forall>i. unhashed (s' i) = unhashed (es i))" if "e \<in> M"
    by (rule h_remove_table [OF t that]) blast
qed

section \<open>Properties\<close>

text \<open>
  The hash of every path and index is an index of the bucket array, with the number of bits
  that \<open>alloc_hash_table\<close> computes; the table it initialises answers every lookup with NULL.
\<close>

theorem fresh_table_is_empty:
  "hash_32 p c (hash_bits (alloc_hash_table ht)) < BUCKETS_NUMBER
   \<and> (\<exists>ht' es'. h_lookup (alloc_hash_table ht) es p c = Some ((ht', es'), None))"
  using ht.lookup_miss [OF table_alloc, of es "(p, c)" ht] hash_32_bound
  by (auto simp: alloc_hash_table_apply h_lookup_key_def)

text \<open>
  C27. \<open>h_insert\<close> of an entry whose key is not in the table: looking up its key then returns it,
  every entry that was found before is found under its key as before, and after \<open>h_remove\<close> of the
  new entry its key is not found and the others still are. All these calls return.
\<close>

theorem hash_table_is_map:
  assumes "table es ht M" and "e \<notin> M" and "e \<noteq> INDEXER_NULL"
    and "\<forall>i \<in> M. entry_key (es i) \<noteq> entry_key (es e)"
    and "h_insert ht es e = (ht', es')"
  shows "(\<exists>r. h_lookup ht' es' (full_path_name (es e)) (cache_page_index (es e)) = Some (r, Some e))
    \<and> (\<forall>i \<in> M. \<exists>r. h_lookup ht' es' (full_path_name (es i)) (cache_page_index (es i)) = Some (r, Some i))
    \<and> (\<exists>ht2 es2. h_remove ht' es' e = Some (ht2, es2)
         \<and> (\<exists>r. h_lookup ht2 es2 (full_path_name (es e)) (cache_page_index (es e)) = Some (r, None))
         \<and> (\<forall>i \<in> M. \<exists>r. h_lookup ht2 es2 (full_path_name (es i)) (cache_page_index (es i)) = Some (r, Some i)))"
proof -
  have key: "(full_path_name (es i), cache_page_index (es i)) = entry_key (es i)" for i
    by (simp add: entry_key_def)
  have look: "h_lookup t s (full_path_name (es i)) (cache_page_index (es i)) = h_lookup_key t s (entry_key (es i))"
    for t s i by (simp add: h_lookup_key_def entry_key_def)
  have t': "table es' ht' (insert e M)" and same: "entry_key (es' i) = entry_key (es i)" for i
    using ht.insert_law [OF assms] by (auto intro: unhashed_fields)
  have "insert e M - {e} = M" using assms(2) by simp
  with ht.lookup_removed [OF t', of e]
  have "\<exists>ht2 es2. h_remove ht' es' e = Some (ht2, es2)
      \<and> (\<exists>r. h_lookup_key ht2 es2 (entry_key (es e)) = Some (r, None))
      \<and> (\<forall>i \<in> M. \<exists>r. h_lookup_key ht2 es2 (entry_key (es i)) = Some (r, Some i))"
    by (simp add: same)
  then show ?thesis
    using ht.lookup_inserted [OF assms] unfolding look by blast
qed

definition two_entries :: entrys where
  "two_entries i = \<lparr>hash_next = INDEXER_NULL, e_prev = INDEXER_NULL, e_next = INDEXER_NULL, param = 0,
     full_path_name = (if i = 0 then ''a'' else ''b''), cache_page_index = 5\<rparr>"

definition one_member :: "hash_table \<times> entrys" where
  "one_member = h_insert (alloc_hash_table \<lparr>hash_bits = 0, buckets = \<lambda>_. 0\<rparr>) two_entries 0"

lemma two_entries_key: "entry_key (two_entries i) = (if i = 0 then ''a'' else ''b'', 5)"
  by (simp add: two_entries_def entry_key_def)

lemma one_member_table:
  "table (snd one_member) (fst one_member) {0}" "entry_key (snd one_member i) = entry_key (two_entries i)"
  using ht.insert_law [where e = 0 and t' = "fst one_member" and s' = "snd one_member", OF table_alloc]
  by (auto simp: one_member_def INDEXER_NULL_def push_bit_eq_mult intro: unhashed_fields)

theorem hash_table_is_map_witness:
  "\<exists>ht' es' r. h_insert (fst one_member) (snd one_member) 1 = (ht', es')
     \<and> h_lookup ht' es' ''b'' 5 = Some (r, Some 1)"
proof -
  let ?es = "snd one_member"
  obtain ht' es' where ins: "h_insert (fst one_member) ?es 1 = (ht', es')" by fastforce
  have "full_path_name (?es 1) = ''b''" "cache_page_index (?es 1) = 5"
    using one_member_table(2) [of 1] two_entries_key [of 1] by (simp_all add: entry_key_def)
  moreover have "\<forall>i \<in> {0}. entry_key (?es i) \<noteq> entry_key (?es 1)"
    by (simp add: one_member_table(2) two_entries_key)
  moreover have "(1 :: u32) \<noteq> INDEXER_NULL" by (simp add: INDEXER_NULL_def push_bit_eq_mult)
  ultimately show ?thesis
    using hash_table_is_map [OF one_member_table(1) _ _ _ ins] ins by auto
qed

end
