(* ===== verification/Allocator.thy ===== *)
theory Allocator
  imports HashTable
begin

text \<open>
  The flags of an entry and the allocator of entries, from
  \<^verbatim>\<open>dm-cache/lib/ssd_cache_mapping.c\<close>. The free entries are a list like the clean and the dirty
  one; an entry is taken from its head and given back at its tail.
\<close>

section \<open>Entry flags\<close>

unbundle bit_operations_syntax

definition upd :: "entrys \<Rightarrow> u32 \<Rightarrow> (entry \<Rightarrow> entry) \<Rightarrow> entrys" where
  "upd es i f = es(i := f (es i))"

definition init_entry :: "entry \<Rightarrow> entry" where
  "init_entry e = e\<lparr>hash_next := INDEXER_NULL, e_prev := INDEXER_NULL, e_next := INDEXER_NULL,
     param := 0, full_path_name := [], cache_page_index := INDEXER_NULL\<rparr>"

definition entry_set_pending :: "bool \<Rightarrow> entry \<Rightarrow> entry" where
  "entry_set_pending pending e =
     (if pending then e\<lparr>param := param e OR 1\<rparr> else e\<lparr>param := param e AND NOT 1\<rparr>)"

definition entry_get_pending :: "entrys \<Rightarrow> u32 option \<Rightarrow> bool" where
  "entry_get_pending es p = (case p of None \<Rightarrow> False | Some i \<Rightarrow> param (es i) AND 1 \<noteq> 0)"

definition entry_set_dirty :: "bool \<Rightarrow> entry \<Rightarrow> entry" where
  "entry_set_dirty dirty e =
     (if dirty then e\<lparr>param := param e OR push_bit 1 1\<rparr> else e\<lparr>param := param e AND NOT (push_bit 1 1)\<rparr>)"

definition entry_get_dirty :: "entrys \<Rightarrow> u32 option \<Rightarrow> bool" where
  "entry_get_dirty es p = (case p of None \<Rightarrow> False | Some i \<Rightarrow> param (es i) AND push_bit 1 1 \<noteq> 0)"

definition entry_set_alloc :: "bool \<Rightarrow> entry \<Rightarrow> entry" where
  "entry_set_alloc alloc e =
     (if alloc then e\<lparr>param := param e OR push_bit 2 1\<rparr> else e\<lparr>param := param e AND NOT (push_bit 2 1)\<rparr>)"

definition entry_get_alloc :: "entrys \<Rightarrow> u32 option \<Rightarrow> bool" where
  "entry_get_alloc es p = (case p of None \<Rightarrow> False | Some i \<Rightarrow> param (es i) AND push_bit 2 1 \<noteq> 0)"

text \<open>The three flags as bits of \<open>param\<close>, and what each operation does to each of them.\<close>

definition pending :: "entry \<Rightarrow> bool" where "pending e \<longleftrightarrow> bit (param e) 0"
definition dirty_bit :: "entry \<Rightarrow> bool" where "dirty_bit e \<longleftrightarrow> bit (param e) 1"
definition allocated :: "entry \<Rightarrow> bool" where "allocated e \<longleftrightarrow> bit (param e) 2"

lemma and_push_bit: "(w :: 'a::len word) AND push_bit n 1 \<noteq> 0 \<longleftrightarrow> bit w n"
  by (simp add: push_bit_eq_mult and_exp_eq_0_iff_not_bit)

lemma get_flags [simp]:
  "entry_get_pending es (Some i) \<longleftrightarrow> pending (es i)"
  "entry_get_dirty es (Some i) \<longleftrightarrow> dirty_bit (es i)"
  "entry_get_alloc es (Some i) \<longleftrightarrow> allocated (es i)"
  "\<not> entry_get_pending es None" "\<not> entry_get_dirty es None" "\<not> entry_get_alloc es None"
  using and_push_bit [of "param (es i)" 0] and_push_bit [of "param (es i)" 1]
    and_push_bit [of "param (es i)" 2]
  by (simp_all add: entry_get_pending_def entry_get_dirty_def entry_get_alloc_def
      pending_def dirty_bit_def allocated_def del: push_bit_of_1)

lemma set_flags [simp]:
  "pending (entry_set_pending b e) \<longleftrightarrow> b" "dirty_bit (entry_set_pending b e) \<longleftrightarrow> dirty_bit e"
  "allocated (entry_set_pending b e) \<longleftrightarrow> allocated e"
  "pending (entry_set_dirty b e) \<longleftrightarrow> pending e" "dirty_bit (entry_set_dirty b e) \<longleftrightarrow> b"
  "allocated (entry_set_dirty b e) \<longleftrightarrow> allocated e"
  "pending (entry_set_alloc b e) \<longleftrightarrow> pending e" "dirty_bit (entry_set_alloc b e) \<longleftrightarrow> dirty_bit e"
  "allocated (entry_set_alloc b e) \<longleftrightarrow> b"
  by (auto simp: entry_set_pending_def entry_set_dirty_def entry_set_alloc_def pending_def
      dirty_bit_def allocated_def bit_simps)

lemma init_entry_flags [simp]:
  "\<not> pending (init_entry e)" "\<not> dirty_bit (init_entry e)" "\<not> allocated (init_entry e)"
  by (simp_all add: init_entry_def pending_def dirty_bit_def allocated_def)

lemma set_flags_fields [simp]:
  "e_prev (entry_set_pending b e) = e_prev e"
  "e_next (entry_set_pending b e) = e_next e"
  "hash_next (entry_set_pending b e) = hash_next e"
  "full_path_name (entry_set_pending b e) = full_path_name e"
  "cache_page_index (entry_set_pending b e) = cache_page_index e"
  "entry_key (entry_set_pending b e) = entry_key e"
  "e_prev (entry_set_dirty b e) = e_prev e"
  "e_next (entry_set_dirty b e) = e_next e"
  "hash_next (entry_set_dirty b e) = hash_next e"
  "full_path_name (entry_set_dirty b e) = full_path_name e"
  "cache_page_index (entry_set_dirty b e) = cache_page_index e"
  "entry_key (entry_set_dirty b e) = entry_key e"
  "e_prev (entry_set_alloc b e) = e_prev e"
  "e_next (entry_set_alloc b e) = e_next e"
  "hash_next (entry_set_alloc b e) = hash_next e"
  "full_path_name (entry_set_alloc b e) = full_path_name e"
  "cache_page_index (entry_set_alloc b e) = cache_page_index e"
  "entry_key (entry_set_alloc b e) = entry_key e"
  by (simp_all add: entry_set_pending_def entry_set_dirty_def entry_set_alloc_def entry_key_def)

lemma flags_cong:
  assumes "param a = param b"
  shows "pending a = pending b" and "dirty_bit a = dirty_bit b" and "allocated a = allocated b"
  using assms by (simp_all add: pending_def dirty_bit_def allocated_def)

lemma upd_apply: "upd es i f j = (if j = i then f (es i) else es j)"
  by (simp add: upd_def)

lemma upd_same [simp]: "upd es i f i = f (es i)"
  by (simp add: upd_def)

lemma upd_other [simp]: "j \<noteq> i \<Longrightarrow> upd es i f j = es j"
  by (simp add: upd_def)

section \<open>Lists and tables under updates of an entry\<close>

text \<open>
  A list sees only the links of its elements, a table only the keys and chain links of its
  members.
\<close>

lemma ilist_rep_upd:
  "(\<forall>x. e_prev (f x) = e_prev x \<and> e_next (f x) = e_next x) \<or> i \<notin> set xs \<Longrightarrow>
    ilist_rep (upd es i f) l xs = ilist_rep es l xs"
  by (rule ilist_rep_cong) (auto simp: upd_apply)

lemma ilist_rep_flags [simp]:
  "ilist_rep (upd es i (entry_set_pending b)) l xs = ilist_rep es l xs"
  "ilist_rep (upd es i (entry_set_dirty b)) l xs = ilist_rep es l xs"
  "ilist_rep (upd es i (entry_set_alloc b)) l xs = ilist_rep es l xs"
  by (simp_all add: ilist_rep_upd)

lemma ilist_rep_unhashed:
  "(\<And>i. unhashed (es' i) = unhashed (es i)) \<Longrightarrow> ilist_rep es' l xs = ilist_rep es l xs"
  by (rule ilist_rep_cong) (metis unhashed_fields(1,2))

lemma table_upd:
  assumes "(\<forall>x. hash_next (f x) = hash_next x \<and> entry_key (f x) = entry_key x) \<or> i \<notin> M"
    and "table es ht M"
  shows "table (upd es i f) ht M"
  by (rule table_cong [OF assms(2)]) (use assms(1) in \<open>auto simp: upd_apply\<close>)

lemma table_flags:
  "table es ht M \<Longrightarrow> table (upd es i (entry_set_pending b)) ht M"
  "table es ht M \<Longrightarrow> table (upd es i (entry_set_dirty b)) ht M"
  "table es ht M \<Longrightarrow> table (upd es i (entry_set_alloc b)) ht M"
  by (rule table_upd; simp)+

section \<open>The allocator\<close>

record entry_alloc =
  ea_begin :: u32
  nr_allocated :: u32
  ea_free :: ilist

function add_range :: "entrys \<Rightarrow> ilist \<Rightarrow> u32 \<Rightarrow> u32 \<Rightarrow> entrys \<times> ilist" where
  "add_range es l i end =
     (if i \<noteq> end then case l_add_tail es l i of (es, l) \<Rightarrow> add_range es l (i + 1) end else (es, l))"
  by pat_completeness auto
termination
proof (relation "measure (\<lambda>(es, l, i, e). unat (e - i))", goal_cases)
  case (2 es l i e es' l')
  then have "e - i \<noteq> 0" by simp
  then have "unat (e - i - 1) < unat (e - i)"
    by (simp add: unat_minus_one unat_gt_0)
  then show ?case by (simp add: algebra_simps)
qed simp

declare add_range.simps [simp del]

definition init_allocator :: "entry_alloc \<Rightarrow> entrys \<Rightarrow> u32 \<Rightarrow> u32 \<Rightarrow> entry_alloc \<times> entrys" where
  "init_allocator ea es begin end =
     (let ea = ea\<lparr>nr_allocated := 0\<rparr>;
          ea = ea\<lparr>ea_begin := begin\<rparr>;
          ea = ea\<lparr>ea_free := l_init (ea_free ea)\<rparr>;
          (es, l) = add_range es (ea_free ea) begin end
      in (ea\<lparr>ea_free := l\<rparr>, es))"

definition alloc_entry :: "entry_alloc \<Rightarrow> entrys \<Rightarrow> ((entry_alloc \<times> entrys) \<times> u32 option) option" where
  "alloc_entry ea es =
     (if l_empty (ea_free ea) then Some ((ea, es), None)
      else case l_pop_head es (ea_free ea) of ((es, l), popped) \<Rightarrow> do {
        let ea = ea\<lparr>ea_free := l\<rparr>;
        e \<leftarrow> popped;
        let es = upd es e init_entry;
        let es = upd es e (entry_set_alloc True);
        let ea = ea\<lparr>nr_allocated := nr_allocated ea + 1\<rparr>;
        Some ((ea, es), Some e) })"

definition free_entry :: "entry_alloc \<Rightarrow> entrys \<Rightarrow> u32 \<Rightarrow> entry_alloc \<times> entrys" where
  "free_entry ea es e =
     (let ea = ea\<lparr>nr_allocated := nr_allocated ea - 1\<rparr>;
          es = upd es e (entry_set_alloc False);
          (es, l) = l_add_tail es (ea_free ea) e
      in (ea\<lparr>ea_free := l\<rparr>, es))"

definition allocator_empty :: "entry_alloc \<Rightarrow> bool" where
  "allocator_empty ea \<longleftrightarrow> l_empty (ea_free ea)"

definition get_index :: "entry_alloc \<Rightarrow> u32 \<Rightarrow> u32" where
  "get_index ea e = e - ea_begin ea"

section \<open>What the allocator does\<close>

definition range_u32 :: "u32 \<Rightarrow> u32 \<Rightarrow> u32 list" where
  "range_u32 i e = map of_nat [unat i..<unat e]"

lemma range_u32_empty [simp]: "range_u32 e e = []"
  by (simp add: range_u32_def)

lemma range_u32_Cons: "i < e \<Longrightarrow> range_u32 i e = i # range_u32 (i + 1) e"
  by (simp add: range_u32_def upt_rec [of "unat i"] word_less_nat_alt unat_Suc_less [of i e])

lemma set_range_u32: "set (range_u32 i e) = {x. i \<le> x \<and> x < e}"
proof (intro set_eqI iffI)
  fix x assume "x \<in> set (range_u32 i e)"
  then obtain n where n: "x = of_nat n" "unat i \<le> n" "n < unat e" by (auto simp: range_u32_def)
  then have "unat x = n" using unsigned_less [of e, where 'a = nat]
    by (auto intro: unat_of_nat_u32)
  with n show "x \<in> {x. i \<le> x \<and> x < e}" by (simp add: word_less_nat_alt word_le_nat_alt)
next
  fix x assume "x \<in> {x. i \<le> x \<and> x < e}"
  then show "x \<in> set (range_u32 i e)"
    by (auto simp: range_u32_def word_less_nat_alt word_le_nat_alt intro!: image_eqI [of x _ "unat x"])
qed

lemma length_range_u32 [simp]: "length (range_u32 i e) = unat e - unat i"
  by (simp add: range_u32_def)

lemma small_not_null: "i < CACHE_BLOCK_NUMBER \<Longrightarrow> i \<noteq> INDEXER_NULL"
  by (auto simp: CACHE_BLOCK_NUMBER_eq INDEXER_NULL_def push_bit_eq_mult)

lemma add_range_rep:
  assumes "ilist_rep es l xs" and "i \<le> e" and "e \<le> CACHE_BLOCK_NUMBER" and "\<forall>x \<in> set xs. x < i"
    and "add_range es l i e = (es', l')"
  shows "ilist_rep es' l' (xs @ range_u32 i e) \<and> (\<forall>j. unlinked (es' j) = unlinked (es j))"
  using assms
proof (induction es l i e arbitrary: xs rule: add_range.induct)
  case (1 es l i e)
  show ?case
  proof (cases "i = e")
    case True
    with "1.prems" show ?thesis by (simp add: add_range.simps)
  next
    case False
    with "1.prems"(2) have less: "i < e" by simp
    obtain es1 l1 where add: "l_add_tail es l i = (es1, l1)" by fastforce
    have "i \<noteq> INDEXER_NULL" using less "1.prems"(3) small_not_null [of i] by simp
    moreover have "i \<notin> set xs" using "1.prems"(4) by auto
    ultimately have rep: "ilist_rep es1 l1 (xs @ [i])"
      using il.add_tail_law [OF "1.prems"(1) _ _ add] by simp
    have next_le: "i + 1 \<le> e" "x \<le> i \<Longrightarrow> x < i + 1" for x
      using less unat_Suc_less [OF less] by (simp_all add: word_less_nat_alt word_le_nat_alt)
    have rest: "add_range es1 l1 (i + 1) e = (es', l')"
      using "1.prems"(5) False add by (simp add: add_range.simps [of es])
    have "\<forall>x \<in> set (xs @ [i]). x < i + 1"
      using "1.prems"(4) next_le(2) by (auto intro: order.strict_implies_order)
    from "1.IH" [OF False add [symmetric] rep next_le(1) "1.prems"(3) this rest]
    show ?thesis
      using l_add_tail_unlinked [of es l i] add by (simp add: range_u32_Cons [OF less])
  qed
qed

lemma init_allocator_rep:
  assumes "e \<le> CACHE_BLOCK_NUMBER" and "init_allocator ea es 0 e = (ea', es')"
  shows "ilist_rep es' (ea_free ea') (range_u32 0 e)" and "ea_begin ea' = 0" and "nr_allocated ea' = 0"
    and "unlinked (es' j) = unlinked (es j)"
proof -
  obtain es1 l1 where add: "add_range es (l_init (ea_free ea)) 0 e = (es1, l1)" by fastforce
  with add_range_rep [OF l_init_rep _ assms(1) _ add] assms(2)
  show "ilist_rep es' (ea_free ea') (range_u32 0 e)" "ea_begin ea' = 0" "nr_allocated ea' = 0"
    "unlinked (es' j) = unlinked (es j)"
    by (auto simp: init_allocator_def)
qed

lemma allocator_empty_rep: "ilist_rep es (ea_free ea) F \<Longrightarrow> allocator_empty ea \<longleftrightarrow> F = []"
  by (simp add: allocator_empty_def l_empty_iff)

lemma alloc_entry_rep:
  "ilist_rep es (ea_free ea) (e # F) \<Longrightarrow> l_del es (ea_free ea) e = (es1, l1) \<Longrightarrow>
    alloc_entry ea es =
      Some ((ea\<lparr>nr_allocated := nr_allocated ea + 1, ea_free := l1\<rparr>,
             upd es1 e (\<lambda>x. entry_set_alloc True (init_entry x))), Some e)"
  by (simp add: alloc_entry_def l_empty_iff l_pop_head_rep upd_def)

end
