(* ===== verification/CacheMapping.thy ===== *)
theory CacheMapping
  imports Allocator WorkQueue
begin

text \<open>
  The cache mapping of \<^verbatim>\<open>dm-cache/lib/ssd_cache_mapping.c\<close>: which cache page of which file is in
  which cache block, which blocks are free, clean or dirty, and the transitions between these
  states. Promotion, demotion and writeback are split into a start and a completion, each under
  the mapping lock, with the data transfer between them outside the lock; an entry in between is
  pending and in none of the three lists.

  This theory holds the definitions. What the operations promise is in \<^verbatim>\<open>CacheView\<close>; that they return on
  every well-formed, unlocked mapping, keep the promise and give the lock back is proved in \<^verbatim>\<open>MappingOps\<close>
  and \<^verbatim>\<open>MappingUse\<close>.
\<close>

section \<open>State\<close>

record entry_space =
  entrys :: entrys
  es_begin :: u32
  es_end :: u32

record mapping =
  block_size :: u32
  cache_block_num :: u32
  block_per_cblock_shift :: u32
  block_per_page_shift :: u32
  es :: entry_space
  ea :: entry_alloc
  clean :: ilist
  dirty :: ilist
  htable :: hash_table
  mapping_lock :: spinlock
  hit_time :: u32
  miss_time :: u32
  promotion_time :: u32
  demotion_time :: u32
  writeback_time :: u32
  wq :: work_queue

abbreviation ents :: "mapping \<Rightarrow> entrys" where
  "ents m \<equiv> entrys (es m)"

abbreviation set_ents :: "entrys \<Rightarrow> mapping \<Rightarrow> mapping" where
  "set_ents f m \<equiv> m\<lparr>es := (es m)\<lparr>entrys := f\<rparr>\<rparr>"

section \<open>Operations\<close>

definition lock_mapping :: "mapping \<Rightarrow> mapping option" where
  "lock_mapping m = do { l \<leftarrow> spinlock_lock (mapping_lock m); Some (m\<lparr>mapping_lock := l\<rparr>) }"

definition unlock_mapping :: "mapping \<Rightarrow> mapping" where
  "unlock_mapping m = m\<lparr>mapping_lock := spinlock_unlock (mapping_lock m)\<rparr>"

definition infer_cblock :: "mapping \<Rightarrow> u32 \<Rightarrow> u32" where
  "infer_cblock m e = get_index (ea m) e"

definition upd_entry :: "(entry \<Rightarrow> entry) \<Rightarrow> u32 \<Rightarrow> mapping \<Rightarrow> mapping" where
  "upd_entry f e m = set_ents (upd (ents m) e f) m"

text \<open>The list operations on \<open>entry_get_dirty (e) ? &mapping->dirty : &mapping->clean\<close>.\<close>

definition queue_add_tail :: "u32 \<Rightarrow> mapping \<Rightarrow> mapping" where
  "queue_add_tail e m =
     (if entry_get_dirty (ents m) (Some e)
      then case l_add_tail (ents m) (dirty m) e of (s, l) \<Rightarrow> set_ents s (m\<lparr>dirty := l\<rparr>)
      else case l_add_tail (ents m) (clean m) e of (s, l) \<Rightarrow> set_ents s (m\<lparr>clean := l\<rparr>))"

definition queue_add_head :: "u32 \<Rightarrow> mapping \<Rightarrow> mapping" where
  "queue_add_head e m =
     (if entry_get_dirty (ents m) (Some e)
      then case l_add_head (ents m) (dirty m) e of (s, l) \<Rightarrow> set_ents s (m\<lparr>dirty := l\<rparr>)
      else case l_add_head (ents m) (clean m) e of (s, l) \<Rightarrow> set_ents s (m\<lparr>clean := l\<rparr>))"

definition queue_del :: "u32 \<Rightarrow> mapping \<Rightarrow> mapping" where
  "queue_del e m =
     (if entry_get_dirty (ents m) (Some e)
      then case l_del (ents m) (dirty m) e of (s, l) \<Rightarrow> set_ents s (m\<lparr>dirty := l\<rparr>)
      else case l_del (ents m) (clean m) e of (s, l) \<Rightarrow> set_ents s (m\<lparr>clean := l\<rparr>))"

definition release_entry :: "u32 \<Rightarrow> mapping \<Rightarrow> mapping" where
  "release_entry e m = (case free_entry (ea m) (ents m) e of (a, s) \<Rightarrow> set_ents s (m\<lparr>ea := a\<rparr>))"

definition hash_insert :: "u32 \<Rightarrow> mapping \<Rightarrow> mapping" where
  "hash_insert e m = (case h_insert (htable m) (ents m) e of (t, s) \<Rightarrow> set_ents s (m\<lparr>htable := t\<rparr>))"

definition hash_remove :: "u32 \<Rightarrow> mapping \<Rightarrow> mapping option" where
  "hash_remove e m = do { (t, s) \<leftarrow> h_remove (htable m) (ents m) e; Some (set_ents s (m\<lparr>htable := t\<rparr>)) }"

definition hash_lookup :: "path \<Rightarrow> u32 \<Rightarrow> mapping \<Rightarrow> (mapping \<times> u32 option) option" where
  "hash_lookup p c m = do {
     ((t, s), e) \<leftarrow> h_lookup (htable m) (ents m) p c;
     Some (set_ents s (m\<lparr>htable := t\<rparr>), e) }"

definition take_entry :: "mapping \<Rightarrow> (mapping \<times> u32) option" where
  "take_entry m = do {
     ((a, s), e) \<leftarrow> alloc_entry (ea m) (ents m);
     e \<leftarrow> e;
     Some (set_ents s (m\<lparr>ea := a\<rparr>), e) }"

text \<open>The two stores that name the cache page of an entry.\<close>

definition set_key :: "u32 \<Rightarrow> path \<Rightarrow> u32 \<Rightarrow> mapping \<Rightarrow> mapping option" where
  "set_key e p c m = do {
     name \<leftarrow> strcpy (MAX_PATH_SIZE + 1) p;
     let m = upd_entry (\<lambda>x. x\<lparr>full_path_name := name\<rparr>) e m;
     Some (upd_entry (\<lambda>x. x\<lparr>cache_page_index := c\<rparr>) e m) }"

subsection \<open>Initialisation\<close>

function LOG2 :: "u32 \<Rightarrow> u32" where
  "LOG2 n = (if n > 1 then 1 + LOG2 (drop_bit 1 n) else 0)"
  by pat_completeness auto
termination
proof (relation "measure unat")
  fix n :: u32
  assume "n > 1"
  then have "unat n > 1" by (simp add: word_less_nat_alt)
  then show "(drop_bit 1 n, n) \<in> measure unat"
    by (simp add: drop_bit_eq_div unat_div)
qed simp

declare LOG2.simps [simp del]

definition alloc_es :: "entry_space \<Rightarrow> entry_space" where
  "alloc_es s = s\<lparr>es_begin := 0, es_end := CACHE_BLOCK_NUMBER - 1\<rparr>"

definition init_mapping :: "mapping \<Rightarrow> u32 \<Rightarrow> u32 \<Rightarrow> mapping \<times> int" where
  "init_mapping m bsize cblock_num =
     (if bsize = 0 \<or> cblock_num = 0 then (m, 1)
      else
        let m = m\<lparr>block_size := bsize\<rparr>;
            m = m\<lparr>cache_block_num := cblock_num\<rparr>;
            m = m\<lparr>block_per_cblock_shift := LOG2 (CACHE_BLOCK_SIZE div block_size m)\<rparr>;
            m = m\<lparr>block_per_page_shift := LOG2 (PAGE_SIZE div block_size m)\<rparr>;
            m = m\<lparr>es := alloc_es (es m)\<rparr>;
            m = (case init_allocator (ea m) (ents m) 0 (cache_block_num m) of
                   (a, s) \<Rightarrow> set_ents s (m\<lparr>ea := a\<rparr>));
            m = m\<lparr>clean := l_init (clean m)\<rparr>;
            m = m\<lparr>dirty := l_init (dirty m)\<rparr>;
            m = m\<lparr>htable := alloc_hash_table (htable m)\<rparr>;
            m = m\<lparr>hit_time := 0, miss_time := 0, promotion_time := 0, demotion_time := 0, writeback_time := 0\<rparr>;
            m = m\<lparr>mapping_lock := spinlock_init (mapping_lock m)\<rparr>
        in (m, 0))"

subsection \<open>Promotion\<close>

definition promotion_free_to_clean :: "mapping \<Rightarrow> path \<Rightarrow> u32 \<Rightarrow> (mapping \<times> u32 option) option" where
  "promotion_free_to_clean m p c = do {
     m \<leftarrow> lock_mapping m;
     if allocator_empty (ea m) then Some (unlock_mapping m, None)
     else do {
       (m, e) \<leftarrow> take_entry m;
       let m = upd_entry (entry_set_pending True) e m;
       let m = upd_entry (entry_set_dirty False) e m;
       m \<leftarrow> set_key e p c m;
       let cblock = infer_cblock m e;
       Some (unlock_mapping m, Some cblock) } }"

definition promotion_complete :: "mapping \<Rightarrow> u32 \<Rightarrow> bool \<Rightarrow> mapping option" where
  "promotion_complete m cblock success = do {
     m \<leftarrow> lock_mapping m;
     e \<leftarrow> to_entry cblock;
     let m = upd_entry (entry_set_pending False) e m;
     if success then do {
       let m = m\<lparr>promotion_time := promotion_time m + 1\<rparr>;
       let m = hash_insert e m;
       let m = queue_add_tail e m;
       Some (unlock_mapping m) }
     else do {
       let m = release_entry e m;
       Some (unlock_mapping m) } }"

subsection \<open>Demotion\<close>

definition demotion_clean_to_free :: "mapping \<Rightarrow> (mapping \<times> u32 option) option" where
  "demotion_clean_to_free m = do {
     m \<leftarrow> lock_mapping m;
     if nr_elts (clean m) \<le> drop_bit 1 (cache_block_num m) then Some (unlock_mapping m, None)
     else do {
       e \<leftarrow> l_head (clean m);
       let m = (case l_del (ents m) (clean m) e of (s, l) \<Rightarrow> set_ents s (m\<lparr>clean := l\<rparr>));
       let m = upd_entry (entry_set_pending True) e m;
       let cblock = infer_cblock m e;
       Some (unlock_mapping m, Some cblock) } }"

definition demotion_complete :: "mapping \<Rightarrow> u32 \<Rightarrow> bool \<Rightarrow> mapping option" where
  "demotion_complete m cblock success = do {
     m \<leftarrow> lock_mapping m;
     e \<leftarrow> to_entry cblock;
     let m = upd_entry (entry_set_pending False) e m;
     if success then do {
       let m = m\<lparr>demotion_time := demotion_time m + 1\<rparr>;
       m \<leftarrow> hash_remove e m;
       let m = release_entry e m;
       Some (unlock_mapping m) }
     else do {
       let m = queue_add_tail e m;
       Some (unlock_mapping m) } }"

subsection \<open>Writeback\<close>

definition writeback_dirty_to_clean :: "mapping \<Rightarrow> (mapping \<times> u32 option) option" where
  "writeback_dirty_to_clean m = do {
     m \<leftarrow> lock_mapping m;
     if nr_elts (dirty m) = 0 then Some (unlock_mapping m, None)
     else do {
       let e = l_head (dirty m);
       if entry_get_pending (ents m) e then Some (unlock_mapping m, None)
       else do {
         e \<leftarrow> e;
         let m = upd_entry (entry_set_pending True) e m;
         let m = upd_entry (entry_set_dirty False) e m;
         let m = (case l_del (ents m) (dirty m) e of (s, l) \<Rightarrow> set_ents s (m\<lparr>dirty := l\<rparr>));
         let cblock = infer_cblock m e;
         Some (unlock_mapping m, Some cblock) } } }"

definition writeback_complete :: "mapping \<Rightarrow> u32 \<Rightarrow> bool \<Rightarrow> mapping option" where
  "writeback_complete m cblock success = do {
     m \<leftarrow> lock_mapping m;
     e \<leftarrow> to_entry cblock;
     let m = upd_entry (entry_set_pending False) e m;
     if success then do {
       let m = m\<lparr>writeback_time := writeback_time m + 1\<rparr>;
       let m = queue_add_tail e m;
       Some (unlock_mapping m) }
     else do {
       let m = queue_add_head e m;
       Some (unlock_mapping m) } }"

subsection \<open>Operations of the users\<close>

definition to_cache_page_index :: "u32 \<Rightarrow> u32" where
  "to_cache_page_index page_index = drop_bit 3 page_index"

text \<open>The steps of a hit: count it, and move a clean entry to the end of the clean list.\<close>

definition hit_entry :: "u32 \<Rightarrow> mapping \<Rightarrow> mapping" where
  "hit_entry e m =
     (let m = m\<lparr>hit_time := hit_time m + 1\<rparr>
      in if \<not> entry_get_pending (ents m) (Some e) \<and> \<not> entry_get_dirty (ents m) (Some e)
         then queue_add_tail e (queue_del e m) else m)"

definition lookup_mapping :: "mapping \<Rightarrow> path \<Rightarrow> u32 \<Rightarrow> (mapping \<times> u32 option) option" where
  "lookup_mapping m p page_index = do {
     m \<leftarrow> lock_mapping m;
     (m, e) \<leftarrow> hash_lookup p (to_cache_page_index page_index) m;
     case e of
       Some e \<Rightarrow> do {
         let m = hit_entry e m;
         let cblock = infer_cblock m e;
         Some (unlock_mapping m, Some cblock) }
     | None \<Rightarrow> do {
         let m = m\<lparr>miss_time := miss_time m + 1\<rparr>;
         (q, _) \<leftarrow> insert_work (wq m) p (to_cache_page_index page_index);
         let m = m\<lparr>wq := q\<rparr>;
         Some (unlock_mapping m, None) } }"

definition lookup_mapping_with_insert :: "mapping \<Rightarrow> path \<Rightarrow> u32 \<Rightarrow> (mapping \<times> u32 option) option" where
  "lookup_mapping_with_insert m p page_index = do {
     m \<leftarrow> lock_mapping m;
     (m, e) \<leftarrow> hash_lookup p (to_cache_page_index page_index) m;
     case e of
       Some e \<Rightarrow> do {
         let m = hit_entry e m;
         let cblock = infer_cblock m e;
         Some (unlock_mapping m, Some cblock) }
     | None \<Rightarrow> do {
         let m = m\<lparr>miss_time := miss_time m + 1\<rparr>;
         (q, queued) \<leftarrow> contains_work (wq m) p (to_cache_page_index page_index);
         let m = m\<lparr>wq := q\<rparr>;
         if queued then Some (unlock_mapping m, None)
         else if allocator_empty (ea m) then do {
           (q, _) \<leftarrow> insert_work (wq m) p (to_cache_page_index page_index);
           let m = m\<lparr>wq := q\<rparr>;
           Some (unlock_mapping m, None) }
         else do {
           (m, e) \<leftarrow> take_entry m;
           let m = upd_entry (entry_set_dirty True) e m;
           m \<leftarrow> set_key e p (to_cache_page_index page_index) m;
           let m = hash_insert e m;
           let m = queue_add_tail e m;
           let cblock = infer_cblock m e;
           Some (unlock_mapping m, Some cblock) } } }"

definition remove_mapping :: "mapping \<Rightarrow> path \<Rightarrow> u32 \<Rightarrow> (mapping \<times> bool) option" where
  "remove_mapping m p page_index = do {
     m \<leftarrow> lock_mapping m;
     (m, e) \<leftarrow> hash_lookup p (to_cache_page_index page_index) m;
     case e of
       Some e \<Rightarrow> do {
         let m = queue_del e m;
         m \<leftarrow> hash_remove e m;
         let m = release_entry e m;
         Some (unlock_mapping m, True) }
     | None \<Rightarrow> Some (unlock_mapping m, False) }"

definition set_dirty_after_write :: "mapping \<Rightarrow> u32 \<Rightarrow> bool \<Rightarrow> mapping option" where
  "set_dirty_after_write m cblock _ = do {
     m \<leftarrow> lock_mapping m;
     let e = to_entry cblock;
     if \<not> entry_get_alloc (ents m) e then Some (unlock_mapping m)
     else do {
       e \<leftarrow> e;
       if entry_get_pending (ents m) (Some e)
       then Some (unlock_mapping (upd_entry (entry_set_dirty True) e m))
       else do {
         let m = queue_del e m;
         let m = upd_entry (entry_set_dirty True) e m;
         let m = queue_add_tail e m;
         Some (unlock_mapping m) } } }"

end
