(* ===== verification/CacheView.thy ===== *)
theory CacheView
  imports Prelude
begin

text \<open>
  What the cache mapping of \<^verbatim>\<open>dm-cache/lib/ssd_cache_mapping.c\<close> promises, without links, buckets, bits
  and locks: the queues of the free, the clean and the dirty blocks as sequences (least recently
  used first), the blocks with a transfer under way, the blocks marked dirty, the page table and the
  queue of pages to migrate. \<^verbatim>\<open>MappingOps\<close> proves that the operations of the mapping implement the
  operations below.
\<close>

record cache_view =
  blocks :: u32
  cblock_shift :: u32
  free_q :: "u32 list"
  clean_q :: "u32 list"
  dirty_q :: "u32 list"
  moving :: "u32 set"
  marked :: "u32 set"
  page_table :: "key \<Rightarrow> u32 option"
  key_of :: "u32 \<Rightarrow> key"
  work_list :: "key list"

section \<open>Queues\<close>

definition v_enqueue_tail :: "u32 \<Rightarrow> cache_view \<Rightarrow> cache_view" where
  "v_enqueue_tail e v =
     (if e \<in> marked v then v\<lparr>dirty_q := dirty_q v @ [e]\<rparr> else v\<lparr>clean_q := clean_q v @ [e]\<rparr>)"

definition v_enqueue_head :: "u32 \<Rightarrow> cache_view \<Rightarrow> cache_view" where
  "v_enqueue_head e v =
     (if e \<in> marked v then v\<lparr>dirty_q := e # dirty_q v\<rparr> else v\<lparr>clean_q := e # clean_q v\<rparr>)"

definition v_dequeue :: "u32 \<Rightarrow> cache_view \<Rightarrow> cache_view" where
  "v_dequeue e v =
     (if e \<in> marked v then v\<lparr>dirty_q := remove1 e (dirty_q v)\<rparr>
      else v\<lparr>clean_q := remove1 e (clean_q v)\<rparr>)"

definition v_release :: "u32 \<Rightarrow> cache_view \<Rightarrow> cache_view" where
  "v_release e v = v\<lparr>free_q := free_q v @ [e], marked := marked v - {e}\<rparr>"

definition v_mark :: "u32 \<Rightarrow> cache_view \<Rightarrow> cache_view" where
  "v_mark e v = v\<lparr>marked := insert e (marked v)\<rparr>"

definition v_add_work :: "key \<Rightarrow> cache_view \<Rightarrow> cache_view" where
  "v_add_work k v =
     (if length (work_list v) = MAX_WORKQUEUE_SIZE - 1 \<or> k \<in> set (work_list v) then v
      else v\<lparr>work_list := work_list v @ [k]\<rparr>)"

text \<open>The test of \<open>contains_work\<close>: a queued page of this index whose path is a prefix of this one.\<close>

definition v_queued :: "path \<Rightarrow> u32 \<Rightarrow> cache_view \<Rightarrow> bool" where
  "v_queued p c v \<longleftrightarrow> (\<exists>k \<in> set (work_list v). snd k = c \<and> (\<exists>r. p = fst k @ r))"

section \<open>Transfers\<close>

definition v_promotion_start :: "key \<Rightarrow> cache_view \<Rightarrow> cache_view \<times> u32 option" where
  "v_promotion_start k v =
     (case free_q v of
        [] \<Rightarrow> (v, None)
      | e # F \<Rightarrow> (v\<lparr>free_q := F, moving := insert e (moving v), key_of := (key_of v)(e := k)\<rparr>, Some e))"

definition v_promotion_complete :: "u32 \<Rightarrow> bool \<Rightarrow> cache_view \<Rightarrow> cache_view" where
  "v_promotion_complete e success v =
     (let v = v\<lparr>moving := moving v - {e}\<rparr>
      in if success then v_enqueue_tail e (v\<lparr>page_table := (page_table v)(key_of v e \<mapsto> e)\<rparr>)
         else v_release e v)"

definition v_demotion_start :: "cache_view \<Rightarrow> cache_view \<times> u32 option" where
  "v_demotion_start v =
     (if length (clean_q v) \<le> unat (blocks v) div 2 then (v, None)
      else (v\<lparr>clean_q := tl (clean_q v), moving := insert (hd (clean_q v)) (moving v)\<rparr>,
            Some (hd (clean_q v))))"

definition v_demotion_complete :: "u32 \<Rightarrow> bool \<Rightarrow> cache_view \<Rightarrow> cache_view" where
  "v_demotion_complete e success v =
     (let v = v\<lparr>moving := moving v - {e}\<rparr>
      in if success then v_release e (v\<lparr>page_table := (page_table v)(key_of v e := None)\<rparr>)
         else v_enqueue_tail e v)"

definition v_writeback_start :: "cache_view \<Rightarrow> cache_view \<times> u32 option" where
  "v_writeback_start v =
     (case dirty_q v of
        [] \<Rightarrow> (v, None)
      | e # D \<Rightarrow> (v\<lparr>dirty_q := D, marked := marked v - {e}, moving := insert e (moving v)\<rparr>, Some e))"

definition v_writeback_complete :: "u32 \<Rightarrow> bool \<Rightarrow> cache_view \<Rightarrow> cache_view" where
  "v_writeback_complete e success v =
     (let v = v\<lparr>moving := moving v - {e}\<rparr>
      in if success then v_enqueue_tail e v else v_enqueue_head e v)"

section \<open>Accesses\<close>

definition v_hit :: "u32 \<Rightarrow> cache_view \<Rightarrow> cache_view" where
  "v_hit e v =
     (if e \<notin> moving v \<and> e \<notin> marked v then v_enqueue_tail e (v_dequeue e v) else v)"

definition v_lookup :: "key \<Rightarrow> cache_view \<Rightarrow> cache_view \<times> u32 option" where
  "v_lookup k v =
     (case page_table v k of Some e \<Rightarrow> (v_hit e v, Some e) | None \<Rightarrow> (v_add_work k v, None))"

definition v_insert :: "key \<Rightarrow> cache_view \<Rightarrow> cache_view \<times> u32 option" where
  "v_insert k v =
     (case page_table v k of
        Some e \<Rightarrow> (v_hit e v, Some e)
      | None \<Rightarrow>
          if v_queued (fst k) (snd k) v then (v, None)
          else (case free_q v of
                  [] \<Rightarrow> (v_add_work k v, None)
                | e # F \<Rightarrow>
                    (v\<lparr>free_q := F, dirty_q := dirty_q v @ [e], marked := insert e (marked v),
                       page_table := (page_table v)(k \<mapsto> e), key_of := (key_of v)(e := k)\<rparr>,
                     Some e)))"

definition v_remove :: "key \<Rightarrow> cache_view \<Rightarrow> cache_view \<times> bool" where
  "v_remove k v =
     (case page_table v k of
        Some e \<Rightarrow> (v_release e ((v_dequeue e v)\<lparr>page_table := (page_table v)(k := None)\<rparr>), True)
      | None \<Rightarrow> (v, False))"

definition v_set_dirty :: "u32 \<Rightarrow> cache_view \<Rightarrow> cache_view" where
  "v_set_dirty e v =
     (if e \<in> set (free_q v) then v
      else if e \<in> moving v then v_mark e v
      else v_enqueue_tail e (v_mark e (v_dequeue e v)))"

end
