(* ===== verification/MappingRep.thy ===== *)
theory MappingRep
  imports CacheMapping CacheView
begin

text \<open>
  The abstract view of the cache mapping and what its operations do to it. \<open>mstruct\<close> says which
  sequences the free, the clean and the dirty list link and which entries the hash table holds;
  \<open>entry_ok\<close> ties the flags of an entry to its role in the view of \<^verbatim>\<open>CacheView\<close>; \<open>mrep\<close> is both,
  on an unlocked mapping with a valid work queue. The primitives of an operation keep \<open>mstruct\<close> one by one, and the flags are
  accounted for at its end.
\<close>

section \<open>Structure\<close>

definition mstruct :: "mapping \<Rightarrow> u32 list \<Rightarrow> u32 list \<Rightarrow> u32 list \<Rightarrow> u32 set \<Rightarrow> bool" where
  "mstruct m F C D H \<longleftrightarrow>
     ilist_rep (ents m) (ea_free (ea m)) F \<and> ilist_rep (ents m) (clean m) C
     \<and> ilist_rep (ents m) (dirty m) D \<and> table (ents m) (htable m) H
     \<and> set F \<inter> set C = {} \<and> set F \<inter> set D = {} \<and> set C \<inter> set D = {}
     \<and> ea_begin (ea m) = 0 \<and> nr_allocated (ea m) + of_nat (length F) = cache_block_num m
     \<and> cache_block_num m \<le> CACHE_BLOCK_NUMBER"

text \<open>Two mappings that agree on the flags and the keys of all entries.\<close>

definition same_data :: "mapping \<Rightarrow> mapping \<Rightarrow> bool" where
  "same_data m m' \<longleftrightarrow>
     (\<forall>i. param (ents m' i) = param (ents m i) \<and> entry_key (ents m' i) = entry_key (ents m i))"

lemma same_data_refl [simp]: "same_data m m"
  by (simp add: same_data_def)

lemma same_data_trans [trans]: "same_data a b \<Longrightarrow> same_data b c \<Longrightarrow> same_data a c"
  by (simp add: same_data_def)

lemma same_data_flags:
  assumes "same_data m m'"
  shows "pending (ents m' i) = pending (ents m i)" and "dirty_bit (ents m' i) = dirty_bit (ents m i)"
    and "allocated (ents m' i) = allocated (ents m i)" and "entry_key (ents m' i) = entry_key (ents m i)"
  using assms flags_cong [of "ents m' i" "ents m i"] by (simp_all add: same_data_def)

text \<open>The fields that no primitive writes.\<close>

definition same_env :: "mapping \<Rightarrow> mapping \<Rightarrow> bool" where
  "same_env m m' \<longleftrightarrow>
     cache_block_num m' = cache_block_num m \<and> mapping_lock m' = mapping_lock m \<and> wq m' = wq m
     \<and> ea_begin (ea m') = ea_begin (ea m)
     \<and> block_per_cblock_shift m' = block_per_cblock_shift m
     \<and> block_per_page_shift m' = block_per_page_shift m \<and> block_size m' = block_size m"

lemma same_env_refl [simp]: "same_env m m"
  by (simp add: same_env_def)

lemma same_env_trans [trans]: "same_env a b \<Longrightarrow> same_env b c \<Longrightarrow> same_env a c"
  by (simp add: same_env_def)

lemma same_env_prims [simp]:
  "same_env m (upd_entry f e m)" "same_env m (queue_add_tail e m)" "same_env m (queue_add_head e m)"
  "same_env m (queue_del e m)" "same_env m (release_entry e m)" "same_env m (hash_insert e m)"
  by (auto simp: same_env_def upd_entry_def queue_add_tail_def queue_add_head_def queue_del_def
      release_entry_def free_entry_def hash_insert_def Let_def split: prod.split)

lemma unlinked_data: "unlinked a = unlinked b \<Longrightarrow> param a = param b \<and> entry_key a = entry_key b"
  by (simp add: unlinked_fields [of a b] entry_key_def)

lemma unhashed_data: "unhashed a = unhashed b \<Longrightarrow> param a = param b \<and> entry_key a = entry_key b"
  by (simp add: unhashed_fields [of a b])

lemma same_dataI_unlinked: "(\<And>i. unlinked (ents m' i) = unlinked (ents m i)) \<Longrightarrow> same_data m m'"
  unfolding same_data_def by (intro allI unlinked_data)

lemma same_dataI_unhashed: "(\<And>i. unhashed (ents m' i) = unhashed (ents m i)) \<Longrightarrow> same_data m m'"
  unfolding same_data_def by (intro allI unhashed_data)

lemma same_data_prims [simp]:
  "same_data m (queue_add_tail e m)" "same_data m (queue_add_head e m)" "same_data m (queue_del e m)"
  by (rule same_dataI_unlinked;
      simp add: queue_add_tail_def queue_add_head_def queue_del_def case_prod_unfold)+

lemma hash_insert_data [simp]: "same_data m (hash_insert e m)"
proof (rule same_dataI_unhashed)
  fix i
  obtain t s where i: "h_insert (htable m) (ents m) e = (t, s)" by fastforce
  then have "unhashed (s i) = unhashed (ents m i)"
    by (auto simp: h_insert_def Let_def intro: insert_bucket_unhashed)
  with i show "unhashed (ents (hash_insert e m) i) = unhashed (ents m i)"
    by (simp add: hash_insert_def)
qed

text \<open>So the primitives keep flags and keys, and a release only clears the allocation flag.\<close>

lemmas prims_flags [simp] =
  same_data_flags [OF same_data_prims(1)] same_data_flags [OF same_data_prims(2)]
  same_data_flags [OF same_data_prims(3)] same_data_flags [OF hash_insert_data]

lemma prims_fields [simp]:
  "cache_block_num (upd_entry f e m) = cache_block_num m" "wq (upd_entry f e m) = wq m"
  "cache_block_num (queue_add_tail e m) = cache_block_num m" "wq (queue_add_tail e m) = wq m"
  "cache_block_num (queue_add_head e m) = cache_block_num m" "wq (queue_add_head e m) = wq m"
  "cache_block_num (queue_del e m) = cache_block_num m" "wq (queue_del e m) = wq m"
  "cache_block_num (release_entry e m) = cache_block_num m" "wq (release_entry e m) = wq m"
  "cache_block_num (hash_insert e m) = cache_block_num m" "wq (hash_insert e m) = wq m"
  "block_per_cblock_shift (upd_entry f e m) = block_per_cblock_shift m"
  "block_per_cblock_shift (queue_add_tail e m) = block_per_cblock_shift m"
  "block_per_cblock_shift (queue_add_head e m) = block_per_cblock_shift m"
  "block_per_cblock_shift (queue_del e m) = block_per_cblock_shift m"
  "block_per_cblock_shift (release_entry e m) = block_per_cblock_shift m"
  "block_per_cblock_shift (hash_insert e m) = block_per_cblock_shift m"
  using same_env_prims unfolding same_env_def by blast+

section \<open>The primitives\<close>

lemma ilist_rep_unlinked_frame:
  "(\<And>i. i \<in> set xs \<Longrightarrow> s i = r i) \<Longrightarrow> ilist_rep r l xs \<Longrightarrow> ilist_rep s l xs"
  using ilist_rep_cong [of xs s r l] by simp

lemma mstruct_lists:
  assumes "mstruct m F C D H"
  shows "distinct F" "distinct C" "distinct D" "INDEXER_NULL \<notin> set F \<union> set C \<union> set D"
  using assms il.rep_distinct by (auto simp: mstruct_def)

lemma table_upd_iff:
  assumes "\<And>x. hash_next (f x) = hash_next x" and "\<And>x. entry_key (f x) = entry_key x"
  shows "table (upd r e f) t H = table r t H"
proof
  show "table r t H" if t: "table (upd r e f) t H"
    by (rule table_cong [OF t]) (simp add: upd_apply assms)
  show "table (upd r e f) t H" if t: "table r t H"
    by (rule table_cong [OF t]) (simp add: upd_apply assms)
qed

lemma mstruct_flags [simp]:
  "mstruct (upd_entry (entry_set_pending b) e m) F C D H = mstruct m F C D H"
  "mstruct (upd_entry (entry_set_dirty b) e m) F C D H = mstruct m F C D H"
  "mstruct (upd_entry (entry_set_alloc b) e m) F C D H = mstruct m F C D H"
  by (simp_all add: mstruct_def upd_entry_def table_upd_iff)

lemma mstruct_counters [simp]:
  "mstruct (m\<lparr>hit_time := x\<rparr>) = mstruct m" "mstruct (m\<lparr>miss_time := x\<rparr>) = mstruct m"
  "mstruct (m\<lparr>promotion_time := x\<rparr>) = mstruct m" "mstruct (m\<lparr>demotion_time := x\<rparr>) = mstruct m"
  "mstruct (m\<lparr>writeback_time := x\<rparr>) = mstruct m" "mstruct (m\<lparr>mapping_lock := l\<rparr>) = mstruct m"
  "mstruct (m\<lparr>wq := q\<rparr>) = mstruct m"
  by (simp_all add: mstruct_def fun_eq_iff)

lemma l_add_tail_table:
  "table r t H \<Longrightarrow> l_add_tail r l e = (s, l') \<Longrightarrow> table s t H"
  by (rule table_unhashed_cong, assumption) (metis fst_conv l_add_tail_unlinked)

lemma l_add_head_table:
  "table r t H \<Longrightarrow> l_add_head r l e = (s, l') \<Longrightarrow> table s t H"
  by (rule table_unhashed_cong, assumption) (metis fst_conv l_add_head_unlinked)

lemma l_del_table:
  "table r t H \<Longrightarrow> l_del r l e = (s, l') \<Longrightarrow> table s t H"
  by (rule table_unhashed_cong, assumption) (metis fst_conv l_del_unlinked)

lemma queue_add_tail_struct:
  assumes "mstruct m F C D H" and "e \<notin> set F \<union> set C \<union> set D" and "e \<noteq> INDEXER_NULL"
  shows "mstruct (queue_add_tail e m) F (if dirty_bit (ents m e) then C else C @ [e])
    (if dirty_bit (ents m e) then D @ [e] else D) H"
proof -
  from assms(1) have reps: "ilist_rep (ents m) (ea_free (ea m)) F" "ilist_rep (ents m) (clean m) C"
    "ilist_rep (ents m) (dirty m) D" and tab: "table (ents m) (htable m) H"
    and disj: "set C \<inter> set F = {}" "set D \<inter> set F = {}" "set C \<inter> set D = {}" "set D \<inter> set C = {}"
    by (auto simp: mstruct_def)
  have e: "e \<notin> set F" "e \<notin> set C" "e \<notin> set D" using assms(2) by auto
  show ?thesis
  proof (cases "dirty_bit (ents m e)")
    case True
    obtain s l where add: "l_add_tail (ents m) (dirty m) e = (s, l)" by fastforce
    from True assms(1,2) show ?thesis
      using il.add_tail_law [OF reps(3) e(3) assms(3) add] l_add_tail_table [OF tab add]
        il.add_tail_frame [OF reps(3) reps(1) disj(2) e(1) add]
        il.add_tail_frame [OF reps(3) reps(2) disj(4) e(2) add]
      by (auto simp: mstruct_def queue_add_tail_def add)
  next
    case False
    obtain s l where add: "l_add_tail (ents m) (clean m) e = (s, l)" by fastforce
    from False assms(1,2) show ?thesis
      using il.add_tail_law [OF reps(2) e(2) assms(3) add] l_add_tail_table [OF tab add]
        il.add_tail_frame [OF reps(2) reps(1) disj(1) e(1) add]
        il.add_tail_frame [OF reps(2) reps(3) disj(3) e(3) add]
      by (auto simp: mstruct_def queue_add_tail_def add)
  qed
qed

lemma queue_add_head_struct:
  assumes "mstruct m F C D H" and "e \<notin> set F \<union> set C \<union> set D" and "e \<noteq> INDEXER_NULL"
  shows "mstruct (queue_add_head e m) F (if dirty_bit (ents m e) then C else e # C)
    (if dirty_bit (ents m e) then e # D else D) H"
proof -
  from assms(1) have reps: "ilist_rep (ents m) (ea_free (ea m)) F" "ilist_rep (ents m) (clean m) C"
    "ilist_rep (ents m) (dirty m) D" and tab: "table (ents m) (htable m) H"
    and disj: "set C \<inter> set F = {}" "set D \<inter> set F = {}" "set C \<inter> set D = {}" "set D \<inter> set C = {}"
    by (auto simp: mstruct_def)
  have e: "e \<notin> set F" "e \<notin> set C" "e \<notin> set D" using assms(2) by auto
  have frame: "ilist_rep s k ys"
    if "ilist_rep (ents m) l xs" "ilist_rep (ents m) k ys" "set xs \<inter> set ys = {}" "e \<notin> set ys"
      "l_add_head (ents m) l e = (s, l')" for l xs k ys s l'
  proof (rule ilist_rep_unlinked_frame [OF _ that(2)])
    fix i assume "i \<in> set ys"
    with that show "s i = ents m i" using l_add_head_other [OF that(1), of i e] by auto
  qed
  show ?thesis
  proof (cases "dirty_bit (ents m e)")
    case True
    obtain s l where add: "l_add_head (ents m) (dirty m) e = (s, l)" by fastforce
    from True assms(1,2) show ?thesis
      using l_add_head_rep [OF reps(3) e(3) assms(3)] l_add_head_table [OF tab add]
        frame [OF reps(3) reps(1) disj(2) e(1) add] frame [OF reps(3) reps(2) disj(4) e(2) add]
      by (auto simp: mstruct_def queue_add_head_def add)
  next
    case False
    obtain s l where add: "l_add_head (ents m) (clean m) e = (s, l)" by fastforce
    from False assms(1,2) show ?thesis
      using l_add_head_rep [OF reps(2) e(2) assms(3)] l_add_head_table [OF tab add]
        frame [OF reps(2) reps(1) disj(1) e(1) add] frame [OF reps(2) reps(3) disj(3) e(3) add]
      by (auto simp: mstruct_def queue_add_head_def add)
  qed
qed

lemma queue_del_struct:
  assumes "mstruct m F C D H" and "e \<in> set (if dirty_bit (ents m e) then D else C)"
  shows "mstruct (queue_del e m) F (if dirty_bit (ents m e) then C else remove1 e C)
    (if dirty_bit (ents m e) then remove1 e D else D) H"
proof -
  from assms(1) have reps: "ilist_rep (ents m) (ea_free (ea m)) F" "ilist_rep (ents m) (clean m) C"
    "ilist_rep (ents m) (dirty m) D" and tab: "table (ents m) (htable m) H"
    and disj: "set C \<inter> set F = {}" "set D \<inter> set F = {}" "set C \<inter> set D = {}" "set D \<inter> set C = {}"
    by (auto simp: mstruct_def)
  note sub = set_remove1_subset [of e, THEN subsetD]
  show ?thesis
  proof (cases "dirty_bit (ents m e)")
    case True
    obtain s l where del: "l_del (ents m) (dirty m) e = (s, l)" by fastforce
    have e: "e \<in> set D" using assms(2) True by simp
    from True assms(1) show ?thesis
      using il.del_law [OF reps(3) e del] l_del_table [OF tab del]
        il.del_frame [OF reps(3) reps(1) disj(2) e del] il.del_frame [OF reps(3) reps(2) disj(4) e del]
      by (auto simp: mstruct_def queue_del_def del dest: sub)
  next
    case False
    obtain s l where del: "l_del (ents m) (clean m) e = (s, l)" by fastforce
    have e: "e \<in> set C" using assms(2) False by simp
    from False assms(1) show ?thesis
      using il.del_law [OF reps(2) e del] l_del_table [OF tab del]
        il.del_frame [OF reps(2) reps(1) disj(1) e del] il.del_frame [OF reps(2) reps(3) disj(3) e del]
      by (auto simp: mstruct_def queue_del_def del dest: sub)
  qed
qed

lemma release_entry_struct:
  assumes "mstruct m F C D H" and "e \<notin> set F \<union> set C \<union> set D" and "e \<noteq> INDEXER_NULL"
  shows "mstruct (release_entry e m) (F @ [e]) C D H"
proof -
  let ?s0 = "upd (ents m) e (entry_set_alloc False)"
  from assms(1) have reps: "ilist_rep ?s0 (ea_free (ea m)) F" "ilist_rep ?s0 (clean m) C"
    "ilist_rep ?s0 (dirty m) D" and tab: "table ?s0 (htable m) H"
    and disj: "set F \<inter> set C = {}" "set F \<inter> set D = {}"
    by (auto simp: mstruct_def intro: table_flags)
  have e: "e \<notin> set F" "e \<notin> set C" "e \<notin> set D" using assms(2) by auto
  obtain s l where add: "l_add_tail ?s0 (ea_free (ea m)) e = (s, l)" by fastforce
  from assms(1,2) show ?thesis
    using il.add_tail_law [OF reps(1) e(1) assms(3) add] l_add_tail_table [OF tab add]
      il.add_tail_frame [OF reps(1) reps(2) disj(1) e(2) add]
      il.add_tail_frame [OF reps(1) reps(3) disj(2) e(3) add]
    by (auto simp: mstruct_def release_entry_def free_entry_def add Let_def algebra_simps)
qed

lemma release_entry_data:
  "param (ents (release_entry e m) i) = (if i = e then param (entry_set_alloc False (ents m e)) else param (ents m i))"
  "entry_key (ents (release_entry e m) i) = entry_key (ents m i)"
proof -
  have "unlinked (ents (release_entry e m) i) = unlinked (upd (ents m) e (entry_set_alloc False) i)"
    by (simp add: release_entry_def free_entry_def Let_def case_prod_unfold)
  then have "param (ents (release_entry e m) i) = param (upd (ents m) e (entry_set_alloc False) i)
      \<and> entry_key (ents (release_entry e m) i) = entry_key (upd (ents m) e (entry_set_alloc False) i)"
    by (rule unlinked_data)
  then show "param (ents (release_entry e m) i) = (if i = e then param (entry_set_alloc False (ents m e)) else param (ents m i))"
    "entry_key (ents (release_entry e m) i) = entry_key (ents m i)"
    by (simp_all add: upd_apply)
qed

lemma release_entry_flags [simp]:
  "allocated (ents (release_entry e m) i) \<longleftrightarrow> i \<noteq> e \<and> allocated (ents m i)"
  "pending (ents (release_entry e m) i) = pending (ents m i)"
  "dirty_bit (ents (release_entry e m) i) = dirty_bit (ents m i)"
  "entry_key (ents (release_entry e m) i) = entry_key (ents m i)"
  using release_entry_data [of e m i] flags_cong [of "ents (release_entry e m) i" "ents m i"]
    flags_cong [of "ents (release_entry e m) e" "entry_set_alloc False (ents m e)"]
  by (cases "i = e"; simp)+

text \<open>An operation on the hash table: new chain links and buckets.\<close>

lemma mstruct_rehash:
  assumes "mstruct m F C D H" and "table s t H'" and "\<And>i. unhashed (s i) = unhashed (ents m i)"
  shows "mstruct (set_ents s (m\<lparr>htable := t\<rparr>)) F C D H'"
    and "same_data m (set_ents s (m\<lparr>htable := t\<rparr>))" and "same_env m (set_ents s (m\<lparr>htable := t\<rparr>))"
proof -
  have "ilist_rep s l xs = ilist_rep (ents m) l xs" for l xs
    by (rule ilist_rep_unhashed) (rule assms(3))
  with assms(1,2) show "mstruct (set_ents s (m\<lparr>htable := t\<rparr>)) F C D H'" by (simp add: mstruct_def)
  show "same_data m (set_ents s (m\<lparr>htable := t\<rparr>))"
    by (rule same_dataI_unhashed) (simp add: assms(3))
qed (simp add: same_env_def)

lemma hash_insert_struct:
  assumes "mstruct m F C D H" and "e \<notin> H" and "e \<noteq> INDEXER_NULL"
    and "\<forall>i \<in> H. entry_key (ents m i) \<noteq> entry_key (ents m e)"
  shows "mstruct (hash_insert e m) F C D (insert e H)"
proof -
  obtain t s where ins: "h_insert (htable m) (ents m) e = (t, s)" by fastforce
  have "table (ents m) (htable m) H" using assms(1) by (simp add: mstruct_def)
  from ht.insert_law [OF this assms(2-4) ins] mstruct_rehash(1) [OF assms(1)] show ?thesis
    by (simp add: hash_insert_def ins)
qed

lemma hash_remove_struct:
  assumes "mstruct m F C D H" and "e \<in> H"
  obtains m' where "hash_remove e m = Some m'" "mstruct m' F C D (H - {e})"
    "same_data m m'" "same_env m m'"
proof -
  have "table (ents m) (htable m) H" using assms(1) by (simp add: mstruct_def)
  then show ?thesis
  proof (rule h_remove_table [OF _ assms(2)])
    fix t s
    assume rem: "h_remove (htable m) (ents m) e = Some (t, s)" "table s t (H - {e})"
      and same: "\<And>i. unhashed (s i) = unhashed (ents m i)"
    from rem(1) have "hash_remove e m = Some (set_ents s (m\<lparr>htable := t\<rparr>))"
      by (simp add: hash_remove_def)
    then show ?thesis using mstruct_rehash [OF assms(1) rem(2) same] by (rule that)
  qed
qed

lemma hash_lookup_struct:
  assumes "mstruct m F C D H"
  obtains m' r where "hash_lookup p c m = Some (m', r)" "mstruct m' F C D H"
    "same_data m m'" "same_env m m'"
    "case r of None \<Rightarrow> \<forall>i \<in> H. entry_key (ents m i) \<noteq> (p, c) | Some e \<Rightarrow> e \<in> H \<and> entry_key (ents m e) = (p, c)"
proof -
  have "table (ents m) (htable m) H" using assms(1) by (simp add: mstruct_def)
  then show ?thesis
  proof (rule h_lookup_table [where p = p and c = c])
    fix t s r
    assume look: "h_lookup (htable m) (ents m) p c = Some ((t, s), r)" "table s t H"
      and same: "\<And>i. unhashed (s i) = unhashed (ents m i)"
      and r: "case r of None \<Rightarrow> \<forall>i \<in> H. entry_key (ents m i) \<noteq> (p, c) | Some e \<Rightarrow> e \<in> H \<and> entry_key (ents m e) = (p, c)"
    from look(1) have "hash_lookup p c m = Some (set_ents s (m\<lparr>htable := t\<rparr>), r)"
      by (simp add: hash_lookup_def)
    then show ?thesis using mstruct_rehash [OF assms look(2) same] r by (rule that)
  qed
qed

lemma take_entry_struct:
  assumes "mstruct m (e # F) C D H" and "e \<notin> H"
  obtains m' where "take_entry m = Some (m', e)" "mstruct m' F C D H" "same_env m m'"
    "\<And>i. param (ents m' i) = (if i = e then param (entry_set_alloc True (init_entry (ents m e))) else param (ents m i))"
    "\<And>i. i \<noteq> e \<Longrightarrow> entry_key (ents m' i) = entry_key (ents m i)"
proof -
  from assms(1) have reps: "ilist_rep (ents m) (ea_free (ea m)) (e # F)" "ilist_rep (ents m) (clean m) C"
    "ilist_rep (ents m) (dirty m) D" and tab: "table (ents m) (htable m) H"
    and disj: "set (e # F) \<inter> set C = {}" "set (e # F) \<inter> set D = {}"
    by (auto simp: mstruct_def)
  obtain s l where del: "l_del (ents m) (ea_free (ea m)) e = (s, l)" by fastforce
  have e: "e \<in> set (e # F)" by simp
  have fresh: "e \<notin> set F" "e \<notin> set C" "e \<notin> set D"
    using il.rep_distinct [OF reps(1)] disj by auto
  let ?f = "\<lambda>x. entry_set_alloc True (init_entry x)"
  let ?m = "set_ents (upd s e ?f) (m\<lparr>ea := (ea m)\<lparr>nr_allocated := nr_allocated (ea m) + 1, ea_free := l\<rparr>\<rparr>)"
  have take: "take_entry m = Some (?m, e)"
    using alloc_entry_rep [OF reps(1) del] by (simp add: take_entry_def)
  have "table (upd s e ?f) (htable m) H"
    using l_del_table [OF tab del] assms(2) by (intro table_upd) auto
  then have struct: "mstruct ?m F C D H"
    using assms(1) fresh il.del_law [OF reps(1) e del] il.del_frame [OF reps(1,2) disj(1) e del]
      il.del_frame [OF reps(1,3) disj(2) e del]
    by (simp add: mstruct_def ilist_rep_upd algebra_simps)
  have same: "param (s i) = param (ents m i) \<and> entry_key (s i) = entry_key (ents m i)" for i
    by (rule unlinked_data) (use l_del_unlinked [of "ents m" "ea_free (ea m)" e i] del in simp)
  have "param (?f a) = param (?f b)" for a b
    by (simp add: entry_set_alloc_def init_entry_def)
  then show ?thesis
    using take struct same by (intro that [of ?m]) (auto simp: same_env_def upd_apply)
qed

lemma set_key_struct:
  assumes "mstruct m F C D H" and "e \<notin> H" and "length p \<le> MAX_PATH_SIZE"
  obtains m' where "set_key e p c m = Some m'" "mstruct m' F C D H" "same_env m m'"
    "\<And>i. param (ents m' i) = param (ents m i)"
    "\<And>i. entry_key (ents m' i) = (if i = e then (p, c) else entry_key (ents m i))"
proof -
  let ?m = "upd_entry (\<lambda>x. x\<lparr>cache_page_index := c\<rparr>) e (upd_entry (\<lambda>x. x\<lparr>full_path_name := p\<rparr>) e m)"
  have "set_key e p c m = Some ?m" using assms(3) by (simp add: set_key_def)
  moreover have "mstruct ?m F C D H"
    using assms(1,2) by (auto simp: mstruct_def upd_entry_def ilist_rep_upd intro!: table_upd)
  ultimately show ?thesis
    by (rule that) (auto simp: same_env_def upd_entry_def upd_apply entry_key_def)
qed

section \<open>The invariant\<close>

text \<open>
  The flags of entry \<open>i\<close> say in which of the collections of the view it is. The clean and the dirty
  blocks are in the page table, the moving ones may be.
\<close>

definition entry_ok :: "entry \<Rightarrow> u32 \<Rightarrow> cache_view \<Rightarrow> bool" where
  "entry_ok x i v \<longleftrightarrow>
     (i \<in> set (free_q v) \<longleftrightarrow> i < blocks v \<and> \<not> allocated x)
     \<and> (i \<in> set (clean_q v) \<longleftrightarrow> i < blocks v \<and> allocated x \<and> \<not> pending x \<and> \<not> dirty_bit x)
     \<and> (i \<in> set (dirty_q v) \<longleftrightarrow> i < blocks v \<and> allocated x \<and> \<not> pending x \<and> dirty_bit x)
     \<and> (i \<in> moving v \<longleftrightarrow> i < blocks v \<and> allocated x \<and> pending x)
     \<and> (i \<in> marked v \<longleftrightarrow> i < blocks v \<and> allocated x \<and> dirty_bit x)
     \<and> (i < blocks v \<longrightarrow> pending x \<longrightarrow> allocated x)
     \<and> (i \<in> ran (page_table v) \<longrightarrow> i < blocks v \<and> allocated x)
     \<and> (i < blocks v \<and> allocated x \<and> \<not> pending x \<longrightarrow> i \<in> ran (page_table v))"

definition keyed :: "(key \<Rightarrow> u32 option) \<Rightarrow> (u32 \<Rightarrow> key) \<Rightarrow> bool" where
  "keyed pt key \<longleftrightarrow> (\<forall>k e. pt k = Some e \<longrightarrow> key e = k)"

lemma keyedD: "keyed pt key \<Longrightarrow> pt k = Some e \<Longrightarrow> key e = k"
  unfolding keyed_def by blast

lemma keyed_upd [simp, intro]:
  assumes "keyed pt key"
  shows "keyed (pt(key e \<mapsto> e)) key" and "keyed (pt(k := None)) key"
    and "e \<notin> ran pt \<Longrightarrow> keyed pt (key(e := k))"
    and "e \<notin> ran pt \<Longrightarrow> keyed (pt(k \<mapsto> e)) (key(e := k))"
  using keyedD [OF assms] unfolding keyed_def by (auto simp: ran_def split: if_splits)

lemma ran_upd_None: "keyed pt key \<Longrightarrow> pt k = Some e \<Longrightarrow> ran (pt(k := None)) = ran pt - {e}"
proof (rule set_eqI)
  fix x
  assume pt: "keyed pt key" "pt k = Some e"
  show "x \<in> ran (pt(k := None)) \<longleftrightarrow> x \<in> ran pt - {e}"
    unfolding ran_def mem_Collect_eq Diff_iff singleton_iff fun_upd_apply
    using pt keyedD [OF pt(1)] by (metis option.distinct(1) option.inject)
qed

definition mrep :: "mapping \<Rightarrow> cache_view \<Rightarrow> bool" where
  "mrep m v \<longleftrightarrow>
     mstruct m (free_q v) (clean_q v) (dirty_q v) (ran (page_table v))
     \<and> cache_block_num m = blocks v \<and> block_per_cblock_shift m = cblock_shift v \<and> (\<forall>i. entry_ok (ents m i) i v)
     \<and> (\<forall>i. entry_key (ents m i) = key_of v i) \<and> keyed (page_table v) (key_of v)
     \<and> unlocked (mapping_lock m) \<and> wq_inv (wq m) \<and> wq_keys (wq m) = work_list v"

definition same_flags :: "entry \<Rightarrow> entry \<Rightarrow> bool" where
  "same_flags x y \<longleftrightarrow> allocated x = allocated y \<and> pending x = pending y \<and> dirty_bit x = dirty_bit y"

lemma entry_ok_cong: "same_flags x y \<Longrightarrow> entry_ok x i v = entry_ok y i v"
  by (simp add: entry_ok_def same_flags_def)

lemma same_flags_param: "param x = param y \<Longrightarrow> same_flags x y"
  by (simp add: same_flags_def flags_cong [of x y])

text \<open>Two views in which block \<open>i\<close> has the same role.\<close>

definition same_role :: "u32 \<Rightarrow> cache_view \<Rightarrow> cache_view \<Rightarrow> bool" where
  "same_role i v v' \<longleftrightarrow>
     blocks v' = blocks v
     \<and> (i \<in> set (free_q v') \<longleftrightarrow> i \<in> set (free_q v)) \<and> (i \<in> set (clean_q v') \<longleftrightarrow> i \<in> set (clean_q v))
     \<and> (i \<in> set (dirty_q v') \<longleftrightarrow> i \<in> set (dirty_q v)) \<and> (i \<in> moving v' \<longleftrightarrow> i \<in> moving v)
     \<and> (i \<in> marked v' \<longleftrightarrow> i \<in> marked v) \<and> (i \<in> ran (page_table v') \<longleftrightarrow> i \<in> ran (page_table v))"

lemma entry_ok_role: "same_role i v v' \<Longrightarrow> entry_ok x i v' = entry_ok x i v"
  by (simp add: same_role_def entry_ok_def)

lemma mrep_struct: "mrep m v \<Longrightarrow> mstruct m (free_q v) (clean_q v) (dirty_q v) (ran (page_table v))"
  by (simp add: mrep_def)

lemma mrep_entry: "mrep m v \<Longrightarrow> entry_ok (ents m i) i v"
  by (simp add: mrep_def)

lemma mrep_fields:
  assumes "mrep m v"
  shows "cache_block_num m = blocks v" "entry_key (ents m i) = key_of v i" "unlocked (mapping_lock m)"
    "wq_inv (wq m)" "wq_keys (wq m) = work_list v" "keyed (page_table v) (key_of v)"
    "block_per_cblock_shift m = cblock_shift v"
  using assms by (simp_all add: mrep_def)

lemma mrep_lookup: "mrep m v \<Longrightarrow> page_table v k = Some e \<Longrightarrow> key_of v e = k"
  unfolding mrep_def using keyedD by blast

text \<open>Where a block is excludes where it is not.\<close>

lemma mrep_roles:
  assumes "mrep m v"
  shows "i \<in> moving v \<Longrightarrow> i \<notin> set (free_q v) \<union> set (clean_q v) \<union> set (dirty_q v)"
    and "i \<in> set (free_q v) \<Longrightarrow> i \<notin> marked v \<and> i \<notin> ran (page_table v) \<and> i \<notin> moving v"
    and "i \<in> set (clean_q v) \<Longrightarrow> i \<notin> marked v \<and> i \<in> ran (page_table v) \<and> i \<notin> moving v"
    and "i \<in> set (dirty_q v) \<Longrightarrow> i \<in> marked v \<and> i \<in> ran (page_table v) \<and> i \<notin> moving v"
    and "i \<in> ran (page_table v) \<Longrightarrow> i \<notin> set (free_q v)"
    and "i < blocks v \<Longrightarrow> i \<notin> set (free_q v) \<Longrightarrow> i \<notin> moving v \<Longrightarrow>
      i \<in> set (if i \<in> marked v then dirty_q v else clean_q v)"
  using mrep_entry [OF assms, of i] by (auto simp: entry_ok_def)

lemma mrep_flags:
  assumes "mrep m v" and "i < blocks v"
  shows "allocated (ents m i) \<longleftrightarrow> i \<notin> set (free_q v)" and "pending (ents m i) \<longleftrightarrow> i \<in> moving v"
    and "i \<notin> set (free_q v) \<Longrightarrow> dirty_bit (ents m i) \<longleftrightarrow> i \<in> marked v"
  using mrep_entry [OF assms(1), of i] assms(2) by (auto simp: entry_ok_def)

lemma mrep_small:
  assumes "mrep m v"
    and "i \<in> set (free_q v) \<union> set (clean_q v) \<union> set (dirty_q v) \<union> moving v \<union> marked v \<union> ran (page_table v)"
  shows "i < blocks v" and "i \<noteq> INDEXER_NULL"
proof -
  show "i < blocks v"
    using assms(2) mrep_entry [OF assms(1), of i] by (elim UnE) (simp_all add: entry_ok_def)
  then have "i < CACHE_BLOCK_NUMBER"
    using assms(1) by (auto simp: mrep_def mstruct_def)
  then show "i \<noteq> INDEXER_NULL" by (rule small_not_null)
qed

lemma to_entry_small: "i \<noteq> INDEXER_NULL \<Longrightarrow> to_entry i = Some i"
  by (simp add: to_entry_def)

lemma infer_cblock_id: "mstruct m F C D H \<Longrightarrow> infer_cblock m e = e"
  by (simp add: infer_cblock_def get_index_def mstruct_def)

lemma lock_mapping_free [simp]:
  "unlocked (mapping_lock m) \<Longrightarrow>
    lock_mapping m = Some (m\<lparr>mapping_lock := (mapping_lock m)\<lparr>locked := 1\<rparr>\<rparr>)"
  by (simp add: lock_mapping_def)

lemma unlock_mapping_simps [simp]:
  "ents (unlock_mapping m) = ents m" "wq (unlock_mapping m) = wq m"
  "cache_block_num (unlock_mapping m) = cache_block_num m"
  "block_per_cblock_shift (unlock_mapping m) = block_per_cblock_shift m"
  by (simp_all add: unlock_mapping_def)

lemma upd_entry_ents [simp]:
  "ents (upd_entry f e m) e = f (ents m e)" "i \<noteq> e \<Longrightarrow> ents (upd_entry f e m) i = ents m i"
  by (simp_all add: upd_entry_def)

lemma upd_entry_keys [simp]:
  "entry_key (ents (upd_entry (entry_set_pending b) e m) i) = entry_key (ents m i)"
  "entry_key (ents (upd_entry (entry_set_dirty b) e m) i) = entry_key (ents m i)"
  by (cases "i = e"; simp)+

lemma upd_entry_apply: "ents (upd_entry f e m) i = (if i = e then f (ents m e) else ents m i)"
  by (simp add: upd_entry_def upd_apply)

text \<open>
  Closing an operation on block \<open>e\<close>: its effect on the structure, on the flags of \<open>e\<close>, on the keys
  and on the work queue. All other blocks keep their flags and their role.
\<close>

lemma mrep_close:
  assumes rep: "mrep m v"
    and struct: "mstruct m' (free_q v') (clean_q v') (dirty_q v') (ran (page_table v'))"
    and num: "cache_block_num m' = cache_block_num m" "block_per_cblock_shift m' = block_per_cblock_shift m"
    and flags: "\<And>i. i \<noteq> e \<Longrightarrow> same_flags (ents m' i) (ents m i)"
    and role: "\<And>i. i \<noteq> e \<Longrightarrow> same_role i v v'"
    and ok: "entry_ok (ents m' e) e v'" and blocks: "blocks v' = blocks v" "cblock_shift v' = cblock_shift v"
    and keys: "\<And>i. entry_key (ents m' i) = key_of v' i" "keyed (page_table v') (key_of v')"
    and queue: "wq_inv (wq m')" "wq_keys (wq m') = work_list v'"
  shows "mrep (unlock_mapping m') v'"
proof -
  have "entry_ok (ents m' i) i v'" for i
  proof (cases "i = e")
    case False
    from mrep_entry [OF rep] have "entry_ok (ents m' i) i v"
      by (simp add: entry_ok_cong [OF flags [OF False]])
    then show ?thesis by (simp add: entry_ok_role [OF role [OF False]])
  qed (simp add: ok)
  with struct num keys queue blocks mrep_fields(1,7) [OF rep] show ?thesis
    by (simp add: mrep_def unlock_mapping_def)
qed

end
