(* ===== verification/MappingOps.thy ===== *)
theory MappingOps
  imports MappingRep
begin

text \<open>
  The operations of the cache mapping implement the operations of the view: each one returns on an
  unlocked mapping, with the result the view gives, and leaves an unlocked mapping that represents
  the new view.
\<close>

definition yields :: "(mapping \<times> 'a) option \<Rightarrow> cache_view \<times> 'a \<Rightarrow> bool" where
  "yields r s \<longleftrightarrow> (\<exists>m. r = Some (m, snd s) \<and> mrep m (fst s))"

definition becomes :: "mapping option \<Rightarrow> cache_view \<Rightarrow> bool" where
  "becomes r v \<longleftrightarrow> (\<exists>m. r = Some m \<and> mrep m v)"

lemma yieldsI [intro]: "mrep m (fst s) \<Longrightarrow> x = snd s \<Longrightarrow> yields (Some (m, x)) s"
  by (simp add: yields_def)

lemma becomesI [intro]: "mrep m v \<Longrightarrow> becomes (Some m) v"
  by (simp add: becomes_def)

section \<open>Under the lock\<close>

abbreviation locked_mapping :: "mapping \<Rightarrow> mapping" where
  "locked_mapping m \<equiv> m\<lparr>mapping_lock := (mapping_lock m)\<lparr>locked := 1\<rparr>\<rparr>"

lemma mrep_lock_mapping: "mrep m v \<Longrightarrow> lock_mapping m = Some (locked_mapping m)"
  by (simp add: mrep_fields)

lemma mrep_unlock_locked: "mrep m v \<Longrightarrow> unlock_mapping (locked_mapping m) = m"
  using mrep_fields(3) [of m v] by (simp add: unlock_mapping_def)

lemma mrep_locked_struct:
  "mrep m v \<Longrightarrow> mstruct (locked_mapping m) (free_q v) (clean_q v) (dirty_q v) (ran (page_table v))"
  by (simp add: mrep_struct)

lemma mrep_locked:
  assumes "mrep m v"
  obtains m0 where "lock_mapping m = Some m0" "unlock_mapping m0 = m"
    "mstruct m0 (free_q v) (clean_q v) (dirty_q v) (ran (page_table v))"
    "ents m0 = ents m" "wq m0 = wq m" "cache_block_num m0 = blocks v"
    "block_per_cblock_shift m0 = block_per_cblock_shift m"
  by (rule that [of "locked_mapping m"])
    (use assms in \<open>simp_all add: mrep_lock_mapping mrep_unlock_locked mrep_struct mrep_fields(1)\<close>)

text \<open>The counters and the lock of the mapping are no part of the view.\<close>

lemma mrep_unlock_same:
  assumes "mrep m v" and "mstruct m' (free_q v) (clean_q v) (dirty_q v) (ran (page_table v))"
    and "same_data m m'" and "cache_block_num m' = cache_block_num m" and "wq m' = wq m"
    and "block_per_cblock_shift m' = block_per_cblock_shift m"
  shows "mrep (unlock_mapping m') v"
proof (rule mrep_close [OF assms(1,2,4,6), where e = 0])
  have "param (ents m' i) = param (ents m i)" for i
    using assms(3) by (simp add: same_data_def)
  then show "entry_ok (ents m' 0) 0 v"
    using entry_ok_cong [OF same_flags_param] mrep_entry [OF assms(1)] by blast
  show "same_flags (ents m' i) (ents m i)" for i
    using assms(3) by (simp add: same_data_def same_flags_param)
  show "entry_key (ents m' i) = key_of v i" for i
    using assms(3) mrep_fields(2) [OF assms(1)] by (simp add: same_data_def)
qed (simp_all add: assms(5) mrep_fields [OF assms(1)] same_role_def)

lemma nr_elts_length:
  assumes "mstruct m F C D H"
  shows "unat (nr_elts (clean m)) = length C" "nr_elts (dirty m) = 0 \<longleftrightarrow> D = []"
  using assms nr_elts_rep [of "ents m" "clean m" C] nr_elts_rep [of "ents m" "dirty m" D]
    unat_eq_zero [of "nr_elts (dirty m)"]
  by (auto simp: mstruct_def)

lemma allocator_empty_struct: "mstruct m F C D H \<Longrightarrow> allocator_empty (ea m) \<longleftrightarrow> F = []"
  unfolding mstruct_def using allocator_empty_rep by blast

lemma same_env_fields:
  assumes "same_env m m'"
  shows "cache_block_num m' = cache_block_num m" "mapping_lock m' = mapping_lock m" "wq m' = wq m"
    "block_per_cblock_shift m' = block_per_cblock_shift m"
  using assms by (simp_all add: same_env_def)

section \<open>A new entry\<close>

text \<open>
  The head of the free list, taken, flagged by \<open>g\<close> and named: the common part of a promotion and of
  an insertion.
\<close>

lemma take_set_key:
  assumes rep: "mrep m v" and free: "free_q v = e # F" and len: "length p \<le> MAX_PATH_SIZE"
    and mstruct: "mstruct m0 (free_q v) (clean_q v) (dirty_q v) (ran (page_table v))" and data: "same_data m m0"
    and g: "\<And>m F C D H. mstruct m F C D H \<Longrightarrow> mstruct (g m) F C D H" "\<And>m. same_env m (g m)"
      "\<And>m i. i \<noteq> e \<Longrightarrow> ents (g m) i = ents m i" "\<And>m. entry_key (ents (g m) e) = entry_key (ents m e)"
  obtains m1 m2 where "take_entry m0 = Some (m1, e)" "set_key e p c (g m1) = Some m2"
    "mstruct m2 F (clean_q v) (dirty_q v) (ran (page_table v))" "same_env m0 m2"
    "\<And>i. i \<noteq> e \<Longrightarrow> param (ents m2 i) = param (ents m i)"
    "param (ents m2 e) = param (ents (g m1) e)"
    "allocated (ents m1 e)" "\<not> pending (ents m1 e)" "\<not> dirty_bit (ents m1 e)"
    "\<And>i. entry_key (ents m2 i) = ((key_of v)(e := (p, c))) i"
    "infer_cblock m2 e = e"
proof -
  note struct = mstruct [unfolded free]
  have e: "e \<notin> ran (page_table v)" using mrep_roles(2) [OF rep, of e] free by simp
  obtain m1 where m1: "take_entry m0 = Some (m1, e)"
    "mstruct m1 F (clean_q v) (dirty_q v) (ran (page_table v))" "same_env m0 m1"
    "\<And>i. param (ents m1 i) = (if i = e then param (entry_set_alloc True (init_entry (ents m0 e)))
      else param (ents m0 i))"
    "\<And>i. i \<noteq> e \<Longrightarrow> entry_key (ents m1 i) = entry_key (ents m0 i)"
    by (rule take_entry_struct [OF struct e]) (rule that)
  obtain m2 where m2: "set_key e p c (g m1) = Some m2"
    "mstruct m2 F (clean_q v) (dirty_q v) (ran (page_table v))" "same_env (g m1) m2"
    "\<And>i. param (ents m2 i) = param (ents (g m1) i)"
    "\<And>i. entry_key (ents m2 i) = (if i = e then (p, c) else entry_key (ents (g m1) i))"
    by (rule set_key_struct [OF g(1) [OF m1(2)] e len]) (rule that)
  have "same_env m0 m2" using m1(3) g(2) m2(3) same_env_trans by blast
  moreover have "param (ents m2 i) = param (ents m i)" if "i \<noteq> e" for i
    using m1(4) [of i] m2(4) [of i] g(3) that data by (simp add: same_data_def)
  moreover have "entry_key (ents m2 i) = ((key_of v)(e := (p, c))) i" for i
    using m1(5) [of i] m2(5) [of i] g(3) [of i] mrep_fields(2) [OF rep] data by (simp add: same_data_def)
  ultimately show ?thesis
    using that m1(1) m2(1,2) m2(4) [of e] infer_cblock_id [OF m2(2)] flags_cong [OF m1(4) [of e, simplified]]
    by simp
qed

section \<open>Promotion\<close>

lemma promotion_start_sim:
  assumes rep: "mrep m v" and len: "length p \<le> MAX_PATH_SIZE"
  shows "yields (promotion_free_to_clean m p c) (v_promotion_start (p, c) v)"
proof (cases "free_q v")
  case Nil
  with rep allocator_empty_struct [OF mrep_locked_struct [OF rep]] show ?thesis
    by (auto simp: promotion_free_to_clean_def v_promotion_start_def mrep_lock_mapping mrep_unlock_locked)
next
  case (Cons e F)
  note struct = mrep_locked_struct [OF rep, unfolded Cons]
  note roles = mrep_roles(2) [OF rep, of e, unfolded Cons, simplified]
  have small: "e < blocks v" using mrep_small [OF rep, of e] Cons by simp
  have fresh: "e \<notin> set F" "e \<notin> set (clean_q v)" "e \<notin> set (dirty_q v)"
    using struct mstruct_lists(1) [OF struct] by (auto simp: mstruct_def)
  let ?g = "\<lambda>m. upd_entry (entry_set_dirty False) e (upd_entry (entry_set_pending True) e m)"
  let ?v' = "v\<lparr>free_q := F, moving := insert e (moving v), key_of := (key_of v)(e := (p, c))\<rparr>"
  have g: "\<And>m F C D H. mstruct m F C D H \<Longrightarrow> mstruct (?g m) F C D H" "\<And>m. same_env m (?g m)"
    "\<And>m i. i \<noteq> e \<Longrightarrow> ents (?g m) i = ents m i" "\<And>m. entry_key (ents (?g m) e) = entry_key (ents m e)"
    by (simp_all add: upd_entry_apply) (rule same_env_trans [OF same_env_prims(1) same_env_prims(1)])
  obtain m1 m2 where m2: "take_entry (locked_mapping m) = Some (m1, e)" "set_key e p c (?g m1) = Some m2"
    "mstruct m2 F (clean_q v) (dirty_q v) (ran (page_table v))" "same_env (locked_mapping m) m2"
    "\<And>i. i \<noteq> e \<Longrightarrow> param (ents m2 i) = param (ents m i)"
    "param (ents m2 e) = param (ents (?g m1) e)"
    "allocated (ents m1 e)" "\<not> pending (ents m1 e)" "\<not> dirty_bit (ents m1 e)"
    "\<And>i. entry_key (ents m2 i) = ((key_of v)(e := (p, c))) i"
    "infer_cblock m2 e = e"
    by (rule take_set_key [where g = ?g, OF rep Cons len mrep_locked_struct [OF rep] _ g]) (simp add: same_data_def, (assumption | rule that)+)
  have "mrep (unlock_mapping m2) ?v'"
  proof (rule mrep_close [OF rep, where e = e])
    show "entry_ok (ents m2 e) e ?v'"
      using flags_cong [OF m2(6)] m2(7-9) fresh roles small by (simp add: entry_ok_def upd_entry_apply)
    show "same_role i v ?v'" if "i \<noteq> e" for i using that Cons by (simp add: same_role_def)
  qed (use m2 same_env_fields [OF m2(4)] mrep_fields [OF rep] roles in \<open>simp_all add: same_flags_param\<close>)
  with Cons m2(1,2,11) allocator_empty_struct [OF struct]
  show ?thesis
    by (auto simp: promotion_free_to_clean_def v_promotion_start_def mrep_lock_mapping [OF rep])
qed

lemma mrep_to_entry: "mrep m v \<Longrightarrow> e \<in> moving v \<Longrightarrow> to_entry e = Some e"
  using mrep_small(2) [of m v e] to_entry_small by simp

lemma promotion_complete_sim:
  assumes rep: "mrep m v" and e: "e \<in> moving v" and unhashed: "e \<notin> ran (page_table v)"
    and new: "page_table v (key_of v e) = None"
  shows "becomes (promotion_complete m e success) (v_promotion_complete e success v)"
proof -
  let ?m1 = "upd_entry (entry_set_pending False) e (locked_mapping m)"
  have struct: "mstruct ?m1 (free_q v) (clean_q v) (dirty_q v) (ran (page_table v))"
    using mrep_locked_struct [OF rep] by simp
  have small: "e < blocks v" "e \<noteq> INDEXER_NULL" using mrep_small [OF rep, of e] e by simp_all
  note roles = mrep_roles(1) [OF rep e]
  note ok = mrep_entry [OF rep, of e, unfolded entry_ok_def]
  show ?thesis
  proof (cases success)
    case True
    let ?m2 = "?m1\<lparr>promotion_time := promotion_time ?m1 + 1\<rparr>"
    let ?m = "queue_add_tail e (hash_insert e ?m2)"
    let ?pt = "(page_table v)(key_of v e \<mapsto> e)"
    have "\<forall>i \<in> ran (page_table v). key_of v i \<noteq> key_of v e"
      using new mrep_lookup [OF rep] by (force simp: ran_def)
    then have "mstruct (hash_insert e ?m2) (free_q v) (clean_q v) (dirty_q v) (insert e (ran (page_table v)))"
      using struct unhashed small mrep_fields(2) [OF rep] by (intro hash_insert_struct) (auto simp: upd_entry_apply)
    from queue_add_tail_struct [OF this roles small(2)]
    have "mrep (unlock_mapping ?m) (v_promotion_complete e True v)"
      by (intro mrep_close [OF rep, where e = e])
        (use ok small e new unhashed mrep_fields [OF rep] in
          \<open>auto simp: v_promotion_complete_def v_enqueue_tail_def same_role_def same_flags_def entry_ok_def\<close>)
    with True show ?thesis
      by (simp add: promotion_complete_def mrep_lock_mapping [OF rep] mrep_to_entry [OF rep e] becomes_def Let_def)
  next
    case False
    from release_entry_struct [OF struct roles small(2)]
    have "mrep (unlock_mapping (release_entry e ?m1)) (v_promotion_complete e False v)"
      by (intro mrep_close [OF rep, where e = e])
        (use ok small e unhashed mrep_fields [OF rep] in
          \<open>auto simp: v_promotion_complete_def v_release_def same_role_def same_flags_def entry_ok_def\<close>)
    with False show ?thesis
      by (simp add: promotion_complete_def mrep_lock_mapping [OF rep] mrep_to_entry [OF rep e] becomes_def Let_def)
  qed
qed

section \<open>Demotion\<close>

lemma half_blocks:
  assumes "mstruct m F C D H"
  shows "nr_elts (clean m) \<le> drop_bit 1 (cache_block_num m) \<longleftrightarrow> length C \<le> unat (cache_block_num m) div 2"
  using nr_elts_length(1) [OF assms] by (simp add: word_le_nat_alt drop_bit_eq_div unat_div)

lemma clean_head:
  assumes "mstruct m F C D H" and "C \<noteq> []"
  shows "l_head (clean m) = Some (hd C)"
  using assms l_head_rep [of "ents m" "clean m" C] by (simp add: mstruct_def)

lemma clean_del: "\<not> dirty_bit (ents m e) \<Longrightarrow>
    (case l_del (ents m) (clean m) e of (s, l) \<Rightarrow> set_ents s (m\<lparr>clean := l\<rparr>)) = queue_del e m"
  by (simp add: queue_del_def)

lemma demotion_start_sim:
  assumes rep: "mrep m v"
  shows "yields (demotion_clean_to_free m) (v_demotion_start v)"
proof (rule mrep_locked [OF rep])
  fix m0
  assume lock: "lock_mapping m = Some m0" "unlock_mapping m0 = m"
    and struct: "mstruct m0 (free_q v) (clean_q v) (dirty_q v) (ran (page_table v))"
    and same: "ents m0 = ents m" "wq m0 = wq m" "cache_block_num m0 = blocks v"
      "block_per_cblock_shift m0 = block_per_cblock_shift m"
  note half = half_blocks [OF struct, unfolded same]
  show ?thesis
  proof (cases "length (clean_q v) \<le> unat (blocks v) div 2")
    case True
    with half rep show ?thesis
      by (simp add: demotion_clean_to_free_def v_demotion_start_def lock same yields_def)
  next
    case False
    then obtain e C where C: "clean_q v = e # C" by (cases "clean_q v") simp_all
    have small: "e < blocks v" using mrep_small [OF rep, of e] C by simp
    have roles: "e \<notin> marked v" "e \<in> ran (page_table v)" "e \<notin> moving v"
      using mrep_roles(3) [OF rep, of e] C by simp_all
    note ok = mrep_entry [OF rep, of e, unfolded entry_ok_def C]
    have clean: "\<not> dirty_bit (ents m0 e)" using ok by (simp add: same)
    have fresh: "e \<notin> set C" using mstruct_lists(2) [OF struct] C by simp
    let ?m = "upd_entry (entry_set_pending True) e (queue_del e m0)"
    have struct': "mstruct ?m (free_q v) C (dirty_q v) (ran (page_table v))"
      using queue_del_struct [OF struct, of e] clean C by simp
    have "mrep (unlock_mapping ?m) (v\<lparr>clean_q := C, moving := insert e (moving v)\<rparr>)"
      by (rule mrep_close [OF rep, where e = e])
        (use struct' ok small roles fresh C same mrep_fields [OF rep] in
          \<open>auto simp: same_role_def same_flags_def entry_ok_def\<close>)
    with False half C infer_cblock_id [OF struct', of e] clean_del [of m0 e, OF clean] clean_head [OF struct]
    show ?thesis
      by (simp add: demotion_clean_to_free_def v_demotion_start_def lock same yields_def Let_def)
  qed
qed

lemma demotion_complete_sim:
  assumes rep: "mrep m v" and e: "e \<in> moving v" and hashed: "e \<in> ran (page_table v)"
  shows "becomes (demotion_complete m e success) (v_demotion_complete e success v)"
proof -
  let ?m1 = "upd_entry (entry_set_pending False) e (locked_mapping m)"
  have struct: "mstruct ?m1 (free_q v) (clean_q v) (dirty_q v) (ran (page_table v))"
    using mrep_locked_struct [OF rep] by simp
  have small: "e < blocks v" "e \<noteq> INDEXER_NULL" using mrep_small [OF rep, of e] e by simp_all
  note roles = mrep_roles(1) [OF rep e]
  note ok = mrep_entry [OF rep, of e, unfolded entry_ok_def]
  show ?thesis
  proof (cases success)
    case True
    let ?m2 = "?m1\<lparr>demotion_time := demotion_time ?m1 + 1\<rparr>"
    have "page_table v (key_of v e) = Some e"
      using hashed mrep_lookup [OF rep] by (auto simp: ran_def)
    then have ran: "ran ((page_table v)(key_of v e := None)) = ran (page_table v) - {e}"
      using ran_upd_None [OF mrep_fields(6) [OF rep]] by simp
    have "mstruct ?m2 (free_q v) (clean_q v) (dirty_q v) (ran (page_table v))" using struct by simp
    then show ?thesis
    proof (rule hash_remove_struct [OF _ hashed])
      fix m3
      assume m3: "hash_remove e ?m2 = Some m3"
        "mstruct m3 (free_q v) (clean_q v) (dirty_q v) (ran (page_table v) - {e})"
        "same_data ?m2 m3" "same_env ?m2 m3"
      have "mrep (unlock_mapping (release_entry e m3)) (v_demotion_complete e True v)"
        by (rule mrep_close [OF rep, where e = e])
          (use release_entry_struct [OF m3(2) roles small(2)] same_data_flags [OF m3(3)]
            same_env_fields [OF m3(4)] ok small e mrep_fields [OF rep] ran in
            \<open>auto simp: v_demotion_complete_def v_release_def same_role_def same_flags_def entry_ok_def\<close>)
      with True m3(1) show ?thesis
        by (simp add: demotion_complete_def mrep_lock_mapping [OF rep] mrep_to_entry [OF rep e]
            becomes_def Let_def)
    qed
  next
    case False
    from queue_add_tail_struct [OF struct roles small(2)]
    have "mrep (unlock_mapping (queue_add_tail e ?m1)) (v_demotion_complete e False v)"
      by (intro mrep_close [OF rep, where e = e])
        (use ok small e hashed mrep_fields [OF rep] in
          \<open>auto simp: v_demotion_complete_def v_enqueue_tail_def same_role_def same_flags_def entry_ok_def\<close>)
    with False show ?thesis
      by (simp add: demotion_complete_def mrep_lock_mapping [OF rep] mrep_to_entry [OF rep e]
          becomes_def Let_def)
  qed
qed

section \<open>Writeback\<close>

lemma dirty_del_struct:
  assumes "mstruct m F C D H" and "e \<in> set D" and del: "l_del (ents m) (dirty m) e = (s, l)"
  shows "mstruct (set_ents s (m\<lparr>dirty := l\<rparr>)) F C (remove1 e D) H"
    and "same_data m (set_ents s (m\<lparr>dirty := l\<rparr>))"
proof -
  from assms(1) have reps: "ilist_rep (ents m) (ea_free (ea m)) F" "ilist_rep (ents m) (clean m) C"
    "ilist_rep (ents m) (dirty m) D" and tab: "table (ents m) (htable m) H"
    and disj: "set D \<inter> set F = {}" "set D \<inter> set C = {}"
    by (auto simp: mstruct_def)
  show "mstruct (set_ents s (m\<lparr>dirty := l\<rparr>)) F C (remove1 e D) H"
    using assms(1) il.del_law [OF reps(3) assms(2) del] l_del_table [OF tab del]
      il.del_frame [OF reps(3) reps(1) disj(1) assms(2) del]
      il.del_frame [OF reps(3) reps(2) disj(2) assms(2) del]
    by (auto simp: mstruct_def dest: set_remove1_subset [THEN subsetD])
  show "same_data m (set_ents s (m\<lparr>dirty := l\<rparr>))"
    by (rule same_dataI_unlinked) (use l_del_unlinked [of "ents m" "dirty m" e] del in simp)
qed

lemma writeback_start_sim:
  assumes rep: "mrep m v"
  shows "yields (writeback_dirty_to_clean m) (v_writeback_start v)"
proof (rule mrep_locked [OF rep])
  fix m0
  assume lock: "lock_mapping m = Some m0" "unlock_mapping m0 = m"
    and struct: "mstruct m0 (free_q v) (clean_q v) (dirty_q v) (ran (page_table v))"
    and same: "ents m0 = ents m" "wq m0 = wq m" "cache_block_num m0 = blocks v"
      "block_per_cblock_shift m0 = block_per_cblock_shift m"
  show ?thesis
  proof (cases "dirty_q v")
    case Nil
    with nr_elts_length(2) [OF struct] rep show ?thesis
      by (simp add: writeback_dirty_to_clean_def v_writeback_start_def lock yields_def)
  next
    case (Cons e D)
    have small: "e < blocks v" using mrep_small [OF rep, of e] Cons by simp
    have roles: "e \<in> marked v" "e \<in> ran (page_table v)" "e \<notin> moving v"
      using mrep_roles(4) [OF rep, of e] Cons by simp_all
    note ok = mrep_entry [OF rep, of e, unfolded entry_ok_def Cons]
    have head: "l_head (dirty m0) = Some e"
      using struct l_head_rep [of "ents m0" "dirty m0" "dirty_q v"] Cons by (simp add: mstruct_def)
    have fresh: "e \<notin> set D" using mstruct_lists(3) [OF struct] Cons by simp
    let ?m1 = "upd_entry (entry_set_dirty False) e (upd_entry (entry_set_pending True) e m0)"
    obtain s l where del: "l_del (ents ?m1) (dirty ?m1) e = (s, l)" by fastforce
    let ?m = "set_ents s (?m1\<lparr>dirty := l\<rparr>)"
    have "mstruct ?m1 (free_q v) (clean_q v) (e # D) (ran (page_table v))" using struct Cons by simp
    note del_struct = dirty_del_struct [OF this _ del, simplified]
    have "mrep (unlock_mapping ?m) (v\<lparr>dirty_q := D, marked := marked v - {e}, moving := insert e (moving v)\<rparr>)"
      by (rule mrep_close [OF rep, where e = e])
        (use del_struct(1) same_data_flags [OF del_struct(2)] ok small roles fresh Cons same mrep_fields [OF rep] in
          \<open>auto simp: same_role_def same_flags_def entry_ok_def\<close>)
    with Cons nr_elts_length(2) [OF struct] infer_cblock_id [OF del_struct(1), of e] ok small del head
    show ?thesis
      by (simp add: writeback_dirty_to_clean_def v_writeback_start_def lock same yields_def Let_def)
  qed
qed

lemma writeback_complete_sim:
  assumes rep: "mrep m v" and e: "e \<in> moving v" and hashed: "e \<in> ran (page_table v)"
  shows "becomes (writeback_complete m e success) (v_writeback_complete e success v)"
proof -
  let ?m1 = "upd_entry (entry_set_pending False) e (locked_mapping m)"
  have struct: "mstruct ?m1 (free_q v) (clean_q v) (dirty_q v) (ran (page_table v))"
    using mrep_locked_struct [OF rep] by simp
  have small: "e < blocks v" "e \<noteq> INDEXER_NULL" using mrep_small [OF rep, of e] e by simp_all
  note roles = mrep_roles(1) [OF rep e]
  note ok = mrep_entry [OF rep, of e, unfolded entry_ok_def]
  show ?thesis
  proof (cases success)
    case True
    let ?m2 = "?m1\<lparr>writeback_time := writeback_time ?m1 + 1\<rparr>"
    have "mstruct ?m2 (free_q v) (clean_q v) (dirty_q v) (ran (page_table v))" using struct by simp
    from queue_add_tail_struct [OF this roles small(2)]
    have "mrep (unlock_mapping (queue_add_tail e ?m2)) (v_writeback_complete e True v)"
      by (intro mrep_close [OF rep, where e = e])
        (use ok small e hashed mrep_fields [OF rep] in
          \<open>auto simp: v_writeback_complete_def v_enqueue_tail_def same_role_def same_flags_def entry_ok_def\<close>)
    with True show ?thesis
      by (simp add: writeback_complete_def mrep_lock_mapping [OF rep] mrep_to_entry [OF rep e]
          becomes_def Let_def)
  next
    case False
    from queue_add_head_struct [OF struct roles small(2)]
    have "mrep (unlock_mapping (queue_add_head e ?m1)) (v_writeback_complete e False v)"
      by (intro mrep_close [OF rep, where e = e])
        (use ok small e hashed mrep_fields [OF rep] in
          \<open>auto simp: v_writeback_complete_def v_enqueue_head_def same_role_def same_flags_def entry_ok_def\<close>)
    with False show ?thesis
      by (simp add: writeback_complete_def mrep_lock_mapping [OF rep] mrep_to_entry [OF rep e]
          becomes_def Let_def)
  qed
qed

end
