(* ===== verification/MappingUse.thy ===== *)
theory MappingUse
  imports MappingOps
begin

text \<open>The operations the users call implement those of the view.\<close>

section \<open>Lookup\<close>

text \<open>The common start of the operations of the users: lock the mapping and search the page table.\<close>

lemma locked_lookup:
  assumes rep: "mrep m v"
  obtains m0 m1 where "lock_mapping m = Some m0" "hash_lookup p c m0 = Some (m1, page_table v (p, c))"
    "mstruct m1 (free_q v) (clean_q v) (dirty_q v) (ran (page_table v))"
    "same_data m m1" "wq m1 = wq m" "cache_block_num m1 = cache_block_num m"
    "block_per_cblock_shift m1 = block_per_cblock_shift m"
proof (rule mrep_locked [OF rep])
  fix m0
  assume lock: "lock_mapping m = Some m0"
    and struct: "mstruct m0 (free_q v) (clean_q v) (dirty_q v) (ran (page_table v))"
    and same: "ents m0 = ents m" "wq m0 = wq m" "cache_block_num m0 = blocks v"
      "block_per_cblock_shift m0 = block_per_cblock_shift m"
  show ?thesis
  proof (rule hash_lookup_struct [OF struct, of p c])
    fix m1 r
    assume look: "hash_lookup p c m0 = Some (m1, r)"
      "mstruct m1 (free_q v) (clean_q v) (dirty_q v) (ran (page_table v))" "same_data m0 m1" "same_env m0 m1"
      and r: "case r of None \<Rightarrow> \<forall>i \<in> ran (page_table v). entry_key (ents m0 i) \<noteq> (p, c)
        | Some e \<Rightarrow> e \<in> ran (page_table v) \<and> entry_key (ents m0 e) = (p, c)"
    have "page_table v (p, c) = r"
    proof (cases r)
      case None
      with r mrep_lookup [OF rep, of "(p, c)"] mrep_fields(2) [OF rep] same(1) show ?thesis
        by (cases "page_table v (p, c)") (auto simp: ran_def)
    next
      case (Some e)
      with r obtain k where "page_table v k = Some e" by (auto simp: ran_def)
      with Some r mrep_lookup [OF rep this] mrep_fields(2) [OF rep] same(1) show ?thesis by simp
    qed
    with look lock same show ?thesis
      by (intro that [of m0 m1])
        (simp_all add: same_data_def same_env_fields [OF look(4)] mrep_fields(1) [OF rep])
  qed
qed

lemma hit_sim:
  assumes rep: "mrep m v" and struct: "mstruct m1 (free_q v) (clean_q v) (dirty_q v) (ran (page_table v))"
    and data: "same_data m m1" and env: "wq m1 = wq m" "cache_block_num m1 = cache_block_num m"
      "block_per_cblock_shift m1 = block_per_cblock_shift m"
    and e: "e \<in> ran (page_table v)"
  shows "mrep (unlock_mapping (hit_entry e m1)) (v_hit e v)" and "infer_cblock (hit_entry e m1) e = e"
proof -
  let ?m2 = "m1\<lparr>hit_time := hit_time m1 + 1\<rparr>"
  have struct2: "mstruct ?m2 (free_q v) (clean_q v) (dirty_q v) (ran (page_table v))" using struct by simp
  have small: "e < blocks v" "e \<noteq> INDEXER_NULL" using mrep_small [OF rep, of e] e by simp_all
  have free: "e \<notin> set (free_q v)" using mrep_roles(5) [OF rep e] .
  have fl: "pending (ents m1 e) \<longleftrightarrow> e \<in> moving v" "dirty_bit (ents m1 e) \<longleftrightarrow> e \<in> marked v"
    using mrep_flags(2,3) [OF rep small(1)] free same_data_flags [OF data] by simp_all
  have "mrep (unlock_mapping (hit_entry e m1)) (v_hit e v) \<and> infer_cblock (hit_entry e m1) e = e"
  proof (cases "e \<in> moving v \<or> e \<in> marked v")
    case True
    then have "hit_entry e m1 = ?m2" "v_hit e v = v"
      using fl by (auto simp: hit_entry_def v_hit_def Let_def)
    moreover have "mrep (unlock_mapping ?m2) v"
      by (rule mrep_unlock_same [OF rep struct2]) (use data env in \<open>simp_all add: same_data_def\<close>)
    ultimately show ?thesis using infer_cblock_id [OF struct2] by simp
  next
    case False
    then have hit: "hit_entry e m1 = queue_add_tail e (queue_del e ?m2)"
      using fl by (simp add: hit_entry_def Let_def)
    note ok = mrep_entry [OF rep, of e, unfolded entry_ok_def]
    have clean: "e \<in> set (clean_q v)" "e \<notin> set (dirty_q v)"
      using mrep_roles(4) [OF rep, of e] mrep_roles(6) [OF rep small(1) free] False by auto
    have "mstruct (queue_del e ?m2) (free_q v) (remove1 e (clean_q v)) (dirty_q v) (ran (page_table v))"
      using queue_del_struct [OF struct2, of e] False fl clean by simp
    moreover have "e \<notin> set (remove1 e (clean_q v))"
      using mstruct_lists(2) [OF struct] by (simp add: set_remove1_distinct)
    ultimately have struct3: "mstruct (hit_entry e m1) (free_q v) (remove1 e (clean_q v) @ [e]) (dirty_q v)
        (ran (page_table v))"
      using queue_add_tail_struct [of "queue_del e ?m2" _ _ _ _ e] False fl clean free small hit by simp
    have "mrep (unlock_mapping (hit_entry e m1)) (v\<lparr>clean_q := remove1 e (clean_q v) @ [e]\<rparr>)"
      by (rule mrep_close [OF rep, where e = e])
        (use struct3 hit ok same_data_flags [OF data] clean env mrep_fields [OF rep] mstruct_lists(2) [OF struct] in
          \<open>auto simp: same_role_def same_flags_def entry_ok_def set_remove1_distinct\<close>)
    with False infer_cblock_id [OF struct3] show ?thesis
      by (simp add: v_hit_def v_enqueue_tail_def v_dequeue_def)
  qed
  then show "mrep (unlock_mapping (hit_entry e m1)) (v_hit e v)" "infer_cblock (hit_entry e m1) e = e"
    by simp_all
qed

text \<open>A miss leaves everything but the work queue as it is.\<close>

lemma miss_sim:
  assumes rep: "mrep m v" and struct: "mstruct m1 (free_q v) (clean_q v) (dirty_q v) (ran (page_table v))"
    and data: "same_data m m1" and num: "cache_block_num m1 = cache_block_num m" "block_per_cblock_shift m1 = block_per_cblock_shift m"
    and queue: "wq_inv q" "wq_keys q = ks"
  shows "mrep (unlock_mapping (m1\<lparr>miss_time := x, wq := q\<rparr>)) (v\<lparr>work_list := ks\<rparr>)"
proof (rule mrep_close [OF rep, where e = 0])
  let ?m = "m1\<lparr>miss_time := x, wq := q\<rparr>"
  have same: "same_flags (ents ?m i) (ents m i)" for i
    using same_data_flags [OF data] by (simp add: same_flags_def)
  then show "same_flags (ents ?m i) (ents m i)" for i .
  show "entry_ok (ents ?m 0) 0 (v\<lparr>work_list := ks\<rparr>)"
    using entry_ok_cong [OF same] mrep_entry [OF rep, of 0] entry_ok_role [of 0 v "v\<lparr>work_list := ks\<rparr>"]
    by (simp add: same_role_def)
qed (use struct num queue mrep_fields [OF rep] same_data_flags [OF data] in \<open>simp_all add: same_role_def\<close>)

lemma add_work_sim:
  assumes "mrep m v" and "length p \<le> MAX_PATH_SIZE"
  obtains q b where "insert_work (wq m) p c = Some (q, b)" "wq_inv q"
    "v_add_work (p, c) v = v\<lparr>work_list := wq_keys q\<rparr>"
proof -
  have inv: "wq_inv (wq m)" and keys: "wq_keys (wq m) = work_list v"
    using mrep_fields(4,5) [OF assms(1)] .
  have size: "wq_size (wq m) < MAX_WORKQUEUE_SIZE" using inv by (simp add: wq_inv_def)
  have len: "length (work_list v) = wq_size (wq m)" using keys length_wq_keys [of "wq m"] by simp
  show ?thesis
  proof (cases "wq_size (wq m) = MAX_WORKQUEUE_SIZE - 1 \<or> (p, c) \<in> set (work_list v)")
    case True
    with insert_work_spec [OF inv assms(2), of c] keys len inv show ?thesis
      by (intro that [of "wq m" False]) (auto simp: v_add_work_def)
  next
    case False
    then have less: "wq_size (wq m) < MAX_WORKQUEUE_SIZE - 1" using size by auto
    have "wq_inv (wq_append (wq m) (p, c))"
      using wq_inv_append [OF inv less] False assms(2) keys by simp
    with False insert_work_spec [OF inv assms(2), of c] keys len wq_keys_append [OF inv less, of "(p, c)"]
    show ?thesis
      by (intro that [of "wq_append (wq m) (p, c)" True]) (auto simp: v_add_work_def)
  qed
qed

lemma lookup_sim:
  assumes rep: "mrep m v" and len: "length p \<le> MAX_PATH_SIZE"
  shows "yields (lookup_mapping m p i) (v_lookup (p, to_cache_page_index i) v)"
proof (rule locked_lookup [OF rep, of p "to_cache_page_index i"])
  fix m0 m1
  assume lock: "lock_mapping m = Some m0"
    and look: "hash_lookup p (to_cache_page_index i) m0 = Some (m1, page_table v (p, to_cache_page_index i))"
    and m1: "mstruct m1 (free_q v) (clean_q v) (dirty_q v) (ran (page_table v))" "same_data m m1"
      "wq m1 = wq m" "cache_block_num m1 = cache_block_num m"
      "block_per_cblock_shift m1 = block_per_cblock_shift m"
  show ?thesis
  proof (cases "page_table v (p, to_cache_page_index i)")
    case None
    obtain q b where q: "insert_work (wq m) p (to_cache_page_index i) = Some (q, b)" "wq_inv q"
      "v_add_work (p, to_cache_page_index i) v = v\<lparr>work_list := wq_keys q\<rparr>"
      using add_work_sim [OF rep len] .
    with None miss_sim [OF rep m1(1,2,4,5) q(2) refl] m1(3) lock look show ?thesis
      by (simp add: lookup_mapping_def v_lookup_def yields_def Let_def)
  next
    case (Some e)
    then have "e \<in> ran (page_table v)" by (auto simp: ran_def)
    with Some hit_sim [OF rep m1] lock look show ?thesis
      by (simp add: lookup_mapping_def v_lookup_def yields_def Let_def)
  qed
qed

section \<open>Lookup with insertion\<close>

lemma new_dirty_sim:
  assumes rep: "mrep m v" and len: "length p \<le> MAX_PATH_SIZE" and free: "free_q v = e # F"
    and struct: "mstruct m0 (free_q v) (clean_q v) (dirty_q v) (ran (page_table v))" and data: "same_data m m0"
    and env: "wq m0 = wq m" "cache_block_num m0 = cache_block_num m"
      "block_per_cblock_shift m0 = block_per_cblock_shift m"
    and new: "page_table v (p, c) = None"
  obtains m1 m2 where "take_entry m0 = Some (m1, e)"
    "set_key e p c (upd_entry (entry_set_dirty True) e m1) = Some m2"
    "infer_cblock (queue_add_tail e (hash_insert e m2)) e = e"
    "mrep (unlock_mapping (queue_add_tail e (hash_insert e m2)))
      (v\<lparr>free_q := F, dirty_q := dirty_q v @ [e], marked := insert e (marked v),
         page_table := (page_table v)((p, c) \<mapsto> e), key_of := (key_of v)(e := (p, c))\<rparr>)"
proof -
  let ?g = "\<lambda>m. upd_entry (entry_set_dirty True) e m"
  have small: "e < blocks v" "e \<noteq> INDEXER_NULL" using mrep_small [OF rep, of e] free by simp_all
  note roles = mrep_roles(2) [OF rep, of e, unfolded free, simplified]
  have fresh: "e \<notin> set F" "e \<notin> set (clean_q v)" "e \<notin> set (dirty_q v)"
    using struct mstruct_lists(1) [OF struct] free by (auto simp: mstruct_def)
  have g: "\<And>m F C D H. mstruct m F C D H \<Longrightarrow> mstruct (?g m) F C D H" "\<And>m. same_env m (?g m)"
    "\<And>m i. i \<noteq> e \<Longrightarrow> ents (?g m) i = ents m i" "\<And>m. entry_key (ents (?g m) e) = entry_key (ents m e)"
    by simp_all
  obtain m1 m2 where m2: "take_entry m0 = Some (m1, e)" "set_key e p c (?g m1) = Some m2"
    "mstruct m2 F (clean_q v) (dirty_q v) (ran (page_table v))" "same_env m0 m2"
    "\<And>i. i \<noteq> e \<Longrightarrow> param (ents m2 i) = param (ents m i)"
    "param (ents m2 e) = param (ents (?g m1) e)"
    "allocated (ents m1 e)" "\<not> pending (ents m1 e)" "\<not> dirty_bit (ents m1 e)"
    "\<And>i. entry_key (ents m2 i) = ((key_of v)(e := (p, c))) i"
    "infer_cblock m2 e = e"
    by (rule take_set_key [where g = ?g, OF rep free len struct data g]) (assumption | rule that)+
  have flags: "allocated (ents m2 e)" "\<not> pending (ents m2 e)" "dirty_bit (ents m2 e)"
    using flags_cong [OF m2(6)] m2(7-9) by simp_all
  have "\<forall>i \<in> ran (page_table v). key_of v i \<noteq> (p, c)"
    using new mrep_lookup [OF rep] by (force simp: ran_def)
  then have "mstruct (hash_insert e m2) F (clean_q v) (dirty_q v) (insert e (ran (page_table v)))"
    using m2(3,10) roles small by (intro hash_insert_struct) auto
  from queue_add_tail_struct [OF this _ small(2)] fresh flags
  have struct': "mstruct (queue_add_tail e (hash_insert e m2)) F (clean_q v) (dirty_q v @ [e])
      (insert e (ran (page_table v)))" by simp
  have ran: "ran ((page_table v)((p, c) \<mapsto> e)) = insert e (ran (page_table v))"
    using new by simp
  show ?thesis
  proof (rule that [OF m2(1,2) infer_cblock_id [OF struct']], rule mrep_close [OF rep, where e = e])
    fix i assume "i \<noteq> e"
    then show "same_flags (ents (queue_add_tail e (hash_insert e m2)) i) (ents m i)"
      using m2(5) flags_cong [of "ents m2 i" "ents m i"] by (simp add: same_flags_def)
  qed (use struct' flags m2(4,10) same_env_fields [OF m2(4)] env roles small fresh free new mrep_fields [OF rep] ran in
      \<open>auto simp: same_role_def entry_ok_def\<close>)
qed

lemma insert_sim:
  assumes rep: "mrep m v" and len: "length p \<le> MAX_PATH_SIZE"
  shows "yields (lookup_mapping_with_insert m p i) (v_insert (p, to_cache_page_index i) v)"
proof (rule locked_lookup [OF rep, of p "to_cache_page_index i"])
  let ?c = "to_cache_page_index i"
  fix m0 m1
  assume lock: "lock_mapping m = Some m0"
    and look: "hash_lookup p ?c m0 = Some (m1, page_table v (p, ?c))"
    and m1: "mstruct m1 (free_q v) (clean_q v) (dirty_q v) (ran (page_table v))" "same_data m m1"
      "wq m1 = wq m" "cache_block_num m1 = cache_block_num m"
      "block_per_cblock_shift m1 = block_per_cblock_shift m"
  let ?m2 = "m1\<lparr>miss_time := miss_time m1 + 1, wq := wq m\<rparr>"
  have m2: "mstruct ?m2 (free_q v) (clean_q v) (dirty_q v) (ran (page_table v))" "same_data m ?m2"
    "wq ?m2 = wq m" "cache_block_num ?m2 = cache_block_num m"
    "block_per_cblock_shift ?m2 = block_per_cblock_shift m"
    using m1 by (simp_all add: same_data_def)
  note queue = mrep_fields(4,5) [OF rep]
  have queued: "contains_work (wq m) p ?c = Some (wq m, v_queued p ?c v)"
    using contains_work_spec [OF queue(1), of p ?c] queue(2) by (auto simp: v_queued_def)
  show ?thesis
  proof (cases "page_table v (p, ?c)")
    case (Some e)
    then have "e \<in> ran (page_table v)" by (auto simp: ran_def)
    with Some hit_sim [OF rep m1] lock look show ?thesis
      by (simp add: lookup_mapping_with_insert_def v_insert_def yields_def Let_def)
  next
    case None
    show ?thesis
    proof (cases "v_queued p ?c v")
      case True
      with None miss_sim [OF rep m1(1,2,4,5) queue] m1(3) lock look queued show ?thesis
        by (simp add: lookup_mapping_with_insert_def v_insert_def yields_def Let_def)
    next
      case new: False
      show ?thesis
      proof (cases "free_q v")
        case Nil
        obtain q b where q: "insert_work (wq m) p ?c = Some (q, b)" "wq_inv q"
          "v_add_work (p, ?c) v = v\<lparr>work_list := wq_keys q\<rparr>"
          using add_work_sim [OF rep len] .
        with None new Nil miss_sim [OF rep m1(1,2,4,5) q(2) refl] m1(3) lock look queued
          allocator_empty_struct [OF m1(1)]
        show ?thesis
          by (simp add: lookup_mapping_with_insert_def v_insert_def yields_def Let_def)
      next
        case (Cons e F)
        from new_dirty_sim [OF rep len Cons m2 None]
        obtain m3 m4 where "take_entry ?m2 = Some (m3, e)"
          "set_key e p ?c (upd_entry (entry_set_dirty True) e m3) = Some m4"
          "infer_cblock (queue_add_tail e (hash_insert e m4)) e = e"
          "mrep (unlock_mapping (queue_add_tail e (hash_insert e m4)))
            (v\<lparr>free_q := F, dirty_q := dirty_q v @ [e], marked := insert e (marked v),
               page_table := (page_table v)((p, ?c) \<mapsto> e), key_of := (key_of v)(e := (p, ?c))\<rparr>)" .
        with None new Cons m1(3) lock look queued allocator_empty_struct [OF m1(1)]
        show ?thesis
          by (simp add: lookup_mapping_with_insert_def v_insert_def yields_def Let_def)
      qed
    qed
  qed
qed

section \<open>Removal\<close>

text \<open>The entry must not be in a transfer: the code takes it out of a list without asking.\<close>

lemma remove_sim:
  assumes rep: "mrep m v"
    and still: "\<And>e. page_table v (p, to_cache_page_index i) = Some e \<Longrightarrow> e \<notin> moving v"
  shows "yields (remove_mapping m p i) (v_remove (p, to_cache_page_index i) v)"
proof (rule locked_lookup [OF rep, of p "to_cache_page_index i"])
  let ?k = "(p, to_cache_page_index i)"
  fix m0 m1
  assume lock: "lock_mapping m = Some m0"
    and look: "hash_lookup p (to_cache_page_index i) m0 = Some (m1, page_table v ?k)"
    and m1: "mstruct m1 (free_q v) (clean_q v) (dirty_q v) (ran (page_table v))" "same_data m m1"
      "wq m1 = wq m" "cache_block_num m1 = cache_block_num m"
      "block_per_cblock_shift m1 = block_per_cblock_shift m"
  show ?thesis
  proof (cases "page_table v ?k")
    case None
    with mrep_unlock_same [OF rep m1(1,2,4,3,5)] lock look show ?thesis
      by (simp add: remove_mapping_def v_remove_def yields_def)
  next
    case (Some e)
    then have hashed: "e \<in> ran (page_table v)" by (auto simp: ran_def)
    have small: "e < blocks v" "e \<noteq> INDEXER_NULL" using mrep_small [OF rep, of e] hashed by simp_all
    have free: "e \<notin> set (free_q v)" using mrep_roles(5) [OF rep hashed] .
    note ok = mrep_entry [OF rep, of e, unfolded entry_ok_def]
    have fl: "dirty_bit (ents m1 e) \<longleftrightarrow> e \<in> marked v"
      using mrep_flags(3) [OF rep small(1) free] same_data_flags [OF m1(2)] by simp
    have queued: "e \<in> set (if e \<in> marked v then dirty_q v else clean_q v)"
      "e \<notin> set (if e \<in> marked v then clean_q v else dirty_q v)"
      using ok small free still [OF Some] by auto
    note distinct = mstruct_lists [OF m1(1)]
    let ?C = "if e \<in> marked v then clean_q v else remove1 e (clean_q v)"
    let ?D = "if e \<in> marked v then remove1 e (dirty_q v) else dirty_q v"
    have del: "mstruct (queue_del e m1) (free_q v) ?C ?D (ran (page_table v))"
      using queue_del_struct [OF m1(1), of e] queued fl by simp
    have gone: "e \<notin> set (free_q v) \<union> set ?C \<union> set ?D"
      using queued free distinct by (auto simp: set_remove1_distinct)
    have ran: "ran ((page_table v)(?k := None)) = ran (page_table v) - {e}"
      using ran_upd_None [OF mrep_fields(6) [OF rep] Some] .
    show ?thesis
    proof (rule hash_remove_struct [OF del hashed])
      fix m3
      assume m3: "hash_remove e (queue_del e m1) = Some m3"
        "mstruct m3 (free_q v) ?C ?D (ran (page_table v) - {e})"
        "same_data (queue_del e m1) m3" "same_env (queue_del e m1) m3"
      have "mrep (unlock_mapping (release_entry e m3)) (fst (v_remove ?k v))"
        by (rule mrep_close [OF rep, where e = e])
          (use release_entry_struct [OF m3(2) gone small(2)] same_data_flags [OF m3(3)]
            same_data_flags [OF m1(2)] m1(3,4,5) same_env_fields [OF m3(4)] ok small free gone distinct
            hashed still [OF Some] mrep_fields [OF rep] ran Some in
            \<open>auto simp: v_remove_def v_release_def v_dequeue_def same_role_def same_flags_def entry_ok_def
              set_remove1_distinct\<close>)
      with Some m3(1) lock look show ?thesis
        by (simp add: remove_mapping_def v_remove_def yields_def Let_def)
    qed
  qed
qed

section \<open>Marking\<close>

lemma set_dirty_sim:
  assumes rep: "mrep m v" and e: "e < blocks v"
  shows "becomes (set_dirty_after_write m e d) (v_set_dirty e v)"
proof (rule mrep_locked [OF rep])
  fix m0
  assume lock: "lock_mapping m = Some m0" "unlock_mapping m0 = m"
    and struct: "mstruct m0 (free_q v) (clean_q v) (dirty_q v) (ran (page_table v))"
    and same: "ents m0 = ents m" "wq m0 = wq m" "cache_block_num m0 = blocks v"
      "block_per_cblock_shift m0 = block_per_cblock_shift m"
  have null: "e \<noteq> INDEXER_NULL"
    by (rule small_not_null) (use e struct same(3) in \<open>auto simp: mstruct_def\<close>)
  note ok = mrep_entry [OF rep, of e, unfolded entry_ok_def]
  note flags = mrep_flags [OF rep e]
  note distinct = mstruct_lists [OF struct]
  show ?thesis
  proof (cases "e \<in> set (free_q v)")
    case True
    with flags(1) rep show ?thesis
      by (simp add: set_dirty_after_write_def v_set_dirty_def lock same becomes_def
          to_entry_small [OF null])
  next
    case free: False
    show ?thesis
    proof (cases "e \<in> moving v")
      case True
      let ?m = "upd_entry (entry_set_dirty True) e m0"
      have "mrep (unlock_mapping ?m) (v_mark e v)"
        by (rule mrep_close [OF rep, where e = e])
          (use struct same ok e free True mrep_fields [OF rep] in
            \<open>auto simp: v_mark_def same_role_def same_flags_def entry_ok_def\<close>)
      with True free flags(1,2) show ?thesis
        by (simp add: set_dirty_after_write_def v_set_dirty_def lock same becomes_def
            to_entry_small [OF null] Let_def)
    next
      case still: False
      let ?C = "if e \<in> marked v then clean_q v else remove1 e (clean_q v)"
      let ?D = "if e \<in> marked v then remove1 e (dirty_q v) else dirty_q v"
      have queued: "e \<in> set (if e \<in> marked v then dirty_q v else clean_q v)"
        "e \<notin> set (if e \<in> marked v then clean_q v else dirty_q v)"
        using ok e free still by auto
      have del: "mstruct (queue_del e m0) (free_q v) ?C ?D (ran (page_table v))"
        using queue_del_struct [OF struct, of e] queued flags(3) [OF free] same by simp
      have gone: "e \<notin> set (free_q v) \<union> set ?C \<union> set ?D"
        using queued free distinct by (auto simp: set_remove1_distinct)
      let ?m = "queue_add_tail e (upd_entry (entry_set_dirty True) e (queue_del e m0))"
      have "mstruct ?m (free_q v) ?C (?D @ [e]) (ran (page_table v))"
        using queue_add_tail_struct [of "upd_entry (entry_set_dirty True) e (queue_del e m0)", OF _ gone null] del
        by simp
      then have "mrep (unlock_mapping ?m) (v_enqueue_tail e (v_mark e (v_dequeue e v)))"
        by (intro mrep_close [OF rep, where e = e])
          (use same ok e free still gone distinct mrep_fields [OF rep] in
            \<open>auto simp: v_mark_def v_enqueue_tail_def v_dequeue_def same_role_def same_flags_def entry_ok_def
              set_remove1_distinct\<close>)
      with free still flags(1,2) show ?thesis
        by (simp add: set_dirty_after_write_def v_set_dirty_def lock same becomes_def
            to_entry_small [OF null] Let_def)
    qed
  qed
qed

section \<open>Initialisation\<close>

text \<open>
  The view of a new mapping. \<open>init_mapping\<close> writes neither the flags of the entries nor the work
  queue: the memory it is given must be zero there, as a new shared memory segment is.
\<close>

definition v_init :: "u32 \<Rightarrow> u32 \<Rightarrow> (u32 \<Rightarrow> key) \<Rightarrow> cache_view" where
  "v_init n shift key = \<lparr>blocks = n, cblock_shift = shift, free_q = range_u32 0 n, clean_q = [], dirty_q = [], moving = {}, marked = {},
     page_table = Map.empty, key_of = key, work_list = []\<rparr>"

lemma init_sim:
  assumes zero: "\<forall>i. param (ents m i) = 0" and queue: "wq_inv (wq m)" "wq_keys (wq m) = []"
    and "bsize \<noteq> 0" and n: "n \<noteq> 0" "n \<le> CACHE_BLOCK_NUMBER"
  obtains m' where "init_mapping m bsize n = (m', 0)" "mrep m' (v_init n (LOG2 (CACHE_BLOCK_SIZE div bsize)) (\<lambda>i. entry_key (ents m i)))"
proof -
  obtain a s where alloc: "init_allocator (ea m) (ents m) 0 n = (a, s)" by fastforce
  note init = init_allocator_rep [OF n(2) alloc]
  have same: "param (s i) = 0 \<and> entry_key (s i) = entry_key (ents m i)" for i
    using unlinked_data [OF init(4)] zero by metis
  then have fresh: "\<not> allocated (s i)" "\<not> pending (s i)" for i
    by (simp_all add: allocated_def pending_def)
  obtain m' where m': "init_mapping m bsize n = (m', 0)" "ents m' = s" "ea m' = a" "clean m' = l_init (clean m)"
    "dirty m' = l_init (dirty m)" "htable m' = alloc_hash_table (htable m)" "cache_block_num m' = n"
    "mapping_lock m' = spinlock_init (mapping_lock m)" "wq m' = wq m"
    "block_per_cblock_shift m' = LOG2 (CACHE_BLOCK_SIZE div bsize)"
    using assms(4) n(1) alloc by (simp add: init_mapping_def Let_def alloc_es_def)
  have "mstruct m' (range_u32 0 n) [] [] {}"
    using init(1-3) n(2) table_alloc by (simp add: mstruct_def m' l_init_rep)
  then have "mrep m' (v_init n (LOG2 (CACHE_BLOCK_SIZE div bsize)) (\<lambda>i. entry_key (ents m i)))"
    using same fresh queue by (simp add: mrep_def v_init_def m' entry_ok_def keyed_def set_range_u32)
  with m'(1) show ?thesis by (rule that)
qed

section \<open>Small caches\<close>

text \<open>
  Concrete mappings, on which the properties are applied: the zero-filled memory, a new cache of \<open>n\<close>
  blocks, one with a dirty page and one with two clean pages.
\<close>

definition blank_mapping :: mapping where
  "blank_mapping = \<lparr>block_size = 0, cache_block_num = 0, block_per_cblock_shift = 0, block_per_page_shift = 0,
     es = \<lparr>entrys = (\<lambda>_. \<lparr>hash_next = 0, e_prev = 0, e_next = 0, param = 0, full_path_name = [], cache_page_index = 0\<rparr>),
           es_begin = 0, es_end = 0\<rparr>,
     ea = \<lparr>ea_begin = 0, nr_allocated = 0, ea_free = \<lparr>nr_elts = 0, head = 0, tail = 0\<rparr>\<rparr>,
     clean = \<lparr>nr_elts = 0, head = 0, tail = 0\<rparr>, dirty = \<lparr>nr_elts = 0, head = 0, tail = 0\<rparr>,
     htable = \<lparr>hash_bits = 0, buckets = (\<lambda>_. 0)\<rparr>, mapping_lock = \<lparr>locked = 0\<rparr>,
     hit_time = 0, miss_time = 0, promotion_time = 0, demotion_time = 0, writeback_time = 0, wq = empty_wq\<rparr>"

definition small_cache :: "u32 \<Rightarrow> mapping" where
  "small_cache n = fst (init_mapping blank_mapping 512 n)"

lemma small_cache_rep:
  assumes "n \<noteq> 0" and "n \<le> CACHE_BLOCK_NUMBER"
  shows "mrep (small_cache n) (v_init n 6 (\<lambda>_. ([], 0)))"
proof -
  have "\<forall>i. param (ents blank_mapping i) = 0" "wq_inv (wq blank_mapping)" "wq_keys (wq blank_mapping) = []"
    using wq_inv_empty_wq by (simp_all add: blank_mapping_def)
  then obtain m where m: "init_mapping blank_mapping 512 n = (m, 0)"
    "mrep m (v_init n (LOG2 (CACHE_BLOCK_SIZE div 512)) (\<lambda>i. entry_key (ents blank_mapping i)))"
    by (rule init_sim [where bsize = 512, OF _ _ _ _ assms]) (simp, rule that)
  have "(\<lambda>i. entry_key (ents blank_mapping i)) = (\<lambda>_. ([], 0))"
    by (simp add: blank_mapping_def entry_key_def fun_eq_iff)
  moreover have "LOG2 (CACHE_BLOCK_SIZE div 512) = 6"
    by (simp add: config_eqs LOG2.simps drop_bit_eq_div)
  ultimately show ?thesis using m by (simp add: small_cache_def)
qed

lemma range_two: "range_u32 0 2 = [0, 1]"
  by (simp add: range_u32_def upt_rec)

lemma two_blocks_rep: "mrep (small_cache 2) (v_init 2 6 (\<lambda>_. ([], 0)))"
  by (rule small_cache_rep) (simp_all add: config_eqs)

definition dirty_cache :: mapping where
  "dirty_cache = fst (the (lookup_mapping_with_insert (small_cache 2) ''f'' 8))"

definition dirty_view :: cache_view where
  "dirty_view = \<lparr>blocks = 2, cblock_shift = 6, free_q = [1], clean_q = [], dirty_q = [0], moving = {}, marked = {0},
     page_table = [(''f'', 1) \<mapsto> 0], key_of = (\<lambda>_. ([], 0))(0 := (''f'', 1)), work_list = []\<rparr>"

lemma page_index_8: "to_cache_page_index 8 = 1"
  by (simp add: to_cache_page_index_def drop_bit_eq_div)

lemma dirty_cache_rep: "mrep dirty_cache dirty_view"
proof -
  have "yields (lookup_mapping_with_insert (small_cache 2) ''f'' 8)
      (v_insert (''f'', to_cache_page_index 8) (v_init 2 6 (\<lambda>_. ([], 0))))"
    by (rule insert_sim [OF two_blocks_rep]) (simp add: config_eqs)
  moreover have "v_insert (''f'', 1) (v_init 2 6 (\<lambda>_. ([], 0))) = (dirty_view, Some 0)"
    by (simp add: v_insert_def v_init_def range_two v_queued_def dirty_view_def)
  ultimately show ?thesis
    by (auto simp: yields_def dirty_cache_def page_index_8)
qed

definition promoted :: "path \<Rightarrow> mapping \<Rightarrow> mapping" where
  "promoted p m = the (do { (m, r) \<leftarrow> promotion_free_to_clean m p 0; e \<leftarrow> r; promotion_complete m e True })"

lemma promoted_rep:
  assumes "mrep m v" and "free_q v = e # F" and "length p \<le> MAX_PATH_SIZE" and "page_table v (p, 0) = None"
  shows "mrep (promoted p m)
    (v\<lparr>free_q := F, key_of := (key_of v)(e := (p, 0)), page_table := (page_table v)((p, 0) \<mapsto> e),
       clean_q := clean_q v @ [e]\<rparr>)"
proof -
  let ?v1 = "v\<lparr>free_q := F, moving := insert e (moving v), key_of := (key_of v)(e := (p, 0))\<rparr>"
  have start: "v_promotion_start (p, 0) v = (?v1, Some e)"
    using assms(2) by (simp add: v_promotion_start_def)
  obtain m1 where m1: "promotion_free_to_clean m p 0 = Some (m1, Some e)" "mrep m1 ?v1"
    using promotion_start_sim [OF assms(1,3), of 0] by (auto simp: start yields_def)
  have e: "e \<in> moving ?v1" "e \<notin> ran (page_table ?v1)" "page_table ?v1 (key_of ?v1 e) = None"
    and no: "e \<notin> marked v" "e \<notin> moving v"
    using mrep_roles(2) [OF assms(1), of e] assms(2,4) by simp_all
  obtain m2 where "promotion_complete m1 e True = Some m2" "mrep m2 (v_promotion_complete e True ?v1)"
    using promotion_complete_sim [OF m1(2) e, of True] by (auto simp: becomes_def)
  with m1 no show ?thesis
    by (simp add: promoted_def v_promotion_complete_def v_enqueue_tail_def Let_def)
qed

definition clean_cache :: mapping where
  "clean_cache = promoted ''b'' (promoted ''a'' (small_cache 2))"

definition clean_view :: cache_view where
  "clean_view = \<lparr>blocks = 2, cblock_shift = 6, free_q = [], clean_q = [0, 1], dirty_q = [], moving = {}, marked = {},
     page_table = [(''a'', 0) \<mapsto> 0, (''b'', 0) \<mapsto> 1],
     key_of = (\<lambda>_. ([], 0))(0 := (''a'', 0), 1 := (''b'', 0)), work_list = []\<rparr>"

lemma clean_cache_rep: "mrep clean_cache clean_view"
proof -
  let ?v = "v_init 2 6 (\<lambda>_. ([], 0))"
  have "mrep (promoted ''a'' (small_cache 2)) (?v\<lparr>free_q := [1],
      key_of := (key_of ?v)(0 := (''a'', 0)), page_table := (page_table ?v)((''a'', 0) \<mapsto> 0),
      clean_q := clean_q ?v @ [0]\<rparr>)"
    by (rule promoted_rep [OF two_blocks_rep]) (simp_all add: v_init_def range_two config_eqs)
  from promoted_rep [OF this, of 1 "[]" "''b''"] show ?thesis
    by (simp add: clean_cache_def clean_view_def v_init_def config_eqs)
qed

end
