(* ===== verification/MappingProps.thy ===== *)
theory MappingProps
  imports MappingUse
begin

text \<open>
  What the operations of the cache mapping do, operation by operation, on every unlocked mapping that
  represents a view: its new view, its result, and that it returns with the mapping unlocked.
\<close>

text \<open>
  \<open>init_mapping\<close> on zero-filled memory, for a cache of one to 32768 blocks, returns 0 and gives an
  unlocked mapping whose blocks are all free, in ascending order, with an empty page table.
\<close>

theorem init_mapping_all_free:
  assumes "\<forall>i. param (ents m i) = 0" and "wq_inv (wq m)" and "wq_keys (wq m) = []"
    and "bsize \<noteq> 0" and "n \<noteq> 0" and "n \<le> CACHE_BLOCK_NUMBER"
  shows "\<exists>m'. init_mapping m bsize n = (m', 0) \<and> mrep m' (v_init n (LOG2 (CACHE_BLOCK_SIZE div bsize)) (\<lambda>i. entry_key (ents m i)))"
  by (rule init_sim [OF assms]) blast

theorem init_mapping_all_free_witness:
  "\<exists>m'. init_mapping blank_mapping 512 32768 = (m', 0) \<and> unlocked (mapping_lock m')"
proof -
  have "\<forall>i. param (ents blank_mapping i) = 0" "wq_inv (wq blank_mapping)" "wq_keys (wq blank_mapping) = []"
    using wq_inv_empty_wq by (simp_all add: blank_mapping_def)
  from init_mapping_all_free [OF this, of 512 32768] show ?thesis
    by (auto simp: config_eqs mrep_def)
qed

text \<open>
  C19. \<open>lookup_mapping\<close> always returns with the lock released. A cached page yields its block, which
  becomes the most recently used one when it is clean and not in a transfer; the order of the other
  clean blocks, the dirty blocks and all roles stay. A page that is not cached yields a miss, and is
  queued for migration unless it is queued already or 15 pages are.
\<close>

theorem lookup_mapping_refines:
  assumes "mrep m v" and "length p \<le> MAX_PATH_SIZE"
  shows "yields (lookup_mapping m p i) (v_lookup (p, to_cache_page_index i) v)"
  by (rule lookup_sim [OF assms])

theorem lookup_mapping_refines_witness:
  "\<exists>m. lookup_mapping clean_cache ''a'' 3 = Some (m, Some 0) \<and> mrep m (clean_view\<lparr>clean_q := [1, 0]\<rparr>)"
proof -
  have "v_lookup (''a'', to_cache_page_index 3) clean_view = (clean_view\<lparr>clean_q := [1, 0]\<rparr>, Some 0)"
    by (simp add: v_lookup_def clean_view_def v_hit_def v_dequeue_def v_enqueue_tail_def
        to_cache_page_index_def drop_bit_eq_div)
  with lookup_mapping_refines [OF clean_cache_rep, of "''a''" 3] show ?thesis
    by (auto simp: yields_def config_eqs)
qed

text \<open>
  C20. \<open>lookup_mapping_with_insert\<close> always returns with the lock released. A hit is as in a lookup. On
  a miss, a page queued for migration is not inserted; otherwise it gets the first free block, which
  becomes its dirty block at the end of the dirty list, or is queued when no block is free.
\<close>

theorem lookup_with_insert_refines:
  assumes "mrep m v" and "length p \<le> MAX_PATH_SIZE"
  shows "yields (lookup_mapping_with_insert m p i) (v_insert (p, to_cache_page_index i) v)"
  by (rule insert_sim [OF assms])

theorem lookup_with_insert_refines_witness:
  "\<exists>m. lookup_mapping_with_insert dirty_cache ''g'' 8 = Some (m, Some 1)
    \<and> mrep m (dirty_view\<lparr>free_q := [], dirty_q := [0, 1], marked := {0, 1},
         page_table := [(''f'', 1) \<mapsto> 0, (''g'', 1) \<mapsto> 1],
         key_of := (\<lambda>_. ([], 0))(0 := (''f'', 1), 1 := (''g'', 1))\<rparr>)"
proof -
  have "v_insert (''g'', to_cache_page_index 8) dirty_view
    = (dirty_view\<lparr>free_q := [], dirty_q := [0, 1], marked := {0, 1},
         page_table := [(''f'', 1) \<mapsto> 0, (''g'', 1) \<mapsto> 1],
         key_of := (\<lambda>_. ([], 0))(0 := (''f'', 1), 1 := (''g'', 1))\<rparr>, Some 1)"
    by (simp add: v_insert_def dirty_view_def page_index_8 v_queued_def insert_commute)
  with lookup_with_insert_refines [OF dirty_cache_rep, of "''g''" 8] show ?thesis
    by (auto simp: yields_def config_eqs)
qed

text \<open>
  C23. \<open>remove_mapping\<close> of a page whose block is not in a transfer: a cached page leaves the page table
  and its list, whatever its state, and its block is the last free one; otherwise nothing changes.
\<close>

theorem remove_mapping_refines:
  assumes "mrep m v" and "\<And>e. page_table v (p, to_cache_page_index i) = Some e \<Longrightarrow> e \<notin> moving v"
  shows "yields (remove_mapping m p i) (v_remove (p, to_cache_page_index i) v)"
  by (rule remove_sim [OF assms])

theorem remove_mapping_refines_witness:
  "\<exists>m. remove_mapping dirty_cache ''f'' 9 = Some (m, True)
    \<and> mrep m (dirty_view\<lparr>free_q := [1, 0], dirty_q := [], marked := {}, page_table := Map.empty\<rparr>)"
proof -
  have index: "to_cache_page_index 9 = 1" by (simp add: to_cache_page_index_def drop_bit_eq_div)
  have "v_remove (''f'', 1) dirty_view
    = (dirty_view\<lparr>free_q := [1, 0], dirty_q := [], marked := {}, page_table := Map.empty\<rparr>, True)"
    by (simp add: v_remove_def dirty_view_def v_release_def v_dequeue_def)
  with remove_mapping_refines [OF dirty_cache_rep, of "''f''" 9] show ?thesis
    by (simp add: index yields_def) (auto simp: dirty_view_def)
qed

text \<open>
  \<open>set_dirty_after_write\<close> of an allocated block marks it dirty: one in a transfer keeps its place,
  any other moves to the end of the dirty list. A free block is left alone. The argument that should
  choose between dirty and clean makes no difference.
\<close>

theorem set_dirty_refines:
  assumes "mrep m v" and "e < blocks v"
  shows "becomes (set_dirty_after_write m e d) (v_set_dirty e v)"
  by (rule set_dirty_sim [OF assms])

theorem set_dirty_refines_witness:
  "\<exists>m. set_dirty_after_write clean_cache 0 False = Some m
    \<and> mrep m (clean_view\<lparr>clean_q := [1], dirty_q := [0], marked := {0}\<rparr>)"
proof -
  have "v_set_dirty 0 clean_view = clean_view\<lparr>clean_q := [1], dirty_q := [0], marked := {0}\<rparr>"
    by (simp add: v_set_dirty_def clean_view_def v_dequeue_def v_mark_def v_enqueue_tail_def)
  with set_dirty_refines [OF clean_cache_rep, of 0 False] show ?thesis
    by (auto simp: becomes_def clean_view_def)
qed

text \<open>
  C21. A promotion takes the first free block, in a transfer and clean from then on, for a page that is
  not cached. A successful one enters the page in the page table, with its block the most recently
  used clean one; a failed one gives the block back as the last free one. Both phases return.
\<close>

theorem promotion_refines:
  assumes rep: "mrep m v" and free: "free_q v = e # F" and len: "length p \<le> MAX_PATH_SIZE"
    and new: "page_table v (p, c) = None"
  shows "\<exists>m1. promotion_free_to_clean m p c = Some (m1, Some e)
    \<and> mrep m1 (v\<lparr>free_q := F, moving := insert e (moving v), key_of := (key_of v)(e := (p, c))\<rparr>)
    \<and> becomes (promotion_complete m1 e True)
        (v\<lparr>free_q := F, key_of := (key_of v)(e := (p, c)), page_table := (page_table v)((p, c) \<mapsto> e),
           clean_q := clean_q v @ [e]\<rparr>)
    \<and> becomes (promotion_complete m1 e False) (v\<lparr>free_q := F @ [e], key_of := (key_of v)(e := (p, c))\<rparr>)"
proof -
  let ?v1 = "v\<lparr>free_q := F, moving := insert e (moving v), key_of := (key_of v)(e := (p, c))\<rparr>"
  have start: "v_promotion_start (p, c) v = (?v1, Some e)"
    using free by (simp add: v_promotion_start_def)
  obtain m1 where m1: "promotion_free_to_clean m p c = Some (m1, Some e)" "mrep m1 ?v1"
    using promotion_start_sim [OF rep len, of c] by (auto simp: start yields_def)
  have e: "e \<in> moving ?v1" "e \<notin> ran (page_table ?v1)" "page_table ?v1 (key_of ?v1 e) = None"
    and no: "e \<notin> marked v" "moving v - {e} = moving v"
    using mrep_roles(2) [OF rep, of e] free new by auto
  have "v_promotion_complete e True ?v1 = v\<lparr>free_q := F, key_of := (key_of v)(e := (p, c)),
      page_table := (page_table v)((p, c) \<mapsto> e), clean_q := clean_q v @ [e]\<rparr>"
    "v_promotion_complete e False ?v1 = v\<lparr>free_q := F @ [e], key_of := (key_of v)(e := (p, c))\<rparr>"
    using no by (simp_all add: v_promotion_complete_def v_enqueue_tail_def v_release_def Let_def)
  then show ?thesis
    using m1 promotion_complete_sim [OF m1(2) e, of True] promotion_complete_sim [OF m1(2) e, of False]
    by auto
qed

theorem promotion_refines_witness:
  "\<exists>m1 m2. promotion_free_to_clean dirty_cache ''g'' 5 = Some (m1, Some 1) \<and> promotion_complete m1 1 True = Some m2"
  using promotion_refines [OF dirty_cache_rep, of 1 "[]" "''g''" 5]
  by (auto simp: dirty_view_def config_eqs becomes_def)

text \<open>
  C22. A demotion starts exactly when more than half of the blocks are clean, on the least recently used
  clean block. A successful one removes the page from the page table and gives the block back as the
  last free one; a failed one leaves the page cached, its block now the most recently used one.
\<close>

theorem demotion_refines:
  assumes rep: "mrep m v" and clean: "clean_q v = e # C"
  shows "if unat (blocks v) div 2 \<le> length C then
      \<exists>m1. demotion_clean_to_free m = Some (m1, Some e)
        \<and> mrep m1 (v\<lparr>clean_q := C, moving := insert e (moving v)\<rparr>)
        \<and> becomes (demotion_complete m1 e True)
            (v\<lparr>clean_q := C, page_table := (page_table v)(key_of v e := None), free_q := free_q v @ [e]\<rparr>)
        \<and> becomes (demotion_complete m1 e False) (v\<lparr>clean_q := C @ [e]\<rparr>)
    else yields (demotion_clean_to_free m) (v, None)"
proof (cases "unat (blocks v) div 2 \<le> length C")
  case True
  let ?v1 = "v\<lparr>clean_q := C, moving := insert e (moving v)\<rparr>"
  have start: "v_demotion_start v = (?v1, Some e)"
    using clean True by (simp add: v_demotion_start_def)
  obtain m1 where m1: "demotion_clean_to_free m = Some (m1, Some e)" "mrep m1 ?v1"
    using demotion_start_sim [OF rep] by (auto simp: start yields_def)
  have e: "e \<in> moving ?v1" "e \<in> ran (page_table ?v1)"
    and no: "e \<notin> marked v" "moving v - {e} = moving v" "marked v - {e} = marked v"
    using mrep_roles(3) [OF rep, of e] clean by auto
  have "v_demotion_complete e True ?v1
      = v\<lparr>clean_q := C, page_table := (page_table v)(key_of v e := None), free_q := free_q v @ [e]\<rparr>"
    "v_demotion_complete e False ?v1 = v\<lparr>clean_q := C @ [e]\<rparr>"
    using no by (simp_all add: v_demotion_complete_def v_enqueue_tail_def v_release_def Let_def)
  then show ?thesis
    using True m1 demotion_complete_sim [OF m1(2) e, of True] demotion_complete_sim [OF m1(2) e, of False]
    by auto
next
  case False
  with demotion_start_sim [OF rep] clean show ?thesis
    by (simp add: v_demotion_start_def)
qed

theorem demotion_refines_witness:
  "\<exists>m1 m2. demotion_clean_to_free clean_cache = Some (m1, Some 0) \<and> demotion_complete m1 0 True = Some m2
    \<and> mrep m2 (clean_view\<lparr>clean_q := [1], page_table := (page_table clean_view)((''a'', 0) := None), free_q := [0]\<rparr>)"
  using demotion_refines [OF clean_cache_rep, of 0 "[1]"]
  by (auto simp: clean_view_def becomes_def)

end
