(* ===== verification/Spdk.thy ===== *)
theory Spdk
  imports Prelude
begin

text \<open>
  The cache device, from \<^verbatim>\<open>dm-cache/lib/spdk.c\<close>: finding the NVMe namespace, and synchronous reads,
  writes and trims on top of the asynchronous commands of the SPDK library. The library and the
  operating system are parameters: a record of functions on the state \<open>'w\<close> of the machine, which
  holds the disks, the files, the memory behind the buffers and the commands under way. Addresses
  are 64-bit words and NULL is 0, as are handles of controllers, namespaces and queue pairs.
\<close>

section \<open>The library and the system\<close>

datatype queue_type = IO_QUEUE | MG_QUEUE

record iovec =
  iov_base :: u64
  iov_len :: u64

record io_req =
  is_completed :: bool
  iov_offset :: u32
  iovs :: "iovec list"
  iov_pos :: nat
  iov_cnt :: nat

datatype open_mode = O_RDONLY | O_WRONLY

record 'w system =
  sys_open :: "path \<Rightarrow> open_mode \<Rightarrow> bool \<Rightarrow> 'w \<Rightarrow> int \<times> 'w"
  sys_close :: "int \<Rightarrow> 'w \<Rightarrow> 'w"
  sys_pread :: "int \<Rightarrow> u64 \<Rightarrow> u32 \<Rightarrow> u64 \<Rightarrow> 'w \<Rightarrow> int \<times> 'w"
  sys_pwrite :: "int \<Rightarrow> u64 \<Rightarrow> u32 \<Rightarrow> u64 \<Rightarrow> 'w \<Rightarrow> int \<times> 'w"
  sys_preadv :: "int \<Rightarrow> iovec list \<Rightarrow> u64 \<Rightarrow> 'w \<Rightarrow> int \<times> 'w"
  sys_pwritev :: "int \<Rightarrow> iovec list \<Rightarrow> u64 \<Rightarrow> 'w \<Rightarrow> int \<times> 'w"
  env_init :: "'w \<Rightarrow> int \<times> 'w"
  env_fini :: "'w \<Rightarrow> 'w"
  nvme_probe :: "'w \<Rightarrow> (int \<times> (string \<times> u64) list) \<times> 'w"
  first_active_ns :: "u64 \<Rightarrow> u32"
  next_active_ns :: "u64 \<Rightarrow> u32 \<Rightarrow> u32"
  get_ns :: "u64 \<Rightarrow> u32 \<Rightarrow> u64"
  ns_is_active :: "u64 \<Rightarrow> bool"
  ns_sector_size :: "u64 \<Rightarrow> u32"
  ns_size :: "u64 \<Rightarrow> u64"
  alloc_io_qpair :: "u64 \<Rightarrow> 'w \<Rightarrow> u64 \<times> 'w"
  free_io_qpair :: "u64 \<Rightarrow> 'w \<Rightarrow> 'w"
  nvme_detach :: "u64 \<Rightarrow> 'w \<Rightarrow> 'w"
  ns_cmd_read :: "u64 \<Rightarrow> u64 \<Rightarrow> u64 \<Rightarrow> u64 \<Rightarrow> u32 \<Rightarrow> 'w \<Rightarrow> int \<times> 'w"
  ns_cmd_write :: "u64 \<Rightarrow> u64 \<Rightarrow> u64 \<Rightarrow> u64 \<Rightarrow> u32 \<Rightarrow> 'w \<Rightarrow> int \<times> 'w"
  ns_cmd_deallocate :: "u64 \<Rightarrow> u64 \<Rightarrow> u64 \<Rightarrow> u32 \<Rightarrow> 'w \<Rightarrow> int \<times> 'w"
  ns_cmd_readv :: "u64 \<Rightarrow> u64 \<Rightarrow> u64 \<Rightarrow> u32 \<Rightarrow> (io_req \<Rightarrow> u32 \<Rightarrow> io_req option) \<Rightarrow>
    (io_req \<Rightarrow> (io_req \<times> u64 \<times> u32) option) \<Rightarrow> io_req \<Rightarrow> 'w \<Rightarrow> int \<times> 'w"
  ns_cmd_writev :: "u64 \<Rightarrow> u64 \<Rightarrow> u64 \<Rightarrow> u32 \<Rightarrow> (io_req \<Rightarrow> u32 \<Rightarrow> io_req option) \<Rightarrow>
    (io_req \<Rightarrow> (io_req \<times> u64 \<times> u32) option) \<Rightarrow> io_req \<Rightarrow> 'w \<Rightarrow> int \<times> 'w"
  process_completions :: "u64 \<Rightarrow> 'w \<Rightarrow> bool \<times> 'w"

text \<open>
  A command call returns a code and starts the command when the code is 0. \<open>process_completions\<close>
  tells whether it has called the callback of the command, whatever the status of its completion.
\<close>

section \<open>The target\<close>

record target =
  t_ctrlr :: u64
  t_ns :: u64
  t_qpair :: "queue_type \<Rightarrow> u64"
  t_isfind :: bool

definition NVME_ADDR :: string where "NVME_ADDR = ''0000:06:00.0''"

definition reset_ctrlr_and_ns :: target where
  "reset_ctrlr_and_ns = \<lparr>t_ctrlr = 0, t_ns = 0, t_qpair = (\<lambda>_. 0), t_isfind = False\<rparr>"

definition register_ns :: "'w system \<Rightarrow> u64 \<Rightarrow> target \<Rightarrow> target" where
  "register_ns sys ns target =
     (if \<not> ns_is_active sys ns then target
      else let target = target\<lparr>t_ns := ns\<rparr> in target\<lparr>t_isfind := True\<rparr>)"

text \<open>The loop over the active namespaces of a controller: it registers the first that exists.\<close>

partial_function (option) search_ns :: "'w system \<Rightarrow> u64 \<Rightarrow> u32 \<Rightarrow> target \<Rightarrow> target option" where
  "search_ns sys ctrlr nsid target =
     (if nsid = 0 then Some target
      else let ns = get_ns sys ctrlr nsid
           in if ns = 0 then search_ns sys ctrlr (next_active_ns sys ctrlr nsid) target
              else Some (register_ns sys ns target))"

definition attach_cb :: "'w system \<Rightarrow> string \<Rightarrow> u64 \<Rightarrow> target \<Rightarrow> target option" where
  "attach_cb sys traddr ctrlr target =
     (if \<not> strcmp_eq traddr NVME_ADDR then Some target
      else let target = target\<lparr>t_ctrlr := ctrlr\<rparr>
           in search_ns sys ctrlr (first_active_ns sys ctrlr) target)"

fun attach_all :: "'w system \<Rightarrow> (string \<times> u64) list \<Rightarrow> target \<Rightarrow> target option" where
  "attach_all sys [] target = Some target"
| "attach_all sys ((traddr, ctrlr) # found) target =
     do { target \<leftarrow> attach_cb sys traddr ctrlr target; attach_all sys found target }"

definition create_qpair :: "'w system \<Rightarrow> queue_type \<Rightarrow> target \<times> 'w \<Rightarrow> target \<times> 'w" where
  "create_qpair sys q = (\<lambda>(target, w). case alloc_io_qpair sys (t_ctrlr target) w of (qp, w) \<Rightarrow>
     (target\<lparr>t_qpair := (t_qpair target)(q := qp)\<rparr>, w))"

definition destroy_qpair :: "'w system \<Rightarrow> queue_type \<Rightarrow> target \<times> 'w \<Rightarrow> target \<times> 'w" where
  "destroy_qpair sys q = (\<lambda>(target, w). (target, free_io_qpair sys (t_qpair target q) w))"

definition init_spdk :: "'w system \<Rightarrow> target \<times> 'w \<Rightarrow> ((target \<times> 'w) \<times> int) option" where
  "init_spdk sys = (\<lambda>(target, w). case env_init sys w of (rc, w) \<Rightarrow>
     if rc < 0 then Some ((target, w), 1)
     else case nvme_probe sys w of ((rc, found), w) \<Rightarrow> do {
       target \<leftarrow> attach_all sys found reset_ctrlr_and_ns;
       if rc \<noteq> 0 then Some ((target, w), 1)
       else if \<not> t_isfind target then Some ((target, w), 1)
       else do {
         let tw = create_qpair sys IO_QUEUE (target, w);
         let tw = create_qpair sys MG_QUEUE tw;
         Some (tw, 0) } })"

definition exit_spdk :: "'w system \<Rightarrow> target \<times> 'w \<Rightarrow> target \<times> 'w" where
  "exit_spdk sys = (\<lambda>(target, w).
     if \<not> t_isfind target then (target, w)
     else case destroy_qpair sys MG_QUEUE (destroy_qpair sys IO_QUEUE (target, w)) of (target, w) \<Rightarrow>
       (reset_ctrlr_and_ns, env_fini sys (nvme_detach sys (t_ctrlr target) w)))"

text \<open>The device information, or None where the code leaves its arguments as they are.\<close>

definition get_device_info :: "'w system \<Rightarrow> target \<Rightarrow> (u32 \<times> u64) option" where
  "get_device_info sys target =
     (if \<not> t_isfind target then None
      else Some (ns_sector_size sys (t_ns target), ns_size sys (t_ns target)))"

section \<open>Synchronous commands\<close>

partial_function (option) wait_completed :: "'w system \<Rightarrow> u64 \<Rightarrow> 'w \<Rightarrow> 'w option" where
  "wait_completed sys qpair w =
     (case process_completions sys qpair w of (completed, w) \<Rightarrow>
        if completed then Some w else wait_completed sys qpair w)"

definition read_spdk :: "'w system \<Rightarrow> target \<Rightarrow> u64 \<Rightarrow> u64 \<Rightarrow> u32 \<Rightarrow> queue_type \<Rightarrow> 'w \<Rightarrow> (int \<times> 'w) option" where
  "read_spdk sys target dma_buf offset_block num_block type w =
     (case ns_cmd_read sys (t_ns target) (t_qpair target type) dma_buf offset_block num_block w of (rc, w) \<Rightarrow>
        if rc \<noteq> 0 then Some (rc, w)
        else do { w \<leftarrow> wait_completed sys (t_qpair target type) w; Some (0, w) })"

definition write_spdk :: "'w system \<Rightarrow> target \<Rightarrow> u64 \<Rightarrow> u64 \<Rightarrow> u32 \<Rightarrow> queue_type \<Rightarrow> 'w \<Rightarrow> (int \<times> 'w) option" where
  "write_spdk sys target dma_buf offset_block num_block type w =
     (case ns_cmd_write sys (t_ns target) (t_qpair target type) dma_buf offset_block num_block w of (rc, w) \<Rightarrow>
        if rc \<noteq> 0 then Some (rc, w)
        else do { w \<leftarrow> wait_completed sys (t_qpair target type) w; Some (0, w) })"

definition trim_spdk :: "'w system \<Rightarrow> target \<Rightarrow> u64 \<Rightarrow> u32 \<Rightarrow> queue_type \<Rightarrow> 'w \<Rightarrow> int \<times> 'w" where
  "trim_spdk sys target offset_block num_block type w =
     ns_cmd_deallocate sys (t_ns target) (t_qpair target type) offset_block num_block w"

section \<open>Scatter and gather\<close>

definition init_req :: "iovec list \<Rightarrow> nat \<Rightarrow> io_req" where
  "init_req iov cnt =
     \<lparr>is_completed = False, iov_offset = 0, iovs = iov, iov_pos = 0, iov_cnt = cnt\<rparr>"

function seek_iov :: "io_req \<Rightarrow> io_req option" where
  "seek_iov req =
     (if iov_pos req < iov_cnt req then
        if iov_pos req < length (iovs req) then
          let iov = iovs req ! iov_pos req
          in if ucast (iov_offset req) < iov_len iov then Some req
             else let req = req\<lparr>iov_offset := ucast (ucast (iov_offset req) - iov_len iov :: u64)\<rparr>
                  in seek_iov (req\<lparr>iov_pos := iov_pos req + 1\<rparr>)
        else None
      else Some req)"
  by pat_completeness auto
termination by (relation "measure (\<lambda>req. iov_cnt req - iov_pos req)") (auto simp: Let_def)

declare seek_iov.simps [simp del]

definition reset_sgl_fn :: "io_req \<Rightarrow> u32 \<Rightarrow> io_req option" where
  "reset_sgl_fn req sgl_offset =
     (let req = req\<lparr>iov_offset := sgl_offset\<rparr> in seek_iov (req\<lparr>iov_pos := 0\<rparr>))"

definition next_sge_fn :: "io_req \<Rightarrow> (io_req \<times> u64 \<times> u32) option" where
  "next_sge_fn req =
     (if iov_pos req < length (iovs req) then
        let iov = iovs req ! iov_pos req;
            address = iov_base iov;
            len = ucast (iov_len iov) :: u32;
            (address, len) = (if iov_offset req \<noteq> 0
                              then (address + ucast (iov_offset req), len - iov_offset req) else (address, len));
            req = req\<lparr>iov_offset := iov_offset req + len\<rparr>;
            req = (if ucast (iov_offset req) = iov_len iov
                   then let req = req\<lparr>iov_pos := iov_pos req + 1\<rparr> in req\<lparr>iov_offset := 0\<rparr> else req)
        in Some (req, address, len)
      else None)"

definition readv_spdk :: "'w system \<Rightarrow> target \<Rightarrow> iovec list \<Rightarrow> nat \<Rightarrow> u64 \<Rightarrow> u32 \<Rightarrow> queue_type \<Rightarrow> 'w \<Rightarrow> (int \<times> 'w) option" where
  "readv_spdk sys target iov cnt offset_block num_block type w =
     (let req = init_req iov cnt
      in case ns_cmd_readv sys (t_ns target) (t_qpair target type) offset_block num_block
             reset_sgl_fn next_sge_fn req w of (rc, w) \<Rightarrow>
        if rc \<noteq> 0 then Some (rc, w)
        else do { w \<leftarrow> wait_completed sys (t_qpair target type) w; Some (0, w) })"

definition writev_spdk :: "'w system \<Rightarrow> target \<Rightarrow> iovec list \<Rightarrow> nat \<Rightarrow> u64 \<Rightarrow> u32 \<Rightarrow> queue_type \<Rightarrow> 'w \<Rightarrow> (int \<times> 'w) option" where
  "writev_spdk sys target iov cnt offset_block num_block type w =
     (let req = init_req iov cnt
      in case ns_cmd_writev sys (t_ns target) (t_qpair target type) offset_block num_block
             reset_sgl_fn next_sge_fn req w of (rc, w) \<Rightarrow>
        if rc \<noteq> 0 then Some (rc, w)
        else do { w \<leftarrow> wait_completed sys (t_qpair target type) w; Some (0, w) })"

section \<open>Waiting\<close>

text \<open>The state after \<open>n\<close> polls of a queue pair.\<close>

definition polls :: "'w system \<Rightarrow> u64 \<Rightarrow> nat \<Rightarrow> 'w \<Rightarrow> 'w" where
  "polls sys qpair n = ((\<lambda>w. snd (process_completions sys qpair w)) ^^ n)"

lemma wait_completed_polls:
  assumes "\<forall>k < n. \<not> fst (process_completions sys qp (polls sys qp k w))"
    and "fst (process_completions sys qp (polls sys qp n w))"
  shows "wait_completed sys qp w = Some (polls sys qp (Suc n) w)"
  using assms
proof (induction n arbitrary: w)
  case 0
  then show ?case
    by (simp add: polls_def wait_completed.simps [of _ _ w] case_prod_unfold)
next
  case (Suc n)
  let ?w = "snd (process_completions sys qp w)"
  have shift: "polls sys qp (Suc k) w = polls sys qp k ?w" for k
    by (simp add: polls_def funpow_Suc_right del: funpow.simps)
  have "\<not> fst (process_completions sys qp w)"
    using Suc.prems(1) [rule_format, of 0] by (simp add: polls_def)
  moreover have "wait_completed sys qp ?w = Some (polls sys qp (Suc n) ?w)"
    using Suc.prems by (intro Suc.IH) (auto simp: shift [symmetric])
  ultimately show ?case
    by (simp add: wait_completed.simps [of _ _ w] case_prod_unfold shift)
qed

section \<open>Segments of a vector\<close>

definition span :: "u64 \<Rightarrow> nat \<Rightarrow> u64 list" where
  "span a n = map (\<lambda>i. a + of_nat i) [0..<n]"

definition iov_bytes :: "iovec list \<Rightarrow> u64 list" where
  "iov_bytes v = concat (map (\<lambda>i. span (iov_base i) (unat (iov_len i))) v)"

lemma length_span [simp]: "length (span a n) = n"
  by (simp add: span_def)

lemma drop_span: "drop k (span a n) = span (a + of_nat k) (n - k)"
  by (rule nth_equalityI) (simp_all add: span_def less_diff_conv add.commute)

lemma iov_bytes_simps [simp]:
  "iov_bytes [] = []" "iov_bytes (i # v) = span (iov_base i) (unat (iov_len i)) @ iov_bytes v"
  "iov_bytes (v @ v') = iov_bytes v @ iov_bytes v'"
  by (simp_all add: iov_bytes_def)

text \<open>The addresses the library is given by \<open>n\<close> calls of \<open>next_sge_fn\<close>.\<close>

fun segments :: "nat \<Rightarrow> io_req \<Rightarrow> u64 list option" where
  "segments 0 req = Some []"
| "segments (Suc n) req = do {
     (req, address, len) \<leftarrow> next_sge_fn req;
     rest \<leftarrow> segments n req;
     Some (span address (unat len) @ rest) }"

definition small_iovs :: "iovec list \<Rightarrow> bool" where
  "small_iovs v \<longleftrightarrow> (\<forall>i \<in> set v. iov_len i < 2 ^ 32)"

lemma unat_ucast64 [simp]: "unat (ucast (x :: u32) :: u64) = unat x"
proof -
  have "unat x < 2 ^ 64" using unsigned_less [of x, where 'a = nat] by simp
  then show ?thesis by (simp add: unsigned_ucast_eq take_bit_nat_eq_self)
qed

lemma ucast_less_iff: "(ucast (x :: u32) < (n :: u64)) \<longleftrightarrow> unat x < unat n"
  by (simp add: word_less_nat_alt)

lemma unat_ucast_small: "n < 2 ^ 32 \<Longrightarrow> unat (ucast (n :: u64) :: u32) = unat n"
proof -
  assume n: "n < 2 ^ 32"
  then have "unat n < unat ((2 :: u64) ^ 32)" by (simp add: word_less_nat_alt)
  then have "unat n < 2 ^ 32" by simp
  then show ?thesis by (simp add: unsigned_ucast_eq take_bit_nat_eq_self)
qed

lemma unat_sub_ucast:
  assumes "(n :: u64) < 2 ^ 32" and "unat n \<le> unat (x :: u32)"
  shows "unat (ucast (ucast x - n :: u64) :: u32) = unat x - unat n"
proof -
  have le: "n \<le> ucast x" using assms(2) by (simp add: word_le_nat_alt)
  then have diff: "unat (ucast x - n) = unat x - unat n"
    by (simp add: unat_sub)
  have "unat x < 2 ^ 32" using unsigned_less [of x, where 'a = nat] by simp
  then have "ucast x - n < (2 ^ 32 :: u64)" using diff by (simp add: word_less_nat_alt)
  from unat_ucast_small [OF this] diff show ?thesis by simp
qed

text \<open>Seeking in the vectors \<open>rest\<close> behind \<open>pre\<close>.\<close>

lemma seek_iov_split:
  assumes "iovs req = pre @ rest" and "iov_pos req = length pre" and "iov_cnt req = length (pre @ rest)"
    and "small_iovs rest"
  shows "\<exists>pre' rest' off. seek_iov req = Some (req\<lparr>iov_pos := length pre', iov_offset := off\<rparr>)
    \<and> iovs req = pre' @ rest' \<and> small_iovs rest'
    \<and> drop (unat off) (iov_bytes rest') = drop (unat (iov_offset req)) (iov_bytes rest)
    \<and> (rest' \<noteq> [] \<longrightarrow> unat off < unat (iov_len (hd rest')))"
  using assms
proof (induction rest arbitrary: pre req)
  case Nil
  then have "seek_iov req = Some (req\<lparr>iov_pos := length pre, iov_offset := iov_offset req\<rparr>)"
    by (simp add: seek_iov.simps [of req])
  with Nil.prems show ?case by blast
next
  case (Cons i rest)
  note split = Cons.prems
  show ?case
  proof (cases "unat (iov_offset req) < unat (iov_len i)")
    case True
    then have "ucast (iov_offset req) < iov_len i" by (simp add: ucast_less_iff)
    then have "seek_iov req = Some (req\<lparr>iov_pos := length pre, iov_offset := iov_offset req\<rparr>)"
      using split(1-3) by (simp add: seek_iov.simps [of req])
    moreover have "i # rest \<noteq> [] \<longrightarrow> unat (iov_offset req) < unat (iov_len (hd (i # rest)))"
      using True by simp
    ultimately show ?thesis using split(1,4) by blast
  next
    case False
    let ?off = "ucast (ucast (iov_offset req) - iov_len i :: u64) :: u32"
    let ?req = "req\<lparr>iov_offset := ?off, iov_pos := iov_pos req + 1\<rparr>"
    have off: "unat ?off = unat (iov_offset req) - unat (iov_len i)"
      using split(4) False by (intro unat_sub_ucast) (simp_all add: small_iovs_def)
    have seek: "seek_iov req = seek_iov ?req"
      using split(1-3) False by (simp add: seek_iov.simps [of req] ucast_less_iff Let_def)
    have bytes: "drop (unat ?off) (iov_bytes rest) = drop (unat (iov_offset req)) (iov_bytes (i # rest))"
      unfolding off using False by simp
    have small: "small_iovs rest" using split(4) by (simp add: small_iovs_def)
    have "iovs ?req = (pre @ [i]) @ rest" "iov_pos ?req = length (pre @ [i])"
      "iov_cnt ?req = length ((pre @ [i]) @ rest)"
      using split(1-3) by simp_all
    from Cons.IH [OF this small] obtain pre' rest' off' where
      "seek_iov ?req = Some (?req\<lparr>iov_pos := length pre', iov_offset := off'\<rparr>)"
      "iovs ?req = pre' @ rest'" "small_iovs rest'"
      "drop (unat off') (iov_bytes rest') = drop (unat (iov_offset ?req)) (iov_bytes rest)"
      "rest' \<noteq> [] \<longrightarrow> unat off' < unat (iov_len (hd rest'))"
      by blast
    moreover have "?req\<lparr>iov_pos := length pre', iov_offset := off'\<rparr> = req\<lparr>iov_pos := length pre', iov_offset := off'\<rparr>"
      by simp
    moreover have "iov_offset ?req = ?off" "iovs ?req = iovs req" by simp_all
    ultimately show ?thesis unfolding seek bytes [symmetric] by metis
  qed
qed

lemma next_sge_split:
  assumes "iovs req = pre @ i # rest" and "iov_pos req = length pre"
    and "iov_len i < 2 ^ 32" and "unat (iov_offset req) \<le> unat (iov_len i)"
  shows "next_sge_fn req = Some (req\<lparr>iov_pos := length (pre @ [i]), iov_offset := 0\<rparr>,
    iov_base i + ucast (iov_offset req), ucast (iov_len i) - iov_offset req)"
proof -
  have len: "unat (ucast (iov_len i) :: u32) = unat (iov_len i)" using unat_ucast_small [OF assms(3)] .
  have "iov_offset req + (ucast (iov_len i) - iov_offset req) = ucast (iov_len i)" by simp
  moreover have "ucast (ucast (iov_len i) :: u32) = iov_len i"
    by (rule word_unat_eq_iff [THEN iffD2]) (simp add: len)
  ultimately show ?thesis
    using assms(1,2) by (simp add: next_sge_fn_def Let_def)
qed

lemma segments_bytes:
  assumes "iovs req = pre @ rest" and "iov_pos req = length pre" and "small_iovs rest"
    and "rest \<noteq> [] \<Longrightarrow> unat (iov_offset req) \<le> unat (iov_len (hd rest))"
  shows "segments (length rest) req =
    Some (if rest = [] then [] else drop (unat (iov_offset req)) (iov_bytes rest))"
  using assms
proof (induction rest arbitrary: pre req)
  case (Cons i rest)
  have i: "iov_len i < 2 ^ 32" "unat (iov_offset req) \<le> unat (iov_len i)"
    using Cons.prems(3,4) by (simp_all add: small_iovs_def)
  let ?req = "req\<lparr>iov_pos := length (pre @ [i]), iov_offset := 0\<rparr>"
  have "segments (length rest) ?req = Some (if rest = [] then [] else drop 0 (iov_bytes rest))"
    using Cons.IH [of ?req "pre @ [i]"] Cons.prems by (simp add: small_iovs_def)
  moreover have "unat (ucast (iov_len i) - iov_offset req :: u32) = unat (iov_len i) - unat (iov_offset req)"
    using unat_ucast_small [OF i(1)] i(2) by (simp add: unat_sub word_le_nat_alt)
  moreover have "iov_base i + ucast (iov_offset req) = iov_base i + of_nat (unat (iov_offset req))"
    by simp
  ultimately show ?case
    using next_sge_split [OF Cons.prems(1,2) i] i(2)
    by (simp add: drop_span split: if_splits)
qed simp

lemma vector_segments:
  assumes "small_iovs v"
  shows "\<exists>req. reset_sgl_fn (init_req v (length v)) off = Some req
    \<and> segments (length v - iov_pos req) req = Some (drop (unat off) (iov_bytes v))"
proof -
  let ?req = "init_req v (length v)\<lparr>iov_offset := off, iov_pos := 0\<rparr>"
  have "iovs ?req = [] @ v" "iov_pos ?req = length ([] :: iovec list)" "iov_cnt ?req = length ([] @ v)"
    by (simp_all add: init_req_def)
  from seek_iov_split [OF this assms] obtain pre rest o' where
    seek: "seek_iov ?req = Some (?req\<lparr>iov_pos := length pre, iov_offset := o'\<rparr>)"
    and v: "iovs ?req = pre @ rest" and small: "small_iovs rest"
    and bytes: "drop (unat o') (iov_bytes rest) = drop (unat (iov_offset ?req)) (iov_bytes v)"
    and le: "rest \<noteq> [] \<longrightarrow> unat o' < unat (iov_len (hd rest))" by blast
  let ?req' = "?req\<lparr>iov_pos := length pre, iov_offset := o'\<rparr>"
  have "segments (length rest) ?req' = Some (drop (unat o') (iov_bytes rest))"
    using segments_bytes [of ?req' pre rest] v small le by (cases "rest = []") auto
  moreover have "length v - iov_pos ?req' = length rest"
    using v by (simp add: init_req_def)
  ultimately show ?thesis
    using seek bytes by (auto simp: reset_sgl_fn_def)
qed

section \<open>Properties\<close>

text \<open>
  C29. \<open>reset_sgl_fn\<close> at an offset into a vector of buffers, followed by calls of \<open>next_sge_fn\<close> until
  the vector is used up, gives the library exactly the addresses of the bytes of the buffers from
  that offset on, in order, for every vector of buffers shorter than 4 GB, empty ones included.
\<close>

theorem vector_io_covers_buffers:
  assumes "small_iovs v"
  shows "\<exists>req. reset_sgl_fn (init_req v (length v)) off = Some req
    \<and> segments (length v - iov_pos req) req = Some (drop (unat off) (iov_bytes v))"
  by (rule vector_segments [OF assms])

theorem vector_io_covers_buffers_witness:
  "small_iovs [\<lparr>iov_base = 100, iov_len = 2\<rparr>, \<lparr>iov_base = 7, iov_len = 0\<rparr>, \<lparr>iov_base = 200, iov_len = 3\<rparr>]
   \<and> (\<exists>req. segments 1 req = Some [201, 202])"
proof -
  let ?v = "[\<lparr>iov_base = 100, iov_len = 2\<rparr>, \<lparr>iov_base = 7, iov_len = 0\<rparr>, \<lparr>iov_base = 200, iov_len = 3\<rparr>]"
  have small: "small_iovs ?v" by (simp add: small_iovs_def)
  obtain req where req: "reset_sgl_fn (init_req ?v (length ?v)) 3 = Some req"
    "segments (length ?v - iov_pos req) req = Some (drop (unat (3 :: u32)) (iov_bytes ?v))"
    using vector_io_covers_buffers [OF small] by blast
  have "iov_pos req = 2"
    using req(1) by (simp add: reset_sgl_fn_def init_req_def seek_iov.simps Let_def split: if_splits) auto
  with req(2) have "segments 1 req = Some [201, 202]" by (simp add: span_def upt_rec)
  with small show ?thesis by blast
qed

text \<open>
  Once a read or a write has been accepted by the library, \<open>read_spdk\<close> and \<open>write_spdk\<close> return 0
  after the first poll that calls the callback, and in no case anything else: the status of the
  completion is not looked at, so a command that the device fails is reported as a success.
\<close>

theorem completed_io_is_success:
  assumes "\<forall>k < n. \<not> fst (process_completions sys (t_qpair t q) (polls sys (t_qpair t q) k w'))"
    and "fst (process_completions sys (t_qpair t q) (polls sys (t_qpair t q) n w'))"
  shows "(ns_cmd_read sys (t_ns t) (t_qpair t q) buf lba num w = (0, w') \<longrightarrow>
      read_spdk sys t buf lba num q w = Some (0, polls sys (t_qpair t q) (Suc n) w'))
    \<and> (ns_cmd_write sys (t_ns t) (t_qpair t q) buf lba num w = (0, w') \<longrightarrow>
      write_spdk sys t buf lba num q w = Some (0, polls sys (t_qpair t q) (Suc n) w'))"
  using wait_completed_polls [OF assms] by (simp add: read_spdk_def write_spdk_def)

text \<open>A system whose device fails every command, at the second poll.\<close>

definition failing_system :: "nat system" where
  "failing_system = \<lparr>
     sys_open = (\<lambda>_ _ _ w. (-1, w)), sys_close = (\<lambda>_ w. w), sys_pread = (\<lambda>_ _ _ _ w. (-1, w)),
     sys_pwrite = (\<lambda>_ _ _ _ w. (-1, w)), sys_preadv = (\<lambda>_ _ _ w. (-1, w)), sys_pwritev = (\<lambda>_ _ _ w. (-1, w)),
     env_init = (\<lambda>w. (0, w)), env_fini = (\<lambda>w. w), nvme_probe = (\<lambda>w. ((0, [(NVME_ADDR, 1)]), w)),
     first_active_ns = (\<lambda>_. 1), next_active_ns = (\<lambda>_ _. 0), get_ns = (\<lambda>_ _. 1), ns_is_active = (\<lambda>_. True),
     ns_sector_size = (\<lambda>_. 512), ns_size = (\<lambda>_. 2 ^ 31), alloc_io_qpair = (\<lambda>_ w. (1, w)),
     free_io_qpair = (\<lambda>_ w. w), nvme_detach = (\<lambda>_ w. w), ns_cmd_read = (\<lambda>_ _ _ _ _ w. (0, 0)),
     ns_cmd_write = (\<lambda>_ _ _ _ _ w. (0, 0)), ns_cmd_deallocate = (\<lambda>_ _ _ _ w. (0, w)),
     ns_cmd_readv = (\<lambda>_ _ _ _ _ _ _ w. (0, 0)), ns_cmd_writev = (\<lambda>_ _ _ _ _ _ _ w. (0, 0)),
     process_completions = (\<lambda>_ w. (w = 1, Suc w))\<rparr>"

theorem completed_io_is_success_witness:
  "read_spdk failing_system reset_ctrlr_and_ns 0 0 8 IO_QUEUE 5 = Some (0, 2)"
  using completed_io_is_success [where n = 1 and sys = failing_system and t = reset_ctrlr_and_ns
      and q = IO_QUEUE and w' = 0 and w = 5 and buf = 0 and lba = 0 and num = 8]
  by (simp add: failing_system_def polls_def)

end
