(* ===== verification/Migration.thy ===== *)
theory Migration
  imports MappingUse Spdk
begin

text \<open>
  The migration worker of \<^verbatim>\<open>dm-cache/lib/ssd_cache_mapping.c\<close>: \<open>mg_start\<close> moves the data of a cache
  page between the file and the cache device, \<open>do_migration_work\<close> serves one queued page with the
  first of promotion, demotion and writeback that can start.
\<close>

section \<open>Moving data\<close>

definition mg_start :: "'w system \<Rightarrow> target \<Rightarrow> mapping \<Rightarrow> u64 \<Rightarrow> path option \<Rightarrow> u32 \<Rightarrow> u32 \<Rightarrow> mg_type \<Rightarrow> 'w \<Rightarrow>
    (bool \<times> 'w) option" where
  "mg_start sys t m dma_buf path page cblock type w =
     (let block = push_bit (unat (block_per_cblock_shift m)) cblock;
          num = push_bit (unat (block_per_cblock_shift m)) 1
      in case type of
        PROMOTION \<Rightarrow> do {
          name \<leftarrow> path;
          case sys_open sys name O_RDONLY False w of (fd, w) \<Rightarrow>
            if fd < 0 then Some (False, w)
            else case sys_pread sys fd dma_buf CACHE_BLOCK_SIZE (ucast (push_bit CBLOCK_SHIFT page)) w of (n, w) \<Rightarrow>
              if n < 0 then Some (False, w)
              else do {
                let w = sys_close sys fd w;
                (rc, w) \<leftarrow> write_spdk sys t dma_buf (ucast block) num MG_QUEUE w;
                if rc \<noteq> 0 then Some (False, w) else Some (True, w) } }
      | DEMOTION \<Rightarrow>
          (case trim_spdk sys t (ucast (push_bit (unat (block_per_cblock_shift m)) page)) num MG_QUEUE w of
             (_, w) \<Rightarrow> Some (True, w))
      | WRITEBACK \<Rightarrow> do {
          (rc, w) \<leftarrow> read_spdk sys t dma_buf (ucast block) num MG_QUEUE w;
          if rc \<noteq> 0 then Some (False, w)
          else do {
            name \<leftarrow> path;
            case sys_open sys name O_WRONLY False w of (fd, w) \<Rightarrow>
              if fd < 0 then Some (False, w)
              else case sys_pwrite sys fd dma_buf CACHE_BLOCK_SIZE (ucast (push_bit CBLOCK_SHIFT page)) w of (n, w) \<Rightarrow>
                if n < 0 then Some (False, w)
                else Some (True, sys_close sys fd w) } })"

section \<open>Serving a queued page\<close>

text \<open>The chain of \<^verbatim>\<open>else if\<close>: a promotion, else a demotion, else a writeback.\<close>

definition migrate_writeback :: "'w system \<Rightarrow> target \<Rightarrow> u64 \<Rightarrow> mapping \<Rightarrow> 'w \<Rightarrow> (mapping \<times> 'w) option" where
  "migrate_writeback sys t dma_buf m w = do {
     (m, written) \<leftarrow> writeback_dirty_to_clean m;
     case written of
       Some cblock \<Rightarrow> do {
         e \<leftarrow> to_entry cblock;
         (success, w) \<leftarrow> mg_start sys t m dma_buf (Some (full_path_name (ents m e)))
            (cache_page_index (ents m e)) cblock WRITEBACK w;
         m \<leftarrow> writeback_complete m cblock success;
         Some (m, w) }
     | None \<Rightarrow> Some (m, w) }"

definition migrate_demotion :: "'w system \<Rightarrow> target \<Rightarrow> u64 \<Rightarrow> mapping \<Rightarrow> 'w \<Rightarrow> (mapping \<times> 'w) option" where
  "migrate_demotion sys t dma_buf m w = do {
     (m, demoted) \<leftarrow> demotion_clean_to_free m;
     case demoted of
       Some cblock \<Rightarrow> do {
         (success, w) \<leftarrow> mg_start sys t m 0 None 0 cblock DEMOTION w;
         m \<leftarrow> demotion_complete m cblock success;
         Some (m, w) }
     | None \<Rightarrow> migrate_writeback sys t dma_buf m w }"

definition migrate_transfer :: "'w system \<Rightarrow> target \<Rightarrow> u64 \<Rightarrow> mapping \<Rightarrow> key \<Rightarrow> 'w \<Rightarrow> (mapping \<times> 'w) option" where
  "migrate_transfer sys t dma_buf m k w = do {
     (m, promoted) \<leftarrow> promotion_free_to_clean m (fst k) (snd k);
     case promoted of
       Some cblock \<Rightarrow> do {
         (success, w) \<leftarrow> mg_start sys t m dma_buf (Some (fst k)) (snd k) cblock PROMOTION w;
         m \<leftarrow> promotion_complete m cblock success;
         Some (m, w) }
     | None \<Rightarrow> migrate_demotion sys t dma_buf m w }"

definition do_migration_work :: "'w system \<Rightarrow> target \<Rightarrow> mapping \<Rightarrow> u64 \<Rightarrow> 'w \<Rightarrow> ((mapping \<times> 'w) \<times> bool) option" where
  "do_migration_work sys t m dma_buf w = do {
     (q, work) \<leftarrow> peak_work MAX_PATH_SIZE (wq m);
     let m = m\<lparr>wq := q\<rparr>;
     case work of
       None \<Rightarrow> Some ((m, w), False)
     | Some k \<Rightarrow> do {
         (m, w) \<leftarrow> migrate_transfer sys t dma_buf m k w;
         (q, _) \<leftarrow> remove_work (wq m);
         Some ((m\<lparr>wq := q\<rparr>, w), True) } }"

section \<open>A responsive device\<close>

text \<open>What \<open>mg_start\<close> needs to return: the callback of an accepted command is called at some poll.\<close>

definition responsive :: "'w system \<Rightarrow> bool" where
  "responsive sys \<longleftrightarrow>
     (\<forall>ns qp buf lba num w w'. ns_cmd_read sys ns qp buf lba num w = (0, w') \<or>
        ns_cmd_write sys ns qp buf lba num w = (0, w') \<longrightarrow>
        (\<exists>n. fst (process_completions sys qp (polls sys qp n w'))))"

lemma wait_completed_returns:
  assumes "\<exists>n. fst (process_completions sys qp (polls sys qp n w))"
  shows "\<exists>w'. wait_completed sys qp w = Some w'"
proof -
  let ?done = "\<lambda>n. fst (process_completions sys qp (polls sys qp n w))"
  obtain n where n: "?done n" "\<forall>k < n. \<not> ?done k"
    using assms exists_least_iff [of ?done] by auto
  show ?thesis
    by (rule exI) (rule wait_completed_polls [OF n(2,1)])
qed

lemma read_spdk_returns: "responsive sys \<Longrightarrow> \<exists>rc w'. read_spdk sys t buf lba num q w = Some (rc, w')"
  using wait_completed_returns [of sys "t_qpair t q" "snd (ns_cmd_read sys (t_ns t) (t_qpair t q) buf lba num w)"]
  by (cases "ns_cmd_read sys (t_ns t) (t_qpair t q) buf lba num w") (force simp: read_spdk_def responsive_def)

lemma write_spdk_returns: "responsive sys \<Longrightarrow> \<exists>rc w'. write_spdk sys t buf lba num q w = Some (rc, w')"
  using wait_completed_returns [of sys "t_qpair t q" "snd (ns_cmd_write sys (t_ns t) (t_qpair t q) buf lba num w)"]
  by (cases "ns_cmd_write sys (t_ns t) (t_qpair t q) buf lba num w") (force simp: write_spdk_def responsive_def)

lemma mg_start_returns:
  assumes "responsive sys"
  shows "\<exists>ok w'. mg_start sys t m buf (Some name) page cblock type w = Some (ok, w')"
    and "\<exists>w'. mg_start sys t m buf path page cblock DEMOTION w = Some (True, w')"
proof -
  show "\<exists>ok w'. mg_start sys t m buf (Some name) page cblock type w = Some (ok, w')"
  proof (cases type)
    case PROMOTION
    obtain fd w1 where open_eq: "sys_open sys name O_RDONLY False w = (fd, w1)" by fastforce
    obtain n w2 where read_eq: "sys_pread sys fd buf CACHE_BLOCK_SIZE (ucast (push_bit CBLOCK_SHIFT page)) w1 = (n, w2)"
      by fastforce
    obtain rc w3 where "write_spdk sys t buf (ucast (push_bit (unat (block_per_cblock_shift m)) cblock))
        (push_bit (unat (block_per_cblock_shift m)) 1) MG_QUEUE (sys_close sys fd w2) = Some (rc, w3)"
      using write_spdk_returns [OF assms] by blast
    with PROMOTION open_eq read_eq show ?thesis
      by (simp add: mg_start_def Let_def) blast
  next
    case DEMOTION
    then show ?thesis by (auto simp: mg_start_def Let_def case_prod_unfold)
  next
    case WRITEBACK
    obtain rc w1 where read_eq: "read_spdk sys t buf (ucast (push_bit (unat (block_per_cblock_shift m)) cblock))
        (push_bit (unat (block_per_cblock_shift m)) 1) MG_QUEUE w = Some (rc, w1)"
      using read_spdk_returns [OF assms] by blast
    obtain fd w2 where open_eq: "sys_open sys name O_WRONLY False w1 = (fd, w2)" by fastforce
    obtain n w3 where "sys_pwrite sys fd buf CACHE_BLOCK_SIZE (ucast (push_bit CBLOCK_SHIFT page)) w2 = (n, w3)"
      by fastforce
    with WRITEBACK open_eq read_eq show ?thesis
      by (simp add: mg_start_def Let_def) blast
  qed
qed (simp add: mg_start_def Let_def case_prod_unfold)

section \<open>What serving a page does\<close>

definition v_migrate_writeback :: "bool \<Rightarrow> cache_view \<Rightarrow> cache_view" where
  "v_migrate_writeback success v =
     (case v_writeback_start v of (v, Some e) \<Rightarrow> v_writeback_complete e success v | (v, None) \<Rightarrow> v)"

definition v_migrate_demotion :: "bool \<Rightarrow> cache_view \<Rightarrow> cache_view" where
  "v_migrate_demotion success v =
     (case v_demotion_start v of
        (v, Some e) \<Rightarrow> v_demotion_complete e True v
      | (v, None) \<Rightarrow> v_migrate_writeback success v)"

definition v_migrate :: "bool \<Rightarrow> cache_view \<Rightarrow> cache_view" where
  "v_migrate success v =
     (let v = (case v_promotion_start (hd (work_list v)) v of
                 (v, Some e) \<Rightarrow> v_promotion_complete e success v
               | (v, None) \<Rightarrow> v_migrate_demotion success v)
      in v\<lparr>work_list := tl (work_list v)\<rparr>)"

definition transfers :: "(mapping \<times> 'w) option \<Rightarrow> (bool \<Rightarrow> cache_view) \<Rightarrow> bool" where
  "transfers r g \<longleftrightarrow> (\<exists>m w success. r = Some (m, w) \<and> mrep m (g success))"

text \<open>The three transfers on their own, from a state with nothing under way for this block.\<close>

lemma yieldsE:
  assumes "yields r (v, x)"
  obtains m where "r = Some (m, x)" "mrep m v"
  using assms by (auto simp: yields_def)

lemma becomesE:
  assumes "becomes r v"
  obtains m where "r = Some m" "mrep m v"
  using assms by (auto simp: becomes_def)

lemma v_promotion_start_cases:
  obtains (none) "free_q v = []" "v_promotion_start k v = (v, None)"
  | (some) e F where "free_q v = e # F"
      "v_promotion_start k v =
        (v\<lparr>free_q := F, moving := insert e (moving v), key_of := (key_of v)(e := k)\<rparr>, Some e)"
  by (cases "free_q v") (auto simp: v_promotion_start_def)

lemma v_demotion_start_cases:
  obtains (none) "v_demotion_start v = (v, None)"
  | (some) e C where "clean_q v = e # C"
      "v_demotion_start v = (v\<lparr>clean_q := C, moving := insert e (moving v)\<rparr>, Some e)"
  by (cases "clean_q v"; cases "length (clean_q v) \<le> unat (blocks v) div 2") (auto simp: v_demotion_start_def)

lemma v_writeback_start_cases:
  obtains (none) "v_writeback_start v = (v, None)"
  | (some) e D where "dirty_q v = e # D"
      "v_writeback_start v =
        (v\<lparr>dirty_q := D, marked := marked v - {e}, moving := insert e (moving v)\<rparr>, Some e)"
  by (cases "dirty_q v") (auto simp: v_writeback_start_def)

lemma migrate_writeback_sim:
  assumes rep: "mrep m v" and sys: "responsive sys"
  shows "transfers (migrate_writeback sys t buf m w) (\<lambda>success. v_migrate_writeback success v)"
proof (cases v rule: v_writeback_start_cases)
  case none
  with writeback_start_sim [OF rep] show ?thesis
    by (auto simp: migrate_writeback_def v_migrate_writeback_def transfers_def elim: yieldsE)
next
  case (some e D)
  let ?v1 = "v\<lparr>dirty_q := D, marked := marked v - {e}, moving := insert e (moving v)\<rparr>"
  obtain m1 where m1: "writeback_dirty_to_clean m = Some (m1, Some e)" and rep1: "mrep m1 ?v1"
    using writeback_start_sim [OF rep] some(2) by (auto elim: yieldsE)
  have e: "e \<in> moving ?v1" "e \<in> ran (page_table ?v1)"
    using mrep_roles(4) [OF rep, of e] some(1) by simp_all
  obtain ok w1 where mg: "mg_start sys t m1 buf (Some (full_path_name (ents m1 e)))
      (cache_page_index (ents m1 e)) e WRITEBACK w = Some (ok, w1)"
    using mg_start_returns(1) [OF sys] by blast
  obtain m2 where "writeback_complete m1 e ok = Some m2" "mrep m2 (v_writeback_complete e ok ?v1)"
    using writeback_complete_sim [OF rep1 e, of ok] by (rule becomesE)
  with m1 mg some(2) mrep_to_entry [OF rep1 e(1)] show ?thesis
    by (auto simp: migrate_writeback_def v_migrate_writeback_def transfers_def)
qed

lemma migrate_demotion_sim:
  assumes rep: "mrep m v" and sys: "responsive sys"
  shows "transfers (migrate_demotion sys t buf m w) (\<lambda>success. v_migrate_demotion success v)"
proof (cases v rule: v_demotion_start_cases)
  case none
  obtain m1 where "demotion_clean_to_free m = Some (m1, None)" "mrep m1 v"
    using demotion_start_sim [OF rep] none by (auto elim: yieldsE)
  with migrate_writeback_sim [OF _ sys] none show ?thesis
    by (auto simp: migrate_demotion_def v_migrate_demotion_def)
next
  case (some e C)
  let ?v1 = "v\<lparr>clean_q := C, moving := insert e (moving v)\<rparr>"
  obtain m1 where m1: "demotion_clean_to_free m = Some (m1, Some e)" and rep1: "mrep m1 ?v1"
    using demotion_start_sim [OF rep] some(2) by (auto elim: yieldsE)
  have e: "e \<in> moving ?v1" "e \<in> ran (page_table ?v1)"
    using mrep_roles(3) [OF rep, of e] some(1) by simp_all
  obtain w1 where mg: "mg_start sys t m1 0 None 0 e DEMOTION w = Some (True, w1)"
    using mg_start_returns(2) [OF sys] by blast
  obtain m2 where "demotion_complete m1 e True = Some m2" "mrep m2 (v_demotion_complete e True ?v1)"
    using demotion_complete_sim [OF rep1 e, of True] by (rule becomesE)
  with m1 mg some(2) show ?thesis
    by (auto simp: migrate_demotion_def v_migrate_demotion_def transfers_def)
qed

lemma migrate_transfer_sim:
  assumes rep: "mrep m v" and sys: "responsive sys" and len: "length (fst k) \<le> MAX_PATH_SIZE"
    and new: "page_table v k = None"
  shows "transfers (migrate_transfer sys t buf m k w)
    (\<lambda>success. case v_promotion_start k v of
       (v, Some e) \<Rightarrow> v_promotion_complete e success v | (v, None) \<Rightarrow> v_migrate_demotion success v)"
proof (cases k v rule: v_promotion_start_cases)
  case none
  obtain m1 where "promotion_free_to_clean m (fst k) (snd k) = Some (m1, None)" "mrep m1 v"
    using promotion_start_sim [OF rep len, of "snd k"] none by (auto elim: yieldsE)
  with migrate_demotion_sim [OF _ sys] none show ?thesis
    by (auto simp: migrate_transfer_def)
next
  case (some e F)
  let ?v1 = "v\<lparr>free_q := F, moving := insert e (moving v), key_of := (key_of v)(e := k)\<rparr>"
  obtain m1 where m1: "promotion_free_to_clean m (fst k) (snd k) = Some (m1, Some e)" and rep1: "mrep m1 ?v1"
    using promotion_start_sim [OF rep len, of "snd k"] some(2) by (auto elim: yieldsE)
  have e: "e \<in> moving ?v1" "e \<notin> ran (page_table ?v1)" "page_table ?v1 (key_of ?v1 e) = None"
    using mrep_roles(2) [OF rep, of e] some(1) new by simp_all
  obtain ok w1 where mg: "mg_start sys t m1 buf (Some (fst k)) (snd k) e PROMOTION w = Some (ok, w1)"
    using mg_start_returns(1) [OF sys] by blast
  obtain m2 where "promotion_complete m1 e ok = Some m2" "mrep m2 (v_promotion_complete e ok ?v1)"
    using promotion_complete_sim [OF rep1 e, of ok] by (rule becomesE)
  with m1 mg some(2) show ?thesis
    by (auto simp: migrate_transfer_def transfers_def)
qed

lemma complete_work_list [simp]:
  "work_list (v_promotion_complete e success v) = work_list v"
  "work_list (v_demotion_complete e success v) = work_list v"
  "work_list (v_writeback_complete e success v) = work_list v"
  by (simp_all add: v_promotion_complete_def v_demotion_complete_def v_writeback_complete_def
      v_enqueue_tail_def v_enqueue_head_def v_release_def Let_def)

lemma transfer_work_list:
  "work_list (v_migrate_demotion success v) = work_list v"
  "work_list (v_migrate_writeback success v) = work_list v"
proof -
  show wb: "work_list (v_migrate_writeback success v) = work_list v"
    by (cases v rule: v_writeback_start_cases) (simp_all add: v_migrate_writeback_def)
  show "work_list (v_migrate_demotion success v) = work_list v"
    by (cases v rule: v_demotion_start_cases) (simp_all add: v_migrate_demotion_def wb)
qed

text \<open>The end of a service: the page leaves the queue.\<close>

lemma mrep_wq: "mrep m v \<Longrightarrow> wq_inv q \<Longrightarrow> wq_keys q = ks \<Longrightarrow> mrep (m\<lparr>wq := q\<rparr>) (v\<lparr>work_list := ks\<rparr>)"
  using entry_ok_role [of _ v "v\<lparr>work_list := ks\<rparr>"] by (simp add: mrep_def same_role_def)

lemma remove_work_sim:
  assumes rep: "mrep m v" and ne: "work_list v \<noteq> []"
  obtains q where "remove_work (wq m) = Some (q, True)" "mrep (m\<lparr>wq := q\<rparr>) (v\<lparr>work_list := tl (work_list v)\<rparr>)"
proof (rule that)
  note inv = mrep_fields(4) [OF rep] and keys = mrep_fields(5) [OF rep]
  have "length (wq_keys (wq m)) \<noteq> 0" using keys ne by (simp del: length_wq_keys)
  then have size: "wq_size (wq m) \<noteq> 0" by simp
  then show "remove_work (wq m) = Some (wq_drop (wq m), True)"
    by (simp add: remove_work_spec [OF inv])
  have "tl (wq_keys (wq m)) = wq_keys (wq_drop (wq m))"
    by (subst wq_keys_drop [OF size]) simp
  then show "mrep (m\<lparr>wq := wq_drop (wq m)\<rparr>) (v\<lparr>work_list := tl (work_list v)\<rparr>)"
    using mrep_wq [OF rep wq_inv_drop [OF inv size]] keys by simp
qed

lemma peak_work_sim:
  assumes rep: "mrep m v" and short: "\<And>k. k \<in> set (work_list v) \<Longrightarrow> length (fst k) < MAX_PATH_SIZE"
  shows "peak_work MAX_PATH_SIZE (wq m) =
    Some (wq m, if work_list v = [] then None else Some (hd (work_list v)))"
proof -
  note inv = mrep_fields(4) [OF rep] and keys = mrep_fields(5) [OF rep]
  have size: "wq_size (wq m) = 0 \<longleftrightarrow> work_list v = []" using arg_cong [OF keys, of length] by auto
  have "length (fst (hd (wq_keys (wq m)))) < MAX_PATH_SIZE" if "wq_size (wq m) \<noteq> 0"
    using short [of "hd (work_list v)"] that size keys by simp
  from peak_work_spec [OF inv this] size keys show ?thesis by simp
qed

lemma serve_work:
  assumes rep: "mrep m v" and sys: "responsive sys" and ne: "work_list v \<noteq> []"
    and short: "\<forall>k \<in> set (work_list v). length (fst k) < MAX_PATH_SIZE"
    and new: "page_table v (hd (work_list v)) = None"
  shows "\<exists>m' w' success. do_migration_work sys t m buf w = Some ((m', w'), True)
    \<and> mrep m' (v_migrate success v)"
proof -
  let ?k = "hd (work_list v)"
  let ?g = "\<lambda>success. case v_promotion_start ?k v of
    (v, Some e) \<Rightarrow> v_promotion_complete e success v | (v, None) \<Rightarrow> v_migrate_demotion success v"
  have peak: "peak_work MAX_PATH_SIZE (wq m) = Some (wq m, Some ?k)"
    using peak_work_sim [OF rep] short ne by simp
  have "length (fst ?k) \<le> MAX_PATH_SIZE"
    using short ne by (metis list.set_sel(1) less_imp_le)
  with migrate_transfer_sim [OF rep sys _ new, of t buf w] obtain m1 w1 ok where
    move: "migrate_transfer sys t buf m ?k w = Some (m1, w1)" and rep1: "mrep m1 (?g ok)"
    by (auto simp: transfers_def)
  have works: "work_list (?g ok) = work_list v"
    by (cases "?k" v rule: v_promotion_start_cases) (simp_all add: transfer_work_list)
  have "work_list (?g ok) \<noteq> []" using works ne by simp
  from remove_work_sim [OF rep1 this] obtain q where q: "remove_work (wq m1) = Some (q, True)"
    "mrep (m1\<lparr>wq := q\<rparr>) (?g ok\<lparr>work_list := tl (work_list (?g ok))\<rparr>)" .
  have "v_migrate ok v = ?g ok\<lparr>work_list := tl (work_list (?g ok))\<rparr>"
    by (simp only: v_migrate_def Let_def)
  with q(2) have "mrep (m1\<lparr>wq := q\<rparr>) (v_migrate ok v)" by (simp only:)
  moreover have "do_migration_work sys t m buf w = Some ((m1\<lparr>wq := q\<rparr>, w1), True)"
    by (simp add: do_migration_work_def peak move q(1))
  ultimately show ?thesis by blast
qed

lemma do_migration_work_idle:
  assumes "mrep m v" and "work_list v = []"
  shows "do_migration_work sys t m buf w = Some ((m, w), False)"
  using peak_work_sim [OF assms(1)] assms(2) by (simp add: do_migration_work_def)

lemma is_empty_sim:
  assumes "mrep m v"
  shows "is_empty (wq m) = Some (wq m, work_list v = [])"
proof -
  have "wq_size (wq m) = length (work_list v)"
    using arg_cong [OF mrep_fields(5) [OF assms], of length] by simp
  with mrep_fields(4) [OF assms] show ?thesis by (simp add: is_empty_def wq_inv_def)
qed

text \<open>Serving a page does not enter the pages queued behind it.\<close>

lemma v_migrate_work: "work_list (v_migrate s v) = tl (work_list v)"
  by (cases "hd (work_list v)" v rule: v_promotion_start_cases) (simp_all add: v_migrate_def transfer_work_list Let_def)

lemma v_migrate_unmapped:
  assumes "k \<noteq> hd (work_list v)" and "page_table v k = None"
  shows "page_table (v_migrate s v) k = None"
proof -
  have writeback: "page_table (v_migrate_writeback s v) k = None"
    by (cases v rule: v_writeback_start_cases)
      (simp_all add: v_migrate_writeback_def v_writeback_complete_def v_enqueue_tail_def v_enqueue_head_def Let_def assms)
  have demotion: "page_table (v_migrate_demotion s v) k = None"
    by (cases v rule: v_demotion_start_cases)
      (simp_all add: v_migrate_demotion_def v_demotion_complete_def v_release_def assms writeback)
  show ?thesis
    by (cases "hd (work_list v)" v rule: v_promotion_start_cases)
      (simp_all add: v_migrate_def v_promotion_complete_def v_enqueue_tail_def v_release_def Let_def assms demotion)
qed

section \<open>Properties\<close>

text \<open>
  C18. Serving a queued page terminates and does one of the three transfers. With a page queued that
  is not in the cache and a device that completes its commands, \<open>do_migration_work\<close> returns true with
  the mapping unlocked and consistent. It has promoted the head of the queue, or, with no block free,
  demoted the least recently used clean block, or written back the oldest dirty block, each one to
  its end, and the page has left the queue in every case, the failed ones included.
\<close>

theorem do_migration_work_serves:
  assumes rep: "mrep m v" and sys: "responsive sys" and ne: "work_list v \<noteq> []"
    and short: "\<forall>k \<in> set (work_list v). length (fst k) < MAX_PATH_SIZE"
    and new: "page_table v (hd (work_list v)) = None"
  shows "\<exists>m' w' success. do_migration_work sys t m buf w = Some ((m', w'), True)
    \<and> mrep m' (v_migrate success v)"
  by (rule serve_work [OF assms])

text \<open>
  C24. A failed writeback loses an update. After \<open>writeback_dirty_to_clean\<close> has taken the oldest dirty
  block and its transfer has failed, \<open>writeback_complete\<close> puts the block, the only copy of the data,
  at the head of the clean list with its dirty bit clear: it is never written back, and it is the next
  block to be demoted.
\<close>

theorem failed_writeback_loses_update:
  assumes rep: "mrep m v" and "dirty_q v = e # D"
  shows "\<exists>m1 m2. writeback_dirty_to_clean m = Some (m1, Some e) \<and> writeback_complete m1 e False = Some m2
    \<and> mrep m2 (v\<lparr>dirty_q := D, marked := marked v - {e}, clean_q := e # clean_q v\<rparr>)
    \<and> \<not> dirty_bit (ents m2 e) \<and> l_head (clean m2) = Some e"
proof -
  let ?v1 = "v\<lparr>dirty_q := D, marked := marked v - {e}, moving := insert e (moving v)\<rparr>"
  let ?v2 = "v\<lparr>dirty_q := D, marked := marked v - {e}, clean_q := e # clean_q v\<rparr>"
  have start: "v_writeback_start v = (?v1, Some e)"
    using assms(2) by (simp add: v_writeback_start_def)
  obtain m1 where m1: "writeback_dirty_to_clean m = Some (m1, Some e)" "mrep m1 ?v1"
    using writeback_start_sim [OF rep] start by (auto elim: yieldsE)
  note e = mrep_roles(4) [OF rep, of e] assms(2)
  have e1: "e \<in> moving ?v1" "e \<in> ran (page_table ?v1)" using e by simp_all
  obtain m2 where m2: "writeback_complete m1 e False = Some m2" "mrep m2 (v_writeback_complete e False ?v1)"
    using writeback_complete_sim [OF m1(2) e1, of False] by (rule becomesE)
  have "v_writeback_complete e False ?v1 = ?v2"
    using e by (simp add: v_writeback_complete_def v_enqueue_head_def)
  with m2(2) have rep2: "mrep m2 ?v2" by simp
  have "\<not> dirty_bit (ents m2 e)"
    using mrep_entry [OF rep2, of e] by (simp add: entry_ok_def)
  moreover have "l_head (clean m2) = Some e"
    using clean_head [OF mrep_struct [OF rep2]] by simp
  ultimately show ?thesis using m1(1) m2(1) rep2 by blast
qed

theorem failed_writeback_loses_update_witness:
  "\<exists>m1 m2. writeback_dirty_to_clean dirty_cache = Some (m1, Some 0) \<and> writeback_complete m1 0 False = Some m2
    \<and> \<not> dirty_bit (ents m2 0) \<and> l_head (clean m2) = Some 0"
  using failed_writeback_loses_update [OF dirty_cache_rep, of 0 "[]"] by (auto simp: dirty_view_def)

text \<open>
  A demotion trims the wrong block. Whichever block \<open>demotion_clean_to_free\<close> has chosen, the trim
  that \<open>migrate_demotion\<close> sends to the device covers the logical blocks of cache block 0, since
  \<open>mg_start\<close> takes the page index, which is 0 here, for the block to trim; the demotion is then
  completed as successful.
\<close>

theorem demotion_trims_block_zero:
  assumes "demotion_clean_to_free m = Some (m1, Some e)"
  shows "migrate_demotion sys t buf m w = do {
     m2 \<leftarrow> demotion_complete m1 e True;
     Some (m2, snd (ns_cmd_deallocate sys (t_ns t) (t_qpair t MG_QUEUE) 0
       (push_bit (unat (block_per_cblock_shift m1)) 1) w)) }"
  using assms by (simp add: migrate_demotion_def mg_start_def trim_spdk_def case_prod_unfold Let_def)

text \<open>
  C26. A path of 32 bytes passes \<open>insert_work\<close> and the page table, whose arrays have 33 bytes, but its
  copy in \<open>do_migration_work\<close> has 32: with such a page at the head of the queue the terminating NUL
  is written past the array.
\<close>

theorem longest_name_overflows:
  assumes rep: "mrep m v" and ne: "work_list v \<noteq> []" and long: "length (fst (hd (work_list v))) = MAX_PATH_SIZE"
  shows "do_migration_work sys t m buf w = None"
proof -
  note inv = mrep_fields(4) [OF rep] and keys = mrep_fields(5) [OF rep]
  have "length (wq_keys (wq m)) \<noteq> 0" using keys ne by (simp del: length_wq_keys)
  then have size: "wq_size (wq m) \<noteq> 0" by simp
  have "hd (wq_keys (wq m)) = work_key (works (wq m) (front (wq m) mod MAX_WORKQUEUE_SIZE))"
    by (subst wq_keys_drop [OF size]) simp
  moreover have "front (wq m) mod MAX_WORKQUEUE_SIZE = front (wq m)"
    using inv by (simp add: wq_inv_def)
  ultimately have "length (w_full_path_name (works (wq m) (front (wq m)))) = MAX_PATH_SIZE"
    using long keys by (simp add: work_key_def)
  then show ?thesis
    using wq_inv_unlocked [OF inv] size by (simp add: do_migration_work_def peak_work_def)
qed

text \<open>Inputs: queues with one page, short or of 32 bytes, on the new cache.\<close>

definition queued_cache :: "path \<Rightarrow> mapping" where
  "queued_cache p = fst (the (lookup_mapping (small_cache 2) p 8))"

lemma queued_cache_rep:
  assumes "length p \<le> MAX_PATH_SIZE"
  shows "mrep (queued_cache p) (v_init 2 6 (\<lambda>_. ([], 0))\<lparr>work_list := [(p, 1)]\<rparr>)"
proof -
  have "v_lookup (p, 1) (v_init 2 6 (\<lambda>_. ([], 0))) = (v_init 2 6 (\<lambda>_. ([], 0))\<lparr>work_list := [(p, 1)]\<rparr>, None)"
    by (simp add: v_lookup_def v_init_def v_add_work_def MAX_WORKQUEUE_SIZE_def)
  with lookup_sim [OF two_blocks_rep assms, of 8] show ?thesis
    by (auto simp: yields_def queued_cache_def page_index_8)
qed

lemma failing_system_responsive: "responsive failing_system"
  unfolding responsive_def
proof (intro allI impI exI)
  fix ns qp buf lba num w w'
  assume "ns_cmd_read failing_system ns qp buf lba num w = (0, w')
    \<or> ns_cmd_write failing_system ns qp buf lba num w = (0, w')"
  then have "w' = 0" by (auto simp: failing_system_def)
  then show "fst (process_completions failing_system qp (polls failing_system qp 1 w'))"
    by (simp add: failing_system_def polls_def)
qed

theorem do_migration_work_serves_witness:
  "\<exists>m' w'. do_migration_work failing_system reset_ctrlr_and_ns (queued_cache ''f'') 4096 7 = Some ((m', w'), True)"
proof -
  have "length ''f'' \<le> MAX_PATH_SIZE" by (simp add: config_eqs)
  from do_migration_work_serves [OF queued_cache_rep [OF this] failing_system_responsive,
      of reset_ctrlr_and_ns 4096 7] show ?thesis
    by (simp add: v_init_def config_eqs) blast
qed

text \<open>A cache whose least recently used clean block is block 1: block 0 has been read again.\<close>

lemma reread_cache:
  obtains m where "mrep m (clean_view\<lparr>clean_q := [1, 0]\<rparr>)"
proof -
  have "length ''a'' \<le> MAX_PATH_SIZE" by (simp add: config_eqs)
  from lookup_sim [OF clean_cache_rep this, of 0] have
    "yields (lookup_mapping clean_cache ''a'' 0) (v_lookup (''a'', 0) clean_view)"
    by (simp add: to_cache_page_index_def)
  moreover have "v_lookup (''a'', 0) clean_view = (clean_view\<lparr>clean_q := [1, 0]\<rparr>, Some 0)"
    by (simp add: v_lookup_def clean_view_def v_hit_def v_dequeue_def v_enqueue_tail_def)
  ultimately show ?thesis using that by (auto simp: yields_def)
qed

theorem demotion_trims_block_zero_witness:
  "\<exists>m m1 w. demotion_clean_to_free m = Some (m1, Some 1)
    \<and> migrate_demotion failing_system reset_ctrlr_and_ns 4096 m 7 = Some w"
proof -
  let ?v = "clean_view\<lparr>clean_q := [1, 0]\<rparr>"
  let ?v1 = "clean_view\<lparr>clean_q := [0], moving := {1}\<rparr>"
  obtain m where rep: "mrep m ?v" using reread_cache .
  have start: "v_demotion_start ?v = (?v1, Some 1)"
    by (simp add: v_demotion_start_def clean_view_def)
  obtain m1 where m1: "demotion_clean_to_free m = Some (m1, Some 1)" "mrep m1 ?v1"
    using demotion_start_sim [OF rep, unfolded start] by (rule yieldsE)
  have "page_table ?v1 (''b'', 0) = Some 1" by (simp add: clean_view_def)
  then have "1 \<in> moving ?v1" "1 \<in> ran (page_table ?v1)" by (simp, rule ranI)
  from demotion_complete_sim [OF m1(2) this, of True] obtain m2 where "demotion_complete m1 1 True = Some m2"
    by (rule becomesE)
  then have "\<exists>w. migrate_demotion failing_system reset_ctrlr_and_ns 4096 m 7 = Some w"
    by (simp add: demotion_trims_block_zero [OF m1(1)])
  with m1(1) show ?thesis by blast
qed

theorem longest_name_overflows_witness:
  "do_migration_work failing_system reset_ctrlr_and_ns (queued_cache (replicate 32 CHR ''x'')) 4096 7 = None"
proof -
  have "length (replicate 32 CHR ''x'') \<le> MAX_PATH_SIZE" by (simp add: config_eqs)
  from longest_name_overflows [OF queued_cache_rep [OF this]] show ?thesis
    by (simp add: v_init_def config_eqs)
qed

end
