(* ===== verification/MappingSystem.thy ===== *)
theory MappingSystem
  imports Migration
begin

text \<open>
  The cache mapping under concurrency. Any number of users look pages up, insert, mark and discard
  them, while the migration worker goes through \<open>do_migration_work\<close>; each step is one of the critical
  sections of \<^verbatim>\<open>dm-cache/lib/ssd_cache_mapping.c\<close>, and the transfers of data lie between the steps, so
  that users run between the start and the completion of a transfer.

  The state of the worker is the point of \<open>do_migration_work\<close> it has reached. A user may make any call at any
  time, \<open>user_step\<close>. The code does not guard itself against all of them, so the runs of the theorems have calls that are
  \<open>allowed\<close>: paths of at most 31 bytes (\<^verbatim>\<open>Migration\<close> shows what a longer one does), blocks that exist, though
  they may have been given to another page meanwhile, and no discard of a page in a transfer (what that does is the
  last property of this theory).
\<close>

section \<open>Steps\<close>

datatype phase =
    Idle
  | Chosen key
  | Promoting u32
  | TryDemotion
  | Demoting u32
  | TryWriteback
  | WritingBack u32
  | Served

record cache_sys =
  mp :: mapping
  worker :: phase

definition in_transfer :: "mapping \<Rightarrow> key \<Rightarrow> bool" where
  "in_transfer m k \<longleftrightarrow>
     (\<exists>e < cache_block_num m. allocated (ents m e) \<and> pending (ents m e) \<and> entry_key (ents m e) = k)"

text \<open>The calls of the users, as \<^verbatim>\<open>ssd_cache_target.c\<close> makes them, and what each of them does.\<close>

datatype call = Lookup path u32 | Insert path u32 | Mark u32 bool | Discard path u32

inductive user_step :: "call \<Rightarrow> cache_sys \<Rightarrow> cache_sys \<Rightarrow> bool" where
  user_lookup: "lookup_mapping (mp s) p i = Some (m, r) \<Longrightarrow> user_step (Lookup p i) s (s\<lparr>mp := m\<rparr>)"
| user_insert: "lookup_mapping_with_insert (mp s) p i = Some (m, r) \<Longrightarrow> user_step (Insert p i) s (s\<lparr>mp := m\<rparr>)"
| user_mark: "set_dirty_after_write (mp s) e d = Some m \<Longrightarrow> user_step (Mark e d) s (s\<lparr>mp := m\<rparr>)"
| user_discard: "remove_mapping (mp s) p i = Some (m, r) \<Longrightarrow> user_step (Discard p i) s (s\<lparr>mp := m\<rparr>)"

fun allowed :: "mapping \<Rightarrow> call \<Rightarrow> bool" where
  "allowed m (Lookup p i) \<longleftrightarrow> length p < MAX_PATH_SIZE"
| "allowed m (Insert p i) \<longleftrightarrow> length p < MAX_PATH_SIZE"
| "allowed m (Mark e d) \<longleftrightarrow> e < cache_block_num m"
| "allowed m (Discard p i) \<longleftrightarrow> \<not> in_transfer m (p, to_cache_page_index i)"

inductive worker_step :: "cache_sys \<Rightarrow> cache_sys \<Rightarrow> bool" where
  peek: "worker s = Idle \<Longrightarrow> peak_work MAX_PATH_SIZE (wq (mp s)) = Some (q, Some k) \<Longrightarrow>
    worker_step s \<lparr>mp = (mp s)\<lparr>wq := q\<rparr>, worker = Chosen k\<rparr>"
| promote: "worker s = Chosen k \<Longrightarrow> promotion_free_to_clean (mp s) (fst k) (snd k) = Some (m, r) \<Longrightarrow>
    worker_step s \<lparr>mp = m, worker = (case r of Some e \<Rightarrow> Promoting e | None \<Rightarrow> TryDemotion)\<rparr>"
| promoted: "worker s = Promoting e \<Longrightarrow> promotion_complete (mp s) e success = Some m \<Longrightarrow>
    worker_step s \<lparr>mp = m, worker = Served\<rparr>"
| demote: "worker s = TryDemotion \<Longrightarrow> demotion_clean_to_free (mp s) = Some (m, r) \<Longrightarrow>
    worker_step s \<lparr>mp = m, worker = (case r of Some e \<Rightarrow> Demoting e | None \<Rightarrow> TryWriteback)\<rparr>"
| demoted: "worker s = Demoting e \<Longrightarrow> demotion_complete (mp s) e success = Some m \<Longrightarrow>
    worker_step s \<lparr>mp = m, worker = Served\<rparr>"
| write_back: "worker s = TryWriteback \<Longrightarrow> writeback_dirty_to_clean (mp s) = Some (m, r) \<Longrightarrow>
    worker_step s \<lparr>mp = m, worker = (case r of Some e \<Rightarrow> WritingBack e | None \<Rightarrow> Served)\<rparr>"
| written_back: "worker s = WritingBack e \<Longrightarrow> writeback_complete (mp s) e success = Some m \<Longrightarrow>
    worker_step s \<lparr>mp = m, worker = Served\<rparr>"
| finish: "worker s = Served \<Longrightarrow> remove_work (wq (mp s)) = Some (q, r) \<Longrightarrow>
    worker_step s \<lparr>mp = (mp s)\<lparr>wq := q\<rparr>, worker = Idle\<rparr>"

definition cache_step :: "cache_sys \<Rightarrow> cache_sys \<Rightarrow> bool" where
  "cache_step s t \<longleftrightarrow> (\<exists>call. allowed (mp s) call \<and> user_step call s t) \<or> worker_step s t"

definition cache_ini :: "cache_sys \<Rightarrow> bool" where
  "cache_ini s \<longleftrightarrow> worker s = Idle \<and>
     (\<exists>m bsize n. (\<forall>i. param (ents m i) = 0) \<and> wq_inv (wq m) \<and> wq_keys (wq m) = [] \<and> bsize \<noteq> 0 \<and> n \<noteq> 0
        \<and> n \<le> CACHE_BLOCK_NUMBER \<and> mp s = fst (init_mapping m bsize n))"

section \<open>The invariant\<close>

definition unmapped :: "key list \<Rightarrow> cache_view \<Rightarrow> bool" where
  "unmapped ks v \<longleftrightarrow> (\<forall>k \<in> set ks. page_table v k = None)"

definition under_way :: "phase \<Rightarrow> u32 set" where
  "under_way ph = (case ph of Promoting e \<Rightarrow> {e} | Demoting e \<Rightarrow> {e} | WritingBack e \<Rightarrow> {e} | _ \<Rightarrow> {})"

text \<open>
  The only block in a transfer is the worker's; the pages queued are not cached, but for the one that
  has just been served.
\<close>

definition phase_inv :: "phase \<Rightarrow> cache_view \<Rightarrow> bool" where
  "phase_inv ph v \<longleftrightarrow>
     moving v = under_way ph \<and> (\<forall>k \<in> set (work_list v). length (fst k) < MAX_PATH_SIZE)
     \<and> (ph \<noteq> Idle \<longrightarrow> work_list v \<noteq> [])
     \<and> unmapped (if ph = Served then tl (work_list v) else work_list v) v
     \<and> (\<forall>k. ph = Chosen k \<longrightarrow> hd (work_list v) = k)
     \<and> (\<forall>e. ph = Promoting e \<longrightarrow> hd (work_list v) = key_of v e \<and> e \<notin> ran (page_table v))
     \<and> (\<forall>e. ph = Demoting e \<or> ph = WritingBack e \<longrightarrow> e \<in> ran (page_table v))"

definition cache_inv :: "cache_sys \<Rightarrow> bool" where
  "cache_inv s \<longleftrightarrow> (\<exists>v. mrep (mp s) v \<and> phase_inv (worker s) v)"

lemma cache_invI: "mrep m v \<Longrightarrow> phase_inv ph v \<Longrightarrow> cache_inv \<lparr>mp = m, worker = ph\<rparr>"
  by (auto simp: cache_inv_def)

lemma cache_inv_ini:
  assumes "cache_ini s"
  shows "cache_inv s"
proof -
  from assms obtain m bsize n where m: "\<forall>i. param (ents m i) = 0" "wq_inv (wq m)" "wq_keys (wq m) = []"
    "bsize \<noteq> 0" "n \<noteq> 0" "n \<le> CACHE_BLOCK_NUMBER" and s: "mp s = fst (init_mapping m bsize n)" "worker s = Idle"
    unfolding cache_ini_def by blast
  obtain m' where "init_mapping m bsize n = (m', 0)" "mrep m' (v_init n (LOG2 (CACHE_BLOCK_SIZE div bsize)) (\<lambda>i. entry_key (ents m i)))"
    by (rule init_sim [OF m])
  with s show ?thesis
    by (auto simp: cache_inv_def phase_inv_def under_way_def unmapped_def v_init_def)
qed

section \<open>Steps of the users\<close>

text \<open>What a user may do to the view: the block in a transfer keeps its page.\<close>

definition user_change :: "cache_view \<Rightarrow> cache_view \<Rightarrow> bool" where
  "user_change v v' \<longleftrightarrow>
     moving v' = moving v
     \<and> (\<forall>e \<in> moving v. key_of v' e = key_of v e \<and> (e \<in> ran (page_table v') \<longleftrightarrow> e \<in> ran (page_table v)))
     \<and> (\<exists>ks. work_list v' = work_list v @ ks
          \<and> (\<forall>k \<in> set ks. length (fst k) < MAX_PATH_SIZE \<and> page_table v' k = None))
     \<and> (\<forall>k \<in> set (work_list v). page_table v k = None \<longrightarrow> page_table v' k = None)"

lemma user_change_phase:
  assumes "user_change v v'" and inv: "phase_inv ph v"
  shows "phase_inv ph v'"
proof -
  obtain ks where v': "moving v' = moving v" "work_list v' = work_list v @ ks"
    "\<forall>e \<in> moving v. key_of v' e = key_of v e \<and> (e \<in> ran (page_table v') \<longleftrightarrow> e \<in> ran (page_table v))"
    "\<forall>k \<in> set ks. length (fst k) < MAX_PATH_SIZE \<and> page_table v' k = None"
    "\<forall>k \<in> set (work_list v). page_table v k = None \<longrightarrow> page_table v' k = None"
    using assms(1) unfolding user_change_def by blast
  have tl: "k \<in> set (tl (work_list v)) \<Longrightarrow> k \<in> set (work_list v)" for k
    by (cases "work_list v") simp_all
  have queue: "unmapped (if ph = Served then tl (work_list v') else work_list v') v'"
    using inv v'(2,4,5) tl by (cases "work_list v") (auto simp: phase_inv_def unmapped_def)
  have short: "\<forall>k \<in> set (work_list v'). length (fst k) < MAX_PATH_SIZE"
    using inv v'(2,4) by (auto simp: phase_inv_def)
  show ?thesis
    using inv v'(1,2,3) queue short by (cases ph) (simp_all add: phase_inv_def under_way_def)
qed

lemma same_user_change [simp]: "user_change v v"
  by (simp add: user_change_def)

lemma hit_user_change: "user_change v (v_hit e v)"
  by (simp add: v_hit_def v_enqueue_tail_def v_dequeue_def user_change_def)

lemma add_work_user_change:
  "page_table v k = None \<Longrightarrow> length (fst k) < MAX_PATH_SIZE \<Longrightarrow> user_change v (v_add_work k v)"
  by (simp add: v_add_work_def user_change_def)

lemma lookup_user_change: "length (fst k) < MAX_PATH_SIZE \<Longrightarrow> user_change v (fst (v_lookup k v))"
  by (auto simp: v_lookup_def hit_user_change add_work_user_change split: option.split)

lemma set_dirty_user_change: "user_change v (v_set_dirty e v)"
  by (simp add: v_set_dirty_def v_mark_def v_enqueue_tail_def v_dequeue_def user_change_def)

lemma insert_user_change:
  assumes rep: "mrep m v" and len: "length (fst k) < MAX_PATH_SIZE"
  shows "user_change v (fst (v_insert k v))"
proof (cases "page_table v k")
  case (Some e)
  then show ?thesis by (simp add: v_insert_def hit_user_change)
next
  case None
  show ?thesis
  proof (cases "v_queued (fst k) (snd k) v \<or> free_q v = []")
    case True
    with None len show ?thesis by (auto simp: v_insert_def add_work_user_change)
  next
    case False
    then obtain e F where free: "free_q v = e # F" by (cases "free_q v") auto
    have new: "k \<notin> set (work_list v)" using False unfolding v_queued_def by fastforce
    have e: "e \<notin> moving v" using mrep_roles(2) [OF rep, of e] free by simp
    have "ran ((page_table v)(k \<mapsto> e)) = insert e (ran (page_table v))" using None by simp
    with None False free new e show ?thesis by (auto simp: v_insert_def user_change_def)
  qed
qed

lemma remove_user_change:
  assumes rep: "mrep m v" and "\<And>e. page_table v k = Some e \<Longrightarrow> e \<notin> moving v"
  shows "user_change v (fst (v_remove k v))"
proof (cases "page_table v k")
  case (Some e)
  have "ran ((page_table v)(k := None)) = ran (page_table v) - {e}"
    using ran_upd_None [OF mrep_fields(6) [OF rep] Some] .
  with Some assms(2) [OF Some] show ?thesis
    by (auto simp: v_remove_def v_release_def v_dequeue_def user_change_def)
qed (simp add: v_remove_def)

lemma in_transfer_moving:
  assumes rep: "mrep m v" and "\<not> in_transfer m k" and "page_table v k = Some e"
  shows "e \<notin> moving v"
proof
  assume e: "e \<in> moving v"
  have "e < blocks v" using mrep_small(1) [OF rep, of e] e by simp
  moreover have "allocated (ents m e)" "pending (ents m e)"
    using mrep_entry [OF rep, of e] e by (simp_all add: entry_ok_def)
  moreover have "entry_key (ents m e) = k"
    using mrep_fields(2) [OF rep] mrep_lookup [OF rep assms(3)] by simp
  ultimately show False using assms(2) mrep_fields(1) [OF rep] by (auto simp: in_transfer_def)
qed

lemma user_step_inv:
  assumes "phase_inv (worker s) v" and "yields r t" and "r = Some (m, x)" and "user_change v (fst t)"
  shows "cache_inv (s\<lparr>mp := m\<rparr>)"
  using assms(2,3) user_change_phase [OF assms(4,1)] by (auto simp: yields_def cache_inv_def)

section \<open>Steps of the worker\<close>

lemma phase_peek:
  "phase_inv Idle v \<Longrightarrow> work_list v \<noteq> [] \<Longrightarrow> phase_inv (Chosen (hd (work_list v))) v"
  by (simp add: phase_inv_def under_way_def)

lemma phase_promote:
  assumes rep: "mrep m v" and inv: "phase_inv (Chosen k) v" and start: "v_promotion_start k v = (v', r)"
  shows "phase_inv (case r of Some e \<Rightarrow> Promoting e | None \<Rightarrow> TryDemotion) v'"
proof (cases k v rule: v_promotion_start_cases)
  case none
  with inv start show ?thesis by (auto simp: phase_inv_def under_way_def)
next
  case (some e F)
  with mrep_roles(2) [OF rep, of e] inv start show ?thesis
    by (auto simp: phase_inv_def under_way_def unmapped_def)
qed

lemma phase_demote:
  assumes rep: "mrep m v" and inv: "phase_inv TryDemotion v" and start: "v_demotion_start v = (v', r)"
  shows "phase_inv (case r of Some e \<Rightarrow> Demoting e | None \<Rightarrow> TryWriteback) v'"
proof (cases v rule: v_demotion_start_cases)
  case none
  with inv start show ?thesis by (auto simp: phase_inv_def under_way_def)
next
  case (some e C)
  with mrep_roles(3) [OF rep, of e] inv start show ?thesis
    by (auto simp: phase_inv_def under_way_def unmapped_def)
qed

lemma unmapped_tl: "unmapped ks v \<Longrightarrow> unmapped (tl ks) v"
  by (cases ks) (simp_all add: unmapped_def)

lemma phase_write_back:
  assumes rep: "mrep m v" and inv: "phase_inv TryWriteback v" and start: "v_writeback_start v = (v', r)"
  shows "phase_inv (case r of Some e \<Rightarrow> WritingBack e | None \<Rightarrow> Served) v'"
proof (cases v rule: v_writeback_start_cases)
  case none
  with inv start show ?thesis by (auto simp: phase_inv_def under_way_def unmapped_tl)
next
  case (some e D)
  with mrep_roles(4) [OF rep, of e] inv start show ?thesis
    by (auto simp: phase_inv_def under_way_def unmapped_def)
qed

lemma queue_view_simps [simp]:
  "moving (v_enqueue_tail e v) = moving v" "page_table (v_enqueue_tail e v) = page_table v"
  "work_list (v_enqueue_tail e v) = work_list v"
  "moving (v_enqueue_head e v) = moving v" "page_table (v_enqueue_head e v) = page_table v"
  "work_list (v_enqueue_head e v) = work_list v"
  "moving (v_release e v) = moving v" "page_table (v_release e v) = page_table v"
  "work_list (v_release e v) = work_list v"
  by (simp_all add: v_enqueue_tail_def v_enqueue_head_def v_release_def)

lemma phase_promoted:
  assumes rep: "mrep m v" and inv: "phase_inv (Promoting e) v"
  shows "phase_inv Served (v_promotion_complete e success v)"
proof -
  have "distinct (work_list v)" using mrep_fields(4,5) [OF rep] by (simp add: wq_inv_def)
  then have hd: "hd (work_list v) \<notin> set (tl (work_list v))" by (cases "work_list v") simp_all
  have "unmapped (tl (work_list v)) v" using inv by (simp add: phase_inv_def unmapped_tl)
  then have "\<forall>k \<in> set (tl (work_list v)). ((page_table v)(key_of v e \<mapsto> e)) k = None"
    using inv hd by (auto simp: phase_inv_def unmapped_def)
  with inv show ?thesis
    by (auto simp: phase_inv_def under_way_def unmapped_def v_promotion_complete_def Let_def dest: list.set_sel(2))
qed

lemma phase_demoted:
  assumes inv: "phase_inv (Demoting e) v"
  shows "phase_inv Served (v_demotion_complete e success v)"
  using inv by (auto simp: phase_inv_def under_way_def unmapped_def v_demotion_complete_def Let_def
      dest: list.set_sel(2))

lemma phase_written_back:
  assumes inv: "phase_inv (WritingBack e) v"
  shows "phase_inv Served (v_writeback_complete e success v)"
  using inv by (auto simp: phase_inv_def under_way_def unmapped_def v_writeback_complete_def Let_def
      dest: list.set_sel(2))

lemma phase_finish:
  "phase_inv Served v \<Longrightarrow> phase_inv Idle (v\<lparr>work_list := tl (work_list v)\<rparr>)"
  by (auto simp: phase_inv_def under_way_def unmapped_def dest: list.set_sel(2))

section \<open>Every step keeps the invariant\<close>

lemma worker_yields_inv:
  assumes "yields r t" and "r = Some (m, x)" and "phase_inv (f (snd t)) (fst t)"
  shows "cache_inv \<lparr>mp = m, worker = f x\<rparr>"
  using assms by (auto simp: yields_def cache_inv_def)

lemma worker_becomes_inv:
  assumes "becomes r v" and "r = Some m" and "phase_inv ph v"
  shows "cache_inv \<lparr>mp = m, worker = ph\<rparr>"
  using assms by (auto simp: becomes_def cache_inv_def)

lemma short_le: "length p < MAX_PATH_SIZE \<Longrightarrow> length p \<le> MAX_PATH_SIZE"
  by simp

text \<open>In each phase, the hypotheses of the next operation of the worker hold.\<close>

lemma chosen_short:
  "phase_inv (Chosen k) v \<Longrightarrow> length (fst k) \<le> MAX_PATH_SIZE"
  using list.set_sel(1) [of "work_list v"] by (auto simp: phase_inv_def intro!: less_imp_le)

lemma promoting_new:
  "phase_inv (Promoting e) v \<Longrightarrow> e \<in> moving v \<and> e \<notin> ran (page_table v) \<and> page_table v (key_of v e) = None"
  using list.set_sel(1) [of "work_list v"] by (auto simp: phase_inv_def under_way_def unmapped_def)

lemma transfer_hashed:
  "phase_inv (Demoting e) v \<or> phase_inv (WritingBack e) v \<Longrightarrow> e \<in> moving v \<and> e \<in> ran (page_table v)"
  by (auto simp: phase_inv_def under_way_def)

lemma peak_phase:
  assumes rep: "mrep m v" and inv: "phase_inv ph v"
  shows "peak_work MAX_PATH_SIZE (wq m) = Some (wq m, if work_list v = [] then None else Some (hd (work_list v)))"
  using peak_work_sim [OF rep] inv by (simp add: phase_inv_def)

lemma user_step_keeps:
  assumes inv: "cache_inv s" and ok: "allowed (mp s) call" and step: "user_step call s t"
  shows "cache_inv t"
proof -
  from inv obtain v where rep: "mrep (mp s) v" and ph: "phase_inv (worker s) v"
    by (auto simp: cache_inv_def)
  from step show ?thesis
  proof cases
    case (user_lookup p i m r)
    with ok have len: "length p < MAX_PATH_SIZE" by simp
    from user_step_inv [OF ph lookup_sim [OF rep short_le [OF len]] user_lookup(3)]
    show ?thesis using user_lookup(2) len lookup_user_change by simp
  next
    case (user_insert p i m r)
    with ok have len: "length p < MAX_PATH_SIZE" by simp
    from user_step_inv [OF ph insert_sim [OF rep short_le [OF len]] user_insert(3)]
    show ?thesis using user_insert(2) len insert_user_change [OF rep] by simp
  next
    case (user_mark e d m)
    with ok set_dirty_sim [OF rep, of e d] mrep_fields(1) [OF rep]
      user_change_phase [OF set_dirty_user_change ph]
    show ?thesis by (auto simp: becomes_def cache_inv_def)
  next
    case (user_discard p i m r)
    with ok have "\<not> in_transfer (mp s) (p, to_cache_page_index i)" by simp
    note still = in_transfer_moving [OF rep this]
    from user_step_inv [OF ph remove_sim [OF rep still] user_discard(3)]
    show ?thesis using user_discard(2) remove_user_change [OF rep still] by simp
  qed
qed

lemma worker_step_keeps:
  assumes inv: "cache_inv s" and step: "worker_step s t"
  shows "cache_inv t"
proof -
  from inv obtain v where rep: "mrep (mp s) v" and ph: "phase_inv (worker s) v"
    by (auto simp: cache_inv_def)
  from step show ?thesis
  proof cases
    case (peek q k)
    with peak_phase [OF rep ph] phase_peek [of v] ph rep
    show ?thesis by (auto intro!: cache_invI [OF rep] split: if_splits)
  next
    case (promote k m r)
    have k: "phase_inv (Chosen k) v" using ph promote(2) by simp
    have "phase_inv (case snd (v_promotion_start k v) of Some e \<Rightarrow> Promoting e | None \<Rightarrow> TryDemotion)
        (fst (v_promotion_start k v))"
      by (rule phase_promote [OF rep k]) simp
    from worker_yields_inv [where f = "\<lambda>r. case r of Some e \<Rightarrow> Promoting e | None \<Rightarrow> TryDemotion",
        OF promotion_start_sim [OF rep chosen_short [OF k]] promote(3)] this
    show ?thesis using promote(1) by simp
  next
    case (promoted e success m)
    have e: "phase_inv (Promoting e) v" using ph promoted(2) by simp
    from worker_becomes_inv [OF promotion_complete_sim [OF rep] promoted(3) phase_promoted [OF rep e]]
      promoting_new [OF e]
    show ?thesis using promoted(1) by simp
  next
    case (demote m r)
    have "phase_inv TryDemotion v" using ph demote(2) by simp
    then have "phase_inv (case snd (v_demotion_start v) of Some e \<Rightarrow> Demoting e | None \<Rightarrow> TryWriteback)
        (fst (v_demotion_start v))"
      by (rule phase_demote [OF rep]) simp
    from worker_yields_inv [where f = "\<lambda>r. case r of Some e \<Rightarrow> Demoting e | None \<Rightarrow> TryWriteback",
        OF demotion_start_sim [OF rep] demote(3) this]
    show ?thesis using demote(1) by simp
  next
    case (demoted e success m)
    have e: "phase_inv (Demoting e) v" using ph demoted(2) by simp
    from worker_becomes_inv [OF demotion_complete_sim [OF rep] demoted(3) phase_demoted [OF e]]
      transfer_hashed e
    show ?thesis using demoted(1) by blast
  next
    case (write_back m r)
    have "phase_inv TryWriteback v" using ph write_back(2) by simp
    then have "phase_inv (case snd (v_writeback_start v) of Some e \<Rightarrow> WritingBack e | None \<Rightarrow> Served)
        (fst (v_writeback_start v))"
      by (rule phase_write_back [OF rep]) simp
    from worker_yields_inv [where f = "\<lambda>r. case r of Some e \<Rightarrow> WritingBack e | None \<Rightarrow> Served",
        OF writeback_start_sim [OF rep] write_back(3) this]
    show ?thesis using write_back(1) by simp
  next
    case (written_back e success m)
    have e: "phase_inv (WritingBack e) v" using ph written_back(2) by simp
    from worker_becomes_inv [OF writeback_complete_sim [OF rep] written_back(3) phase_written_back [OF e]]
      transfer_hashed e
    show ?thesis using written_back(1) by blast
  next
    case (finish q r)
    have e: "phase_inv Served v" using ph finish(2) by simp
    then have "work_list v \<noteq> []" by (simp add: phase_inv_def)
    from remove_work_sim [OF rep this] finish(3)
    have "mrep ((mp s)\<lparr>wq := q\<rparr>) (v\<lparr>work_list := tl (work_list v)\<rparr>)" by auto
    from cache_invI [OF this phase_finish [OF e]] show ?thesis using finish(1) by simp
  qed
qed

interpretation cache: inductive_invariant cache_ini cache_step cache_inv
  by unfold_locales
    (auto simp: cache_step_def intro: cache_inv_ini user_step_keeps worker_step_keeps)

section \<open>The worker goes on\<close>

lemma next_step:
  assumes rep: "mrep (mp s) v" and ph: "phase_inv (worker s) v" and busy: "worker s \<noteq> Idle \<or> work_list v \<noteq> []"
  shows "\<exists>t. worker_step s t"
proof (cases "worker s")
  case Idle
  with busy peak_phase [OF rep ph] show ?thesis by (auto intro: peek)
next
  case (Chosen k)
  with ph have "length (fst k) \<le> MAX_PATH_SIZE" using chosen_short by simp
  from promotion_start_sim [OF rep this] Chosen show ?thesis by (auto simp: yields_def intro: promote)
next
  case (Promoting e)
  with ph promotion_complete_sim [OF rep, of e True] promoting_new [of e v]
  have "\<exists>m. promotion_complete (mp s) e True = Some m" by (auto simp: becomes_def)
  with promoted [OF Promoting] show ?thesis by blast
next
  case TryDemotion
  with demotion_start_sim [OF rep] show ?thesis by (auto simp: yields_def intro: demote)
next
  case (Demoting e)
  with ph demotion_complete_sim [OF rep, of e True] transfer_hashed [of e v]
  have "\<exists>m. demotion_complete (mp s) e True = Some m" by (auto simp: becomes_def)
  with demoted [OF Demoting] show ?thesis by blast
next
  case TryWriteback
  with writeback_start_sim [OF rep] show ?thesis by (auto simp: yields_def intro: write_back)
next
  case (WritingBack e)
  with ph writeback_complete_sim [OF rep, of e True] transfer_hashed [of e v]
  have "\<exists>m. writeback_complete (mp s) e True = Some m" by (auto simp: becomes_def)
  with written_back [OF WritingBack] show ?thesis by blast
next
  case Served
  with ph have "work_list v \<noteq> []" by (simp add: phase_inv_def)
  from remove_work_sim [OF rep this] Served show ?thesis by (auto intro: finish)
qed

section \<open>Properties\<close>

lemma distinct_range_u32: "distinct (range_u32 0 n)"
proof -
  have "inj_on (of_nat :: nat \<Rightarrow> u32) {0..<unat n}"
  proof (rule inj_onI)
    fix i j assume "i \<in> {0..<unat n}" "j \<in> {0..<unat n}" and eq: "(of_nat i :: u32) = of_nat j"
    then have "i < 4294967296" "j < 4294967296"
      using unsigned_less [of n, where 'a = nat] by auto
    with eq show "i = j" by (metis unat_of_nat_u32)
  qed
  then show ?thesis by (simp add: range_u32_def distinct_map)
qed

lemma mrep_partition:
  assumes "mrep m v"
  shows "length (free_q v) + length (clean_q v) + length (dirty_q v) + card (moving v) = unat (blocks v)"
proof -
  note ok = mrep_entry [OF assms, unfolded entry_ok_def]
  have "set (free_q v) \<union> set (clean_q v) \<union> set (dirty_q v) \<union> moving v = {i. i < blocks v}"
    using ok by blast
  moreover have "{i. i < blocks v} = set (range_u32 0 (blocks v))" by (simp add: set_range_u32)
  moreover have "card (set (range_u32 0 (blocks v))) = unat (blocks v)"
    using distinct_card [OF distinct_range_u32] by simp
  ultimately have "card (set (free_q v) \<union> set (clean_q v) \<union> set (dirty_q v) \<union> moving v) = unat (blocks v)"
    by simp
  moreover have disj: "set (free_q v) \<inter> set (clean_q v) = {}"
    "(set (free_q v) \<union> set (clean_q v)) \<inter> set (dirty_q v) = {}"
    "(set (free_q v) \<union> set (clean_q v) \<union> set (dirty_q v)) \<inter> moving v = {}"
    using ok by blast+
  moreover have "finite (moving v)" by (rule finite)
  ultimately show ?thesis
    using distinct_card [OF mstruct_lists(1) [OF mrep_struct [OF assms]]]
      distinct_card [OF mstruct_lists(2) [OF mrep_struct [OF assms]]]
      distinct_card [OF mstruct_lists(3) [OF mrep_struct [OF assms]]]
    by (simp add: card_Un_disjoint)
qed

text \<open>
  C14. No block is lost or duplicated. In every state that allowed calls of the users and the worker can reach, the
  counters of the free, the clean and the dirty list and the one block in a transfer, if the worker has one, add
  up to the number of blocks, and the mapping lock is free between the critical sections. Allowed are paths of at
  most 31 bytes, existing blocks, and discards of pages that are not in a transfer: the code checks none of this, and
  a discard of a page in a transfer breaks the counters.
\<close>

theorem blocks_accounted:
  assumes "reachable cache_ini cache_step s"
  shows "unat (nr_elts (ea_free (ea (mp s)))) + unat (nr_elts (clean (mp s))) + unat (nr_elts (dirty (mp s)))
      + card (under_way (worker s)) = unat (cache_block_num (mp s))
    \<and> unlocked (mapping_lock (mp s))"
proof -
  obtain v where rep: "mrep (mp s) v" and ph: "phase_inv (worker s) v"
    using cache.reachable_inv [OF assms] by (auto simp: cache_inv_def)
  have "unat (nr_elts (ea_free (ea (mp s)))) = length (free_q v)"
    "unat (nr_elts (clean (mp s))) = length (clean_q v)" "unat (nr_elts (dirty (mp s))) = length (dirty_q v)"
    using mrep_struct [OF rep] nr_elts_rep by (auto simp: mstruct_def)
  with mrep_partition [OF rep] ph mrep_fields(1,3) [OF rep] show ?thesis
    by (simp add: phase_inv_def)
qed

text \<open>Reachable states for the inputs: a new cache, and one whose users have asked for a page.\<close>

lemma new_cache_reachable: "reachable cache_ini cache_step \<lparr>mp = small_cache 2, worker = Idle\<rparr>"
proof (rule reach_start)
  have "\<forall>i. param (ents blank_mapping i) = 0" "wq_inv (wq blank_mapping)" "wq_keys (wq blank_mapping) = []"
    using wq_inv_empty_wq by (simp_all add: blank_mapping_def)
  then show "cache_ini \<lparr>mp = small_cache 2, worker = Idle\<rparr>"
    unfolding cache_ini_def small_cache_def
    by (intro conjI exI [of _ blank_mapping] exI [of _ 512] exI [of _ 2]) (simp_all add: config_eqs)
qed

lemma dirty_cache_reachable: "reachable cache_ini cache_step \<lparr>mp = dirty_cache, worker = Idle\<rparr>"
proof (rule reach_step [OF new_cache_reachable])
  have "length ''f'' \<le> MAX_PATH_SIZE" by (simp add: config_eqs)
  from insert_sim [OF two_blocks_rep this, of 8] obtain r where
    "lookup_mapping_with_insert (small_cache 2) ''f'' 8 = Some (dirty_cache, r)"
    by (auto simp: yields_def dirty_cache_def)
  with user_insert [of "\<lparr>mp = small_cache 2, worker = Idle\<rparr>" "''f''" 8 dirty_cache r]
  show "cache_step \<lparr>mp = small_cache 2, worker = Idle\<rparr> \<lparr>mp = dirty_cache, worker = Idle\<rparr>"
    unfolding cache_step_def by (intro disjI1 exI [of _ "Insert ''f'' 8"]) (simp add: config_eqs)
qed

theorem blocks_accounted_witness:
  "unat (nr_elts (ea_free (ea dirty_cache))) + unat (nr_elts (clean dirty_cache)) + unat (nr_elts (dirty dirty_cache)) = 2"
  using blocks_accounted [OF dirty_cache_reachable] mrep_fields(1) [OF dirty_cache_rep]
  by (simp add: under_way_def dirty_view_def)

text \<open>
  C15. Nothing blocks. In every state that allowed calls and the worker can reach, every allowed call of a user (a
  path of at most 31 bytes, a block number below the number of blocks, for a discard a page that is not in a
  transfer) returns; and the worker can take its next step unless it is idle with an empty queue.
\<close>

theorem operations_return:
  assumes "reachable cache_ini cache_step s"
  shows "(allowed (mp s) call \<longrightarrow> (\<exists>t. user_step call s t))
    \<and> (worker s \<noteq> Idle \<or> wq_keys (wq (mp s)) \<noteq> [] \<longrightarrow> (\<exists>t. worker_step s t))"
proof -
  obtain v where rep: "mrep (mp s) v" and ph: "phase_inv (worker s) v"
    using cache.reachable_inv [OF assms] by (auto simp: cache_inv_def)
  have "\<exists>t. worker_step s t" if busy: "worker s \<noteq> Idle \<or> wq_keys (wq (mp s)) \<noteq> []"
    using next_step [OF rep ph] busy mrep_fields(5) [OF rep] by simp
  moreover have "\<exists>t. user_step call s t" if ok: "allowed (mp s) call"
  proof (cases call)
    case (Lookup p i)
    with ok lookup_sim [OF rep short_le, of p i] show ?thesis by (auto simp: yields_def intro: user_lookup)
  next
    case (Insert p i)
    with ok insert_sim [OF rep short_le, of p i] show ?thesis by (auto simp: yields_def intro: user_insert)
  next
    case (Mark e d)
    with ok set_dirty_sim [OF rep, of e d] mrep_fields(1) [OF rep] show ?thesis by (auto simp: becomes_def intro: user_mark)
  next
    case (Discard p i)
    with ok have "\<not> in_transfer (mp s) (p, to_cache_page_index i)" by simp
    from remove_sim [OF rep in_transfer_moving [OF rep this], of p i] Discard show ?thesis
      by (auto simp: yields_def intro: user_discard)
  qed
  ultimately show ?thesis by blast
qed

theorem operations_return_witness:
  "\<exists>t. user_step (Lookup ''f'' 12) \<lparr>mp = dirty_cache, worker = Idle\<rparr> t"
  using operations_return [OF dirty_cache_reachable, of "Lookup ''f'' 12"] by (simp add: config_eqs)

text \<open>
  C16. A hit returns the block of the page. In every reachable state, a lookup that hits gives an
  allocated block of the cache whose entry names the page looked up, and two lookups give the same
  block exactly when they are of the same cache page.
\<close>

theorem hit_returns_own_block:
  assumes "reachable cache_ini cache_step s" and "length p < MAX_PATH_SIZE"
    and "lookup_mapping (mp s) p i = Some (m, Some e)"
  shows "e < cache_block_num m \<and> allocated (ents m e) \<and> entry_key (ents m e) = (p, to_cache_page_index i)
    \<and> (\<forall>q j m' e'. length q < MAX_PATH_SIZE \<longrightarrow> lookup_mapping (mp s) q j = Some (m', Some e') \<longrightarrow>
         (e' = e \<longleftrightarrow> (q, to_cache_page_index j) = (p, to_cache_page_index i)))"
proof -
  obtain v where rep: "mrep (mp s) v"
    using cache.reachable_inv [OF assms(1)] by (auto simp: cache_inv_def)
  have hit: "page_table v (q, to_cache_page_index j) = Some e'
      \<and> mrep m' (v_hit e' v)" if "length q < MAX_PATH_SIZE" "lookup_mapping (mp s) q j = Some (m', Some e')"
    for q j m' e'
    using lookup_sim [OF rep short_le [OF that(1)], of j] that(2)
    by (auto simp: yields_def v_lookup_def split: option.splits)
  have own: "page_table v (p, to_cache_page_index i) = Some e" and rep': "mrep m (v_hit e v)"
    using hit [OF assms(2,3)] by simp_all
  have same: "page_table (v_hit e v) = page_table v" "key_of (v_hit e v) = key_of v"
    by (simp_all add: v_hit_def v_enqueue_tail_def v_dequeue_def)
  have e: "e \<in> ran (page_table (v_hit e v))" using own same by (auto intro: ranI)
  have "e < cache_block_num m" "allocated (ents m e)"
    using mrep_entry [OF rep', of e] e mrep_fields(1) [OF rep'] by (simp_all add: entry_ok_def)
  moreover have "entry_key (ents m e) = (p, to_cache_page_index i)"
    using mrep_fields(2) [OF rep'] mrep_lookup [OF rep own] same by simp
  moreover have "e' = e \<longleftrightarrow> (q, to_cache_page_index j) = (p, to_cache_page_index i)"
    if "length q < MAX_PATH_SIZE" "lookup_mapping (mp s) q j = Some (m', Some e')" for q j m' e'
  proof -
    have other: "page_table v (q, to_cache_page_index j) = Some e'" using hit [OF that] by simp
    show ?thesis
    proof
      assume "e' = e"
      then show "(q, to_cache_page_index j) = (p, to_cache_page_index i)"
        using mrep_lookup [OF rep own] mrep_lookup [OF rep other] by simp
    qed (use own other in simp)
  qed
  ultimately show ?thesis by blast
qed

theorem hit_returns_own_block_witness:
  "\<exists>m. lookup_mapping dirty_cache ''f'' 12 = Some (m, Some 0) \<and> entry_key (ents m 0) = (''f'', 1)"
proof -
  have len: "length ''f'' < MAX_PATH_SIZE" by (simp add: config_eqs)
  have index: "to_cache_page_index 12 = 1" by (simp add: to_cache_page_index_def drop_bit_eq_div)
  have "v_lookup (''f'', 1) dirty_view = (dirty_view, Some 0)"
    by (simp add: v_lookup_def dirty_view_def v_hit_def)
  then obtain m where m: "lookup_mapping dirty_cache ''f'' 12 = Some (m, Some 0)"
    using lookup_sim [OF dirty_cache_rep short_le [OF len], of 12] by (auto simp: yields_def index)
  with hit_returns_own_block [OF dirty_cache_reachable len, of 12 m 0] show ?thesis by (auto simp: index)
qed

text \<open>
  C17. Transfers exclude each other and double caching. In every state that allowed calls (discards of pages in a
  transfer are not) and the worker can reach, the pending entries are exactly the one the worker is moving, and while
  a page is being promoted no lookup finds it and no insertion caches it a second time.
\<close>

theorem transfer_is_exclusive:
  assumes "reachable cache_ini cache_step s"
  shows "(\<forall>i < cache_block_num (mp s). pending (ents (mp s) i) \<longleftrightarrow> i \<in> under_way (worker s))
    \<and> (\<forall>e p j. worker s = Promoting e \<and> entry_key (ents (mp s) e) = (p, to_cache_page_index j) \<longrightarrow>
         (\<exists>m. lookup_mapping (mp s) p j = Some (m, None))
         \<and> (\<exists>m. lookup_mapping_with_insert (mp s) p j = Some (m, None)))"
proof -
  obtain v where rep: "mrep (mp s) v" and ph: "phase_inv (worker s) v"
    using cache.reachable_inv [OF assms] by (auto simp: cache_inv_def)
  have "(\<exists>m. lookup_mapping (mp s) p j = Some (m, None)) \<and> (\<exists>m. lookup_mapping_with_insert (mp s) p j = Some (m, None))"
    if prom: "worker s = Promoting e" and key: "entry_key (ents (mp s) e) = (p, to_cache_page_index j)" for e p j
  proof -
    have inv: "phase_inv (Promoting e) v" using ph prom by simp
    have k: "key_of v e = (p, to_cache_page_index j)" using key mrep_fields(2) [OF rep] by simp
    then have hd: "(p, to_cache_page_index j) \<in> set (work_list v)"
      using inv list.set_sel(1) [of "work_list v"] by (auto simp: phase_inv_def)
    then have len: "length p \<le> MAX_PATH_SIZE" using inv by (fastforce simp: phase_inv_def)
    have new: "page_table v (p, to_cache_page_index j) = None" using promoting_new [OF inv] k by simp
    have queued: "v_queued p (to_cache_page_index j) v" unfolding v_queued_def by (rule bexI [OF _ hd]) simp
    show ?thesis
      using lookup_sim [OF rep len, of j] insert_sim [OF rep len, of j] new queued
      by (auto simp: yields_def v_lookup_def v_insert_def)
  qed
  moreover have "\<forall>i < cache_block_num (mp s). pending (ents (mp s) i) \<longleftrightarrow> i \<in> under_way (worker s)"
    using mrep_flags(2) [OF rep] mrep_fields(1) [OF rep] ph by (simp add: phase_inv_def)
  ultimately show ?thesis by blast
qed

text \<open>Input: a page that has been asked for and is being promoted.\<close>

lemma range_u32_two: "range_u32 0 2 = [0, 1]"
proof -
  have "[0..<2] = [0, 1::nat]" by (simp add: upt_rec)
  then show ?thesis by (simp add: range_u32_def)
qed

lemma promotion_reachable:
  obtains m e where "reachable cache_ini cache_step \<lparr>mp = m, worker = Promoting e\<rparr>" "entry_key (ents m e) = (''f'', 1)"
    "e < cache_block_num m"
proof -
  let ?v = "v_init 2 6 (\<lambda>_. ([], 0))" and ?s0 = "\<lparr>mp = small_cache 2, worker = Idle\<rparr>"
  let ?v1 = "?v\<lparr>work_list := [(''f'', 1)]\<rparr>"
  have len: "length ''f'' \<le> MAX_PATH_SIZE" by (simp add: config_eqs)
  have "v_lookup (''f'', 1) ?v = (?v1, None)" by (simp add: v_lookup_def v_init_def v_add_work_def config_eqs)
  then obtain m1 where m1: "lookup_mapping (small_cache 2) ''f'' 8 = Some (m1, None)" "mrep m1 ?v1"
    using lookup_sim [OF two_blocks_rep len, of 8] by (auto simp: yields_def page_index_8)
  have "cache_step ?s0 \<lparr>mp = m1, worker = Idle\<rparr>"
    unfolding cache_step_def using user_lookup [of ?s0 "''f''" 8 m1 None] m1(1)
    by (intro disjI1 exI [of _ "Lookup ''f'' 8"]) (simp add: config_eqs)
  from reach_step [OF new_cache_reachable this] have s1: "reachable cache_ini cache_step \<lparr>mp = m1, worker = Idle\<rparr>" .
  obtain q where q: "peak_work MAX_PATH_SIZE (wq m1) = Some (q, Some (''f'', 1))" "q = wq m1"
    using peak_work_sim [OF m1(2)] by (auto simp: config_eqs)
  have "cache_step \<lparr>mp = m1, worker = Idle\<rparr> \<lparr>mp = m1, worker = Chosen (''f'', 1)\<rparr>"
    unfolding cache_step_def using peek [of "\<lparr>mp = m1, worker = Idle\<rparr>" q "(''f'', 1)"] q by simp
  from reach_step [OF s1 this] have s2: "reachable cache_ini cache_step \<lparr>mp = m1, worker = Chosen (''f'', 1)\<rparr>" .
  obtain v2 e where start: "v_promotion_start (''f'', 1) ?v1 = (v2, Some e)" "key_of v2 e = (''f'', 1)" "e < blocks v2"
    by (rule that [of "fst (v_promotion_start (''f'', 1) ?v1)" 0]) (simp_all add: v_promotion_start_def v_init_def range_u32_two)
  obtain m2 where m2: "promotion_free_to_clean m1 ''f'' 1 = Some (m2, Some e)" "mrep m2 v2"
    using promotion_start_sim [OF m1(2), of "''f''" 1] start len by (auto elim: yieldsE)
  have "cache_step \<lparr>mp = m1, worker = Chosen (''f'', 1)\<rparr> \<lparr>mp = m2, worker = Promoting e\<rparr>"
    unfolding cache_step_def using promote [of "\<lparr>mp = m1, worker = Chosen (''f'', 1)\<rparr>" "(''f'', 1)" m2 "Some e"] m2(1) by simp
  from reach_step [OF s2 this] show thesis
    by (rule that) (use mrep_fields(1,2) [OF m2(2)] start(2,3) in simp_all)
qed

theorem transfer_is_exclusive_witness:
  "\<exists>m e. reachable cache_ini cache_step \<lparr>mp = m, worker = Promoting e\<rparr> \<and> pending (ents m e)
    \<and> (\<exists>m'. lookup_mapping m ''f'' 8 = Some (m', None)) \<and> (\<exists>m'. lookup_mapping_with_insert m ''f'' 8 = Some (m', None))"
proof -
  obtain m e where s: "reachable cache_ini cache_step \<lparr>mp = m, worker = Promoting e\<rparr>" "entry_key (ents m e) = (''f'', 1)"
    "e < cache_block_num m"
    by (rule promotion_reachable)
  from transfer_is_exclusive [OF s(1)] s(2,3) have "pending (ents m e)" "\<exists>m'. lookup_mapping m ''f'' 8 = Some (m', None)"
    "\<exists>m'. lookup_mapping_with_insert m ''f'' 8 = Some (m', None)"
    by (auto simp: under_way_def page_index_8)
  with s(1) show ?thesis by blast
qed

text \<open>
  C25. A discard of a page in a transfer corrupts the mapping. \<open>remove_mapping\<close> does not look at the
  pending flag: for a page under writeback (or demotion) it takes the entry, which is in no list, out
  of the clean list. With no clean block the count of that list wraps around to 4294967295.
\<close>

theorem discard_in_transfer_corrupts:
  assumes rep: "mrep m v" and cached: "page_table v (p, to_cache_page_index i) = Some e"
    and e: "e \<in> moving v" "e \<notin> marked v" and none: "clean_q v = []"
  shows "\<exists>m'. remove_mapping m p i = Some (m', True) \<and> nr_elts (clean m') = 4294967295"
proof (rule locked_lookup [OF rep, of p "to_cache_page_index i"])
  fix m0 m1
  assume lock: "lock_mapping m = Some m0"
    and look: "hash_lookup p (to_cache_page_index i) m0 = Some (m1, page_table v (p, to_cache_page_index i))"
    and m1: "mstruct m1 (free_q v) (clean_q v) (dirty_q v) (ran (page_table v))" "same_data m m1"
  have hashed: "e \<in> ran (page_table v)" using cached by (rule ranI)
  have "\<not> dirty_bit (ents m1 e)"
    using mrep_entry [OF rep, of e] e same_data_flags [OF m1(2)] by (simp add: entry_ok_def)
  then have del: "queue_del e m1 = (case l_del (ents m1) (clean m1) e of (s, l) \<Rightarrow> set_ents s (m1\<lparr>clean := l\<rparr>))"
    by (simp add: queue_del_def)
  obtain s l where sl: "l_del (ents m1) (clean m1) e = (s, l)" by fastforce
  have "unat (nr_elts (clean m1)) = 0" using nr_elts_length(1) [OF m1(1)] none by simp
  then have "nr_elts l = - 1" using sl by (auto simp: l_del_def unat_eq_zero split: option.splits)
  moreover have "table s (htable m1) (ran (page_table v))"
    using l_del_table [OF _ sl] m1(1) by (simp add: mstruct_def)
  then obtain t s' where "h_remove (htable m1) s e = Some (t, s')"
    using h_remove_table [OF _ hashed] by metis
  then have "hash_remove e (queue_del e m1) = Some (set_ents s' ((queue_del e m1)\<lparr>htable := t\<rparr>))"
    by (simp add: hash_remove_def del sl)
  ultimately show ?thesis
    using lock look cached
    by (simp add: remove_mapping_def Let_def release_entry_def free_entry_def del sl unlock_mapping_def case_prod_unfold)
qed

theorem discard_in_transfer_corrupts_witness:
  "\<exists>m1 m2. writeback_dirty_to_clean dirty_cache = Some (m1, Some 0)
    \<and> remove_mapping m1 ''f'' 8 = Some (m2, True) \<and> nr_elts (clean m2) = 4294967295"
proof -
  let ?v = "dirty_view\<lparr>dirty_q := [], marked := {}, moving := {0}\<rparr>"
  have "v_writeback_start dirty_view = (?v, Some 0)"
    by (simp add: v_writeback_start_def dirty_view_def)
  then obtain m1 where m1: "writeback_dirty_to_clean dirty_cache = Some (m1, Some 0)" "mrep m1 ?v"
    using writeback_start_sim [OF dirty_cache_rep] by (auto elim: yieldsE)
  have "page_table ?v (''f'', to_cache_page_index 8) = Some 0"
    by (simp add: dirty_view_def page_index_8)
  from discard_in_transfer_corrupts [OF m1(2) this] m1(1) show ?thesis
    by (auto simp: dirty_view_def)
qed

end
