(* ===== verification/Pio.thy ===== *)
theory Pio
  imports Prelude
begin

text \<open>
  Page requests, from \<^verbatim>\<open>dm-cache/lib/pio.c\<close>: a linked list of nodes on the heap, one per 4 KB page.
  The heap is a partial map from addresses to nodes; NULL is 0. \<open>malloc\<close> is a parameter that
  gives an address without a node, or NULL. Following a pointer to no node, and freeing it, is
  undefined, and the result None.
\<close>

section \<open>Nodes and operations\<close>

record pio =
  pio_path :: path
  pio_fd :: int
  page_index :: u32
  operation :: operate
  buffer :: u64
  pio_cnt :: u32
  pio_next :: u64

type_synonym pio_heap = "u64 \<Rightarrow> pio option"

definition create_pio :: "(pio_heap \<Rightarrow> u64) \<Rightarrow> pio_heap \<Rightarrow> path \<Rightarrow> int \<Rightarrow> u32 \<Rightarrow> operate \<Rightarrow> u64 \<Rightarrow> u32 \<Rightarrow>
    pio_heap \<times> u64" where
  "create_pio malloc h name fd index op buf cnt =
     (let new_pio = malloc h
      in if new_pio = 0 then (h, 0)
         else (h(new_pio \<mapsto> \<lparr>pio_path = name, pio_fd = fd, page_index = index, operation = op,
                  buffer = buf, pio_cnt = cnt, pio_next = 0\<rparr>), new_pio))"

partial_function (option) last_pio :: "pio_heap \<Rightarrow> u64 \<Rightarrow> u64 option" where
  "last_pio h current =
     (case h current of
        None \<Rightarrow> None
      | Some node \<Rightarrow> if pio_next node \<noteq> 0 then last_pio h (pio_next node) else Some current)"

definition append_pio :: "(pio_heap \<Rightarrow> u64) \<Rightarrow> pio_heap \<Rightarrow> u64 \<Rightarrow> u64 \<Rightarrow> pio_heap option" where
  "append_pio malloc h head buf = do {
     current \<leftarrow> last_pio h head;
     node \<leftarrow> h current;
     let (h, new_pio) = create_pio malloc h (pio_path node) (pio_fd node) (page_index node + 1)
                          (operation node) buf (pio_cnt node);
     node \<leftarrow> h current;
     Some (h(current \<mapsto> node\<lparr>pio_next := new_pio\<rparr>)) }"

partial_function (option) free_pio :: "pio_heap \<Rightarrow> u64 \<Rightarrow> pio_heap option" where
  "free_pio h head =
     (if head = 0 then Some h
      else case h head of
        None \<Rightarrow> None
      | Some node \<Rightarrow> do { h \<leftarrow> free_pio h (pio_next node); Some (h(head := None)) })"

section \<open>Lists of nodes\<close>

text \<open>The nodes reached from a pointer, with their addresses.\<close>

fun pio_list :: "pio_heap \<Rightarrow> u64 \<Rightarrow> (u64 \<times> pio) list \<Rightarrow> bool" where
  "pio_list h p [] \<longleftrightarrow> p = 0"
| "pio_list h p ((a, node) # ns) \<longleftrightarrow>
     p = a \<and> a \<noteq> 0 \<and> h a = Some node \<and> a \<notin> fst ` set ns \<and> pio_list h (pio_next node) ns"

lemma pio_list_dom: "pio_list h p ns \<Longrightarrow> (a, node) \<in> set ns \<Longrightarrow> h a = Some node"
  by (induction ns arbitrary: p) auto

lemma pio_list_cong: "pio_list h p ns \<Longrightarrow> (\<And>a. a \<in> fst ` set ns \<Longrightarrow> h' a = h a) \<Longrightarrow> pio_list h' p ns"
  by (induction h p ns rule: pio_list.induct) auto

lemma last_pio_list:
  "pio_list h p ns \<Longrightarrow> ns \<noteq> [] \<Longrightarrow> last_pio h p = Some (fst (last ns))"
proof (induction h p ns rule: pio_list.induct)
  case (2 h p a node ns)
  show ?case
  proof (cases ns)
    case Nil
    with 2 show ?thesis by (simp add: last_pio.simps [of h a])
  next
    case (Cons n ns')
    with 2 have "pio_next node \<noteq> 0" by (cases n) simp
    with 2 Cons show ?thesis by (simp add: last_pio.simps [of h a])
  qed
qed simp

lemma pio_list_snoc:
  assumes "pio_list h p (ns @ [(a, node)])" and "b \<noteq> 0" and "h b = None" and "pio_next new = 0"
  shows "pio_list (h(b \<mapsto> new, a \<mapsto> node\<lparr>pio_next := b\<rparr>)) p (ns @ [(a, node\<lparr>pio_next := b\<rparr>), (b, new)])"
  using assms
proof (induction ns arbitrary: p)
  case Nil
  then show ?case by auto
next
  case (Cons n ns)
  obtain c m where n: "n = (c, m)" by fastforce
  have c: "h c = Some m" "c \<noteq> a" "c \<notin> fst ` set ns" using Cons.prems(1) n by auto
  then have "c \<noteq> b" using Cons.prems(3) by auto
  with Cons c n show ?case by auto
qed

lemma free_pio_list:
  assumes "pio_list h p ns"
  shows "free_pio h p = Some (\<lambda>a. if a \<in> fst ` set ns then None else h a)"
  using assms
proof (induction h p ns rule: pio_list.induct)
  case (1 h p)
  then show ?case by (simp add: free_pio.simps [of h])
next
  case (2 h p a node ns)
  then show ?case by (auto simp: free_pio.simps [of h a] fun_eq_iff)
qed

text \<open>What \<open>append_pio\<close> does to the heap.\<close>

lemma append_pio_list:
  fixes buf :: u64
  assumes "pio_list h p (ns @ [(a, node)])" and "malloc h \<noteq> 0" and "h (malloc h) = None"
  defines "new \<equiv> node\<lparr>page_index := page_index node + 1, buffer := buf, pio_next := 0\<rparr>"
  defines "h' \<equiv> h(malloc h \<mapsto> new, a \<mapsto> node\<lparr>pio_next := malloc h\<rparr>)"
  shows "append_pio malloc h p buf = Some h'"
    and "pio_list h' p (ns @ [(a, node\<lparr>pio_next := malloc h\<rparr>), (malloc h, new)])"
proof -
  have a: "h a = Some node" using pio_list_dom [OF assms(1), of a node] by simp
  then have ne: "malloc h \<noteq> a" using assms(3) by auto
  have "\<lparr>pio_path = pio_path node, pio_fd = pio_fd node, page_index = page_index node + 1,
      operation = operation node, buffer = buf, pio_cnt = pio_cnt node, pio_next = 0\<rparr> = new"
    by (simp add: new_def)
  then show "append_pio malloc h p buf = Some h'"
    using last_pio_list [OF assms(1)] a ne assms(2)
    by (simp add: append_pio_def create_pio_def Let_def h'_def)
  show "pio_list h' p (ns @ [(a, node\<lparr>pio_next := malloc h\<rparr>), (malloc h, new)])"
    unfolding h'_def by (rule pio_list_snoc [OF assms(1-3)]) (simp add: new_def)
qed

section \<open>Properties\<close>

text \<open>
  \<open>append_pio\<close> on a list of requests adds one node at its end, whose page is the one after the
  last node's and which shares its file, operation and page count; the other nodes stay as they are.
  \<open>free_pio\<close> then frees exactly the nodes of the longer list, each of them once.
\<close>

theorem append_then_free:
  assumes "pio_list h p (ns @ [(a, node)])" and "malloc h \<noteq> 0" and "h (malloc h) = None"
  shows "\<exists>h' node' new. append_pio malloc h p buf = Some h'
    \<and> pio_list h' p (ns @ [(a, node'), (malloc h, new)])
    \<and> node' = node\<lparr>pio_next := malloc h\<rparr>
    \<and> new = node\<lparr>page_index := page_index node + 1, buffer := buf, pio_next := 0\<rparr>
    \<and> free_pio h' p = Some (\<lambda>b. if b \<in> fst ` set ns \<union> {a, malloc h} then None else h b)"
proof -
  let ?new = "node\<lparr>page_index := page_index node + 1, buffer := buf, pio_next := 0\<rparr>"
  let ?h = "h(malloc h \<mapsto> ?new, a \<mapsto> node\<lparr>pio_next := malloc h\<rparr>)"
  note append = append_pio_list(1) [where malloc = malloc, OF assms, where buf = buf] and list = append_pio_list(2) [where malloc = malloc, OF assms, where buf = buf]
  have "free_pio ?h p = Some (\<lambda>b. if b \<in> fst ` set ns \<union> {a, malloc h} then None else h b)"
    unfolding free_pio_list [OF list] by (auto simp: fun_eq_iff)
  with append list show ?thesis by blast
qed

text \<open>A list of one node, and a heap that hands out address 16 next.\<close>

definition one_pio :: pio where
  "one_pio = \<lparr>pio_path = ''f'', pio_fd = 0, page_index = 8, operation = WRITE, buffer = 4096, pio_cnt = 2, pio_next = 0\<rparr>"

theorem append_then_free_witness:
  "\<exists>h. append_pio (\<lambda>_. 16) [8 \<mapsto> one_pio] 8 8192 = Some h
     \<and> pio_list h 8 [(8, one_pio\<lparr>pio_next := 16\<rparr>), (16, one_pio\<lparr>page_index := 9, buffer := 8192\<rparr>)]"
  using append_then_free [of "[8 \<mapsto> one_pio]" 8 "[]" 8 one_pio "\<lambda>_. 16" 8192]
  by (simp add: one_pio_def) blast

end
