(* ===== verification/Target.thy ===== *)
theory Target
  imports Migration Pio
begin

text \<open>
  Processing of a page request, from \<^verbatim>\<open>dm-cache/lib/ssd_cache_target.c\<close>: the checks, the routing to the
  cache device or to the file, and the return codes. The buffers' contents belong to the machine; the
  value of \<^verbatim>\<open>strlen\<close> in \<open>pio_to_iovec\<close> is overwritten at once and left out.
\<close>

section \<open>State\<close>

record device =
  dev_block_size :: u32
  device_size :: u64
  dev_cache_block_num :: u32
  dev_block_per_cblock_shift :: u32
  dev_block_per_page_shift :: u32

record cache_state =
  running :: bool
  user_count :: u32
  state_lock :: spinlock

record cache =
  cache_state :: cache_state
  cache_dev :: device
  cache_map :: mapping
  mg_worker :: u64
  wb_worker :: u64

section \<open>Vectors of pages\<close>

fun pio_to_iovec :: "pio_heap \<Rightarrow> u64 \<Rightarrow> nat \<Rightarrow> iovec list option" where
  "pio_to_iovec h p 0 = Some []"
| "pio_to_iovec h p (Suc n) = do {
     node \<leftarrow> h p;
     rest \<leftarrow> pio_to_iovec h (pio_next node) n;
     Some (\<lparr>iov_base = buffer node, iov_len = ucast PAGE_SIZE\<rparr> # rest) }"

definition target_block :: "cache \<Rightarrow> pio \<Rightarrow> u32 \<Rightarrow> u32" where
  "target_block c node cblock =
     push_bit (unat (block_per_cblock_shift (cache_map c))) cblock
     + push_bit (unat (dev_block_per_page_shift (cache_dev c))) (page_index node AND MOD_PAGE_PER_CBLOCK_SHIFT)"

definition num_blocks :: "cache \<Rightarrow> pio \<Rightarrow> u32" where
  "num_blocks c node = push_bit (unat (dev_block_per_page_shift (cache_dev c))) (pio_cnt node)"

section \<open>Input and output\<close>

definition write_cache :: "'w system \<Rightarrow> target \<Rightarrow> pio_heap \<Rightarrow> cache \<Rightarrow> u64 \<Rightarrow> u32 \<Rightarrow> 'w \<Rightarrow> ((cache \<times> 'w) \<times> int) option" where
  "write_cache sys t h c p cblock w = do {
     node \<leftarrow> h p;
     let iov_cnt = unat (pio_cnt node);
     iovs \<leftarrow> pio_to_iovec h p iov_cnt;
     (rc, w) \<leftarrow> writev_spdk sys t iovs iov_cnt (ucast (target_block c node cblock)) (num_blocks c node) IO_QUEUE w;
     if rc \<noteq> 0 then Some ((c, w), rc)
     else do {
       m \<leftarrow> set_dirty_after_write (cache_map c) cblock True;
       Some ((c\<lparr>cache_map := m\<rparr>, w), rc) } }"

definition read_cache :: "'w system \<Rightarrow> target \<Rightarrow> pio_heap \<Rightarrow> cache \<Rightarrow> u64 \<Rightarrow> u32 \<Rightarrow> 'w \<Rightarrow> ((cache \<times> 'w) \<times> int) option" where
  "read_cache sys t h c p cblock w = do {
     node \<leftarrow> h p;
     let iov_cnt = unat (pio_cnt node);
     iovs \<leftarrow> pio_to_iovec h p iov_cnt;
     (rc, w) \<leftarrow> readv_spdk sys t iovs iov_cnt (ucast (target_block c node cblock)) (num_blocks c node) IO_QUEUE w;
     if rc \<noteq> 0 then Some ((c, w), rc) else Some ((c, w), rc) }"

definition write_origin :: "'w system \<Rightarrow> pio_heap \<Rightarrow> cache \<Rightarrow> u64 \<Rightarrow> 'w \<Rightarrow> ((cache \<times> 'w) \<times> int) option" where
  "write_origin sys h c p w = do {
     node \<leftarrow> h p;
     let iov_cnt = unat (pio_cnt node);
     iov \<leftarrow> pio_to_iovec h p iov_cnt;
     if pio_fd node = 0 then
       (case sys_open sys (pio_path node) O_WRONLY True w of (fd, w) \<Rightarrow>
          if fd < 0 then Some ((c, w), 1)
          else case sys_pwritev sys fd iov (ucast (push_bit 12 (page_index node))) w of (res, w) \<Rightarrow>
            Some ((c, sys_close sys fd w), if res = 0 then 0 else 1))
     else
       (case sys_pwritev sys (pio_fd node) iov (ucast (push_bit 12 (page_index node))) w of (res, w) \<Rightarrow>
          Some ((c, w), if res = 0 then 0 else 1)) }"

definition read_origin :: "'w system \<Rightarrow> pio_heap \<Rightarrow> cache \<Rightarrow> u64 \<Rightarrow> 'w \<Rightarrow> ((cache \<times> 'w) \<times> int) option" where
  "read_origin sys h c p w = do {
     node \<leftarrow> h p;
     let iov_cnt = unat (pio_cnt node);
     iov \<leftarrow> pio_to_iovec h p iov_cnt;
     if pio_fd node = 0 then
       (case sys_open sys (pio_path node) O_RDONLY True w of (fd, w) \<Rightarrow>
          if fd < 0 then Some ((c, w), 1)
          else case sys_preadv sys fd iov (ucast (push_bit 12 (page_index node))) w of (res, w) \<Rightarrow>
            Some ((c, sys_close sys fd w), if res = 0 then 0 else 1))
     else
       (case sys_preadv sys (pio_fd node) iov (ucast (push_bit 12 (page_index node))) w of (res, w) \<Rightarrow>
          Some ((c, w), if res = 0 then 0 else 1)) }"

definition map_to_cache :: "'w system \<Rightarrow> target \<Rightarrow> pio_heap \<Rightarrow> cache \<Rightarrow> u64 \<Rightarrow> u32 \<Rightarrow> 'w \<Rightarrow> ((cache \<times> 'w) \<times> int) option" where
  "map_to_cache sys t h c p cblock w = do {
     node \<leftarrow> h p;
     if operation node = READ then read_cache sys t h c p cblock w else write_cache sys t h c p cblock w }"

definition map_to_origin :: "'w system \<Rightarrow> pio_heap \<Rightarrow> cache \<Rightarrow> u64 \<Rightarrow> 'w \<Rightarrow> ((cache \<times> 'w) \<times> int) option" where
  "map_to_origin sys h c p w = do {
     node \<leftarrow> h p;
     if operation node = READ then read_origin sys h c p w else write_origin sys h c p w }"

section \<open>Requests\<close>

definition check_pio :: "pio \<Rightarrow> bool" where
  "check_pio node \<longleftrightarrow> 8 - (page_index node AND 7) \<ge> pio_cnt node"

definition overwritable :: "pio \<Rightarrow> bool" where
  "overwritable node \<longleftrightarrow> pio_cnt node = 8 \<and> page_index node AND 0b111 = 0"

definition optimizable :: "pio \<Rightarrow> bool" where
  "optimizable node \<longleftrightarrow> operation node = WRITE \<and> overwritable node"

definition discard_pio :: "pio_heap \<Rightarrow> cache \<Rightarrow> u64 \<Rightarrow> (cache \<times> int) option" where
  "discard_pio h c p = do {
     node \<leftarrow> h p;
     if \<not> check_pio node then Some (c, 1)
     else do {
       (m, removed) \<leftarrow> remove_mapping (cache_map c) (pio_path node) (page_index node);
       Some (c\<lparr>cache_map := m\<rparr>, if removed then 1 else 0) } }"

definition map_pio :: "'w system \<Rightarrow> target \<Rightarrow> pio_heap \<Rightarrow> cache \<Rightarrow> u64 \<Rightarrow> 'w \<Rightarrow> ((cache \<times> 'w) \<times> int) option" where
  "map_pio sys t h c p w = do {
     node \<leftarrow> h p;
     if \<not> check_pio node then Some ((c, w), 1)
     else do {
       (m, cblock) \<leftarrow> (if optimizable node
          then lookup_mapping_with_insert (cache_map c) (pio_path node) (page_index node)
          else lookup_mapping (cache_map c) (pio_path node) (page_index node));
       let c = c\<lparr>cache_map := m\<rparr>;
       case cblock of
         Some cblock \<Rightarrow> map_to_cache sys t h c p cblock w
       | None \<Rightarrow> map_to_origin sys h c p w } }"

definition submit_to_target :: "'w system \<Rightarrow> target \<Rightarrow> pio_heap \<Rightarrow> cache \<Rightarrow> u64 \<Rightarrow> 'w \<Rightarrow> ((cache \<times> 'w) \<times> int) option" where
  "submit_to_target sys t h c p w = do {
     node \<leftarrow> h p;
     if operation node = DISCARD
     then do { (c, rc) \<leftarrow> discard_pio h c p; Some ((c, w), rc) }
     else map_pio sys t h c p w }"

section \<open>Vectors\<close>

definition page_vector :: "(u64 \<times> pio) list \<Rightarrow> iovec list" where
  "page_vector ns = map (\<lambda>(a, node). \<lparr>iov_base = buffer node, iov_len = ucast PAGE_SIZE\<rparr>) ns"

lemma pio_to_iovec_take:
  "pio_list h p ns \<Longrightarrow> n \<le> length ns \<Longrightarrow> pio_to_iovec h p n = Some (page_vector (take n ns))"
proof (induction h p ns arbitrary: n rule: pio_list.induct)
  case (2 h p a node ns)
  then show ?case by (cases n) (simp_all add: page_vector_def)
qed (simp add: page_vector_def)

lemma pio_to_iovec_short:
  "pio_list h p ns \<Longrightarrow> h 0 = None \<Longrightarrow> length ns < n \<Longrightarrow> pio_to_iovec h p n = None"
proof (induction h p ns arbitrary: n rule: pio_list.induct)
  case (1 h p)
  then show ?case by (cases n) simp_all
next
  case (2 h p a node ns)
  then show ?case by (cases n) simp_all
qed

lemma pio_to_iovec_whole:
  "pio_list h p ns \<Longrightarrow> n = length ns \<Longrightarrow> pio_to_iovec h p n = Some (page_vector ns)"
  using pio_to_iovec_take [of h p ns n] by simp

lemma pio_to_iovec_other_page:
  "h p = Some node \<Longrightarrow> pio_to_iovec (h(p \<mapsto> node\<lparr>page_index := i\<rparr>)) q n = pio_to_iovec h q n"
  by (induction n arbitrary: q) (auto split: option.split)

section \<open>Arithmetic\<close>

lemma unat_push_bit_small: "unat (w :: u32) * 2 ^ n < 2 ^ 32 \<Longrightarrow> unat (push_bit n w) = unat w * 2 ^ n"
  by (subst unsigned_push_bit_eq) (simp add: push_bit_eq_mult take_bit_nat_eq_self)

lemma unat_and_7: "unat ((w :: u32) AND 7) = unat w mod 8"
proof -
  have "w AND 7 = take_bit 3 w" by (simp add: take_bit_eq_mask mask_eq_exp_minus_1)
  then show ?thesis by (simp add: take_bit_eq_mod unat_mod)
qed

lemma check_pio_iff: "check_pio node \<longleftrightarrow> unat (page_index node) mod 8 + unat (pio_cnt node) \<le> 8"
proof -
  have "unat (8 - (page_index node AND 7)) = 8 - unat (page_index node) mod 8"
    using unat_and_7 [of "page_index node"] by (simp add: unat_sub word_le_nat_alt)
  moreover have "unat (page_index node) mod 8 < 8" by simp
  ultimately show ?thesis unfolding check_pio_def word_le_nat_alt by linarith
qed

section \<open>Blocks of a request\<close>

text \<open>A device whose pages have \<open>2 ^ ps\<close> blocks, as \<open>init_ssd_cache\<close> sets it up.\<close>

definition device_ok :: "cache \<Rightarrow> nat \<Rightarrow> bool" where
  "device_ok c ps \<longleftrightarrow> ps \<le> 12 \<and> dev_block_per_page_shift (cache_dev c) = of_nat ps
     \<and> block_per_cblock_shift (cache_map c) = of_nat (ps + 3)"

lemma device_ok_shifts:
  assumes "device_ok c ps"
  shows "unat (dev_block_per_page_shift (cache_dev c)) = ps"
    and "unat (block_per_cblock_shift (cache_map c)) = ps + 3"
  using assms by (simp_all add: device_ok_def unat_of_nat_u32 del: of_nat_add)

lemma target_block_value:
  assumes dev: "device_ok c ps" and cblock: "cblock < CACHE_BLOCK_NUMBER"
  shows "unat (target_block c node cblock) = (unat cblock * 8 + unat (page_index node) mod 8) * 2 ^ ps"
proof -
  have ps: "ps \<le> 12" using dev by (simp add: device_ok_def)
  have cb: "unat cblock < 32768" using cblock by (simp add: config_eqs word_less_nat_alt)
  have pow: "(2 :: nat) ^ ps \<le> 2 ^ 12" by (rule power_increasing [OF ps]) simp
  have page: "unat (page_index node) mod 8 < 8" by simp
  have "unat cblock * 8 + unat (page_index node) mod 8 \<le> 262143" using cb page by simp
  then have "(unat cblock * 8 + unat (page_index node) mod 8) * 2 ^ ps \<le> 262143 * 2 ^ 12"
    using pow by (rule mult_le_mono)
  then have small: "(unat cblock * 8 + unat (page_index node) mod 8) * 2 ^ ps < 2 ^ 32" by simp
  have "unat cblock * 2 ^ (ps + 3) < 2 ^ 32" "unat (page_index node AND 7) * 2 ^ ps < 2 ^ 32"
    using small by (auto simp: power_add unat_and_7 algebra_simps)
  then have "unat (push_bit (ps + 3) cblock) = unat cblock * 2 ^ (ps + 3)"
    "unat (push_bit ps (page_index node AND 7)) = unat (page_index node) mod 8 * 2 ^ ps"
    by (simp_all add: unat_push_bit_small unat_and_7 del: push_bit_and)
  then have "unat (push_bit (ps + 3) cblock) + unat (push_bit ps (page_index node AND 7))
      = (unat cblock * 8 + unat (page_index node) mod 8) * 2 ^ ps"
    by (simp only: power_add distrib_right mult.assoc) simp
  with small show ?thesis
    unfolding target_block_def device_ok_shifts [OF dev] MOD_PAGE_PER_CBLOCK_SHIFT_def unat_word_ariths(1)
    by simp
qed

lemma num_blocks_value:
  assumes dev: "device_ok c ps" and "check_pio node"
  shows "unat (num_blocks c node) = unat (pio_cnt node) * 2 ^ ps"
proof -
  have ps: "ps \<le> 12" using dev by (simp add: device_ok_def)
  have "unat (pio_cnt node) \<le> 8" using assms(2) by (simp add: check_pio_iff)
  then have "unat (pio_cnt node) * 2 ^ ps \<le> 8 * 2 ^ 12"
    by (intro mult_le_mono power_increasing [OF ps]) simp_all
  then show ?thesis
    by (simp add: num_blocks_def device_ok_shifts [OF dev] unat_push_bit_small)
qed

section \<open>Routing\<close>

text \<open>The access to the page table that a request makes, on the view of the mapping.\<close>

definition v_access :: "pio \<Rightarrow> cache_view \<Rightarrow> cache_view \<times> u32 option" where
  "v_access node v =
     (let k = (pio_path node, to_cache_page_index (page_index node))
      in if optimizable node then v_insert k v else v_lookup k v)"

lemma map_pio_routes:
  assumes rep: "mrep (cache_map c) v" and node: "h p = Some node" and "check_pio node"
    and len: "length (pio_path node) \<le> MAX_PATH_SIZE" and access: "v_access node v = (v', x)"
  obtains m where "mrep m v'"
    "map_pio sys t h c p w = (case x of Some e \<Rightarrow> map_to_cache sys t h (c\<lparr>cache_map := m\<rparr>) p e w
       | None \<Rightarrow> map_to_origin sys h (c\<lparr>cache_map := m\<rparr>) p w)"
proof -
  let ?r = "if optimizable node then lookup_mapping_with_insert (cache_map c) (pio_path node) (page_index node)
     else lookup_mapping (cache_map c) (pio_path node) (page_index node)"
  have "yields ?r (v', x)"
    using insert_sim [OF rep len, of "page_index node"] lookup_sim [OF rep len, of "page_index node"] access
    by (simp add: v_access_def Let_def split: if_splits)
  then obtain m where m: "?r = Some (m, x)" "mrep m v'" by (rule yieldsE)
  show ?thesis
    by (rule that [OF m(2)]) (simp add: map_pio_def node assms(3) m(1) Let_def)
qed

lemma v_access_shift: "v_access node v = (v', x) \<Longrightarrow> cblock_shift v' = cblock_shift v \<and> blocks v' = blocks v"
  by (auto simp: v_access_def Let_def v_insert_def v_lookup_def v_hit_def v_enqueue_tail_def v_dequeue_def
      v_add_work_def split: if_splits option.splits list.splits)

lemma target_block_cong:
  "mrep (cache_map c) v \<Longrightarrow> mrep m v' \<Longrightarrow> cblock_shift v' = cblock_shift v
    \<Longrightarrow> target_block (c\<lparr>cache_map := m\<rparr>) node e = target_block c node e
      \<and> num_blocks (c\<lparr>cache_map := m\<rparr>) node = num_blocks c node"
  by (simp add: target_block_def num_blocks_def mrep_fields(7))

lemma v_access_mapped:
  "v_access node v = (v', Some e) \<Longrightarrow> page_table v' (pio_path node, to_cache_page_index (page_index node)) = Some e"
  by (auto simp: v_access_def Let_def v_insert_def v_lookup_def v_hit_def v_enqueue_tail_def v_dequeue_def
      split: if_splits option.splits list.splits)

lemma v_access_small: "mrep m v' \<Longrightarrow> v_access node v = (v', Some e) \<Longrightarrow> e < blocks v'"
  using mrep_small(1) by (blast dest: v_access_mapped intro: ranI)

text \<open>The first node of a request and its vector.\<close>

lemma request_vector:
  assumes "pio_list h p ((p, node) # ns)" and "unat (pio_cnt node) = Suc (length ns)"
  shows "h p = Some node" and "pio_to_iovec h p (unat (pio_cnt node)) = Some (page_vector ((p, node) # ns))"
  using assms pio_to_iovec_whole [OF assms(1)] by simp_all

lemma cached_write:
  assumes rep: "mrep (cache_map c) v" and list: "pio_list h p ((p, node) # ns)"
    and cnt: "unat (pio_cnt node) = Suc (length ns)" and check: "check_pio node"
    and op: "operation node = WRITE" and len: "length (pio_path node) \<le> MAX_PATH_SIZE"
    and access: "v_access node v = (v', Some e)"
    and io: "writev_spdk sys t (page_vector ((p, node) # ns)) (Suc (length ns))
      (ucast (target_block c node e)) (num_blocks c node) IO_QUEUE w = Some (rc, w')"
  shows "\<exists>m. submit_to_target sys t h c p w = Some ((c\<lparr>cache_map := m\<rparr>, w'), rc)
    \<and> mrep m (if rc = 0 then v_set_dirty e v' else v')"
proof -
  note node = request_vector [OF list cnt]
  obtain m where m: "mrep m v'" "map_pio sys t h c p w = map_to_cache sys t h (c\<lparr>cache_map := m\<rparr>) p e w"
    by (rule map_pio_routes [where h = h and sys = sys and t = t and w = w, OF rep node(1) check len access]) simp
  have same: "target_block (c\<lparr>cache_map := m\<rparr>) node e = target_block c node e"
      "num_blocks (c\<lparr>cache_map := m\<rparr>) node = num_blocks c node"
    using target_block_cong [OF rep m(1)] v_access_shift [OF access] by blast+
  obtain m' where dirty: "set_dirty_after_write m e True = Some m'" "mrep m' (v_set_dirty e v')"
    using set_dirty_sim [OF m(1) v_access_small [OF m(1) access], of True] by (rule becomesE)
  have "submit_to_target sys t h c p w = Some ((c\<lparr>cache_map := if rc = 0 then m' else m\<rparr>, w'), rc)"
    using io by (simp add: submit_to_target_def node(1) node(2) [unfolded cnt] cnt op m(2) map_to_cache_def write_cache_def
        same dirty(1) Let_def del: pio_to_iovec.simps)
  with m(1) dirty(2) show ?thesis by auto
qed

section \<open>Properties\<close>

text \<open>
  C31. A request that \<open>check_pio\<close> lets through accesses exactly the blocks of its pages inside the cache
  block it was mapped to. The first device block is the one of the page's place in the cache block, the number of
  device blocks is that of the request's pages, neither wraps around, and the range ends before the next cache block.
\<close>

theorem io_stays_in_cache_block:
  assumes "device_ok c ps" and "check_pio node" and "cblock < CACHE_BLOCK_NUMBER"
  shows "unat (target_block c node cblock) = (unat cblock * 8 + unat (page_index node) mod 8) * 2 ^ ps
    \<and> unat (num_blocks c node) = unat (pio_cnt node) * 2 ^ ps
    \<and> unat (target_block c node cblock) + unat (num_blocks c node) \<le> (unat cblock + 1) * 8 * 2 ^ ps"
proof (intro conjI)
  show "unat (num_blocks c node) = unat (pio_cnt node) * 2 ^ ps" by (rule num_blocks_value [OF assms(1,2)])
  show "unat (target_block c node cblock) = (unat cblock * 8 + unat (page_index node) mod 8) * 2 ^ ps"
    by (rule target_block_value [OF assms(1,3)])
  have "unat (page_index node) mod 8 + unat (pio_cnt node) \<le> 8"
    using assms(2) by (simp add: check_pio_iff)
  then have "(unat cblock * 8 + (unat (page_index node) mod 8 + unat (pio_cnt node))) * 2 ^ ps
      \<le> (unat cblock * 8 + 8) * 2 ^ ps"
    by (intro mult_le_mono1) simp
  then show "unat (target_block c node cblock) + unat (num_blocks c node) \<le> (unat cblock + 1) * 8 * 2 ^ ps"
    by (simp add: target_block_value [OF assms(1,3)] num_blocks_value [OF assms(1,2)] algebra_simps)
qed

definition sample_cache :: "mapping \<Rightarrow> cache" where
  "sample_cache m = \<lparr>cache_state = \<lparr>running = True, user_count = 1, state_lock = \<lparr>locked = 0\<rparr>\<rparr>,
     cache_dev = \<lparr>dev_block_size = 512, device_size = 2 ^ 30, dev_cache_block_num = 2,
       dev_block_per_cblock_shift = 6, dev_block_per_page_shift = 3\<rparr>,
     cache_map = m, mg_worker = 1, wb_worker = 0\<rparr>"

lemma sample_cache_device: "mrep m v \<Longrightarrow> cblock_shift v = 6 \<Longrightarrow> device_ok (sample_cache m) 3"
  by (simp add: device_ok_def sample_cache_def mrep_fields(7))

theorem io_stays_in_cache_block_witness:
  "unat (target_block (sample_cache clean_cache) (one_pio\<lparr>page_index := 13, pio_cnt := 3\<rparr>) 1) = 104
    \<and> unat (num_blocks (sample_cache clean_cache) (one_pio\<lparr>page_index := 13, pio_cnt := 3\<rparr>)) = 24"
proof -
  have dev: "device_ok (sample_cache clean_cache) 3"
    by (rule sample_cache_device [OF clean_cache_rep]) (simp add: clean_view_def)
  have "check_pio (one_pio\<lparr>page_index := 13, pio_cnt := 3\<rparr>)" by (simp add: check_pio_iff one_pio_def)
  from io_stays_in_cache_block [OF dev this, of 1] show ?thesis
    by (simp add: config_eqs one_pio_def)
qed

text \<open>
  A write request to a page that has, or on a whole-block write gets, a cache block goes to the
  device with one vector over all its pages. When the device accepts it, the call returns 0 and the block
  is dirty; otherwise the error code is returned and the mapping stays as the lookup or the insertion
  left it.
\<close>

theorem cached_write_marks_dirty:
  assumes rep: "mrep (cache_map c) v" and list: "pio_list h p ((p, node) # ns)"
    and cnt: "unat (pio_cnt node) = Suc (length ns)" and check: "check_pio node"
    and op: "operation node = WRITE" and len: "length (pio_path node) \<le> MAX_PATH_SIZE"
    and access: "v_access node v = (v', Some e)"
    and io: "writev_spdk sys t (page_vector ((p, node) # ns)) (Suc (length ns))
      (ucast (target_block c node e)) (num_blocks c node) IO_QUEUE w = Some (rc, w')"
  shows "\<exists>m. submit_to_target sys t h c p w = Some ((c\<lparr>cache_map := m\<rparr>, w'), rc)
    \<and> mrep m (if rc = 0 then v_set_dirty e v' else v')"
  by (rule cached_write [OF assms])

definition working_system :: "nat system" where
  "working_system = failing_system\<lparr>ns_cmd_readv := (\<lambda>_ _ _ _ _ _ _ w. (0, w)), ns_cmd_writev := (\<lambda>_ _ _ _ _ _ _ w. (0, w)),
     process_completions := (\<lambda>_ w. (True, Suc w)), sys_pwritev := (\<lambda>_ _ _ w. (8192, Suc w)),
     sys_preadv := (\<lambda>_ _ _ w. (8192, Suc w))\<rparr>"

lemma working_writev: "writev_spdk working_system t iov cnt lba num q w = Some (0, Suc w)"
  by (simp add: writev_spdk_def working_system_def Let_def wait_completed.simps [of _ _ w])

definition two_pages :: "pio_heap" where
  "two_pages = [8 \<mapsto> one_pio\<lparr>pio_next := 16\<rparr>, 16 \<mapsto> one_pio\<lparr>page_index := 9, buffer := 8192\<rparr>]"

lemma two_pages_list:
  "pio_list two_pages 8 ((8, one_pio\<lparr>pio_next := 16\<rparr>) # [(16, one_pio\<lparr>page_index := 9, buffer := 8192\<rparr>)])"
  by (simp add: two_pages_def one_pio_def)

theorem cached_write_marks_dirty_witness:
  "\<exists>m. submit_to_target working_system reset_ctrlr_and_ns two_pages (sample_cache dirty_cache) 8 7
       = Some ((sample_cache m, 8), 0) \<and> mrep m dirty_view"
proof -
  let ?node = "one_pio\<lparr>pio_next := 16\<rparr>"
  have access: "v_access ?node dirty_view = (dirty_view, Some 0)"
    by (simp add: v_access_def Let_def optimizable_def overwritable_def one_pio_def v_lookup_def dirty_view_def
        page_index_8 v_hit_def)
  have rep: "mrep (cache_map (sample_cache dirty_cache)) dirty_view"
    by (simp add: sample_cache_def dirty_cache_rep)
  have same: "v_set_dirty 0 dirty_view = dirty_view"
    by (simp add: v_set_dirty_def dirty_view_def v_dequeue_def v_mark_def v_enqueue_tail_def)
  have ops: "check_pio ?node" "operation ?node = WRITE" "length (pio_path ?node) \<le> MAX_PATH_SIZE"
      "unat (pio_cnt ?node) = Suc (length [(16 :: u64, one_pio\<lparr>page_index := 9, buffer := 8192\<rparr>)])"
    by (simp_all add: check_pio_iff one_pio_def config_eqs)
  from cached_write_marks_dirty [OF rep two_pages_list ops(4) ops(1-3) access working_writev, of reset_ctrlr_and_ns 7]
  show ?thesis by (simp add: same sample_cache_def)
qed

text \<open>
  C32. A whole-block write to a page that is not cached, for which a block is free and which no queued
  page stands in the way of, gets the block before the device is written. When the device refuses the
  command, the page keeps the block, marked dirty, although none of its data is there: the next reads of
  the page are routed to the device.
\<close>

theorem failed_overwrite_keeps_block:
  assumes "mrep (cache_map c) v" and "pio_list h p ((p, node) # ns)"
    and "unat (pio_cnt node) = Suc (length ns)" and "optimizable node" and "length (pio_path node) \<le> MAX_PATH_SIZE"
    and "page_table v (pio_path node, to_cache_page_index (page_index node)) = None"
    and "\<not> v_queued (pio_path node) (to_cache_page_index (page_index node)) v" and "free_q v = e # F"
    and "writev_spdk sys t (page_vector ((p, node) # ns)) (Suc (length ns))
      (ucast (target_block c node e)) (num_blocks c node) IO_QUEUE w = Some (rc, w')" and "rc \<noteq> 0"
  shows "\<exists>m v'. submit_to_target sys t h c p w = Some ((c\<lparr>cache_map := m\<rparr>, w'), rc) \<and> mrep m v'
    \<and> page_table v' (pio_path node, to_cache_page_index (page_index node)) = Some e \<and> e \<in> marked v'"
proof -
  let ?k = "(pio_path node, to_cache_page_index (page_index node))"
  let ?v = "v\<lparr>free_q := F, dirty_q := dirty_q v @ [e], marked := insert e (marked v),
    page_table := (page_table v)(?k \<mapsto> e), key_of := (key_of v)(e := ?k)\<rparr>"
  have access: "v_access node v = (?v, Some e)"
    using assms(4,6-8) by (simp add: v_access_def Let_def v_insert_def)
  have check: "check_pio node" and op: "operation node = WRITE"
    using assms(4) unat_and_7 [of "page_index node"]
    by (simp_all add: optimizable_def overwritable_def check_pio_def)
  from cached_write [OF assms(1-3) check op assms(5) access assms(9)] assms(10)
  obtain m where "submit_to_target sys t h c p w = Some ((c\<lparr>cache_map := m\<rparr>, w'), rc)" "mrep m ?v"
    by auto
  then show ?thesis by (intro exI [of _ m] exI [of _ ?v]) simp
qed

definition refusing_system :: "nat system" where
  "refusing_system = failing_system\<lparr>ns_cmd_writev := (\<lambda>_ _ _ _ _ _ _ w. (- 12, w))\<rparr>"

lemma refusing_writev: "writev_spdk refusing_system t iov cnt lba num q w = Some (- 12, w)"
  by (simp add: writev_spdk_def refusing_system_def Let_def)

text \<open>The eight pages of cache page 1 of file \<open>g\<close>, in nodes at the addresses 8 to 64.\<close>

definition block_pages :: "(u64 \<times> pio) list" where
  "block_pages = map (\<lambda>i. (of_nat (8 * i), \<lparr>pio_path = ''g'', pio_fd = 0, page_index = of_nat (i + 7),
     operation = WRITE, buffer = of_nat (4096 * i), pio_cnt = 8, pio_next = if i = 8 then 0 else of_nat (8 * i + 8)\<rparr>)) [1..<9]"

lemma block_pages_eq: "block_pages = (8, \<lparr>pio_path = ''g'', pio_fd = 0, page_index = 8, operation = WRITE,
    buffer = 4096, pio_cnt = 8, pio_next = 16\<rparr>) # tl block_pages"
  by (simp add: block_pages_def upt_rec)

lemma block_pages_list: "pio_list (map_of block_pages) 8 block_pages"
  by (simp add: block_pages_def upt_rec)

theorem failed_overwrite_keeps_block_witness:
  "\<exists>m. submit_to_target refusing_system reset_ctrlr_and_ns (map_of block_pages) (sample_cache dirty_cache) 8 7
      = Some ((sample_cache m, 7), - 12)
    \<and> (\<exists>v. mrep m v \<and> page_table v (''g'', 1) = Some 1)"
proof -
  let ?node = "\<lparr>pio_path = ''g'', pio_fd = 0, page_index = 8, operation = WRITE,
    buffer = 4096, pio_cnt = 8, pio_next = 16 :: u64\<rparr>"
  have rep: "mrep (cache_map (sample_cache dirty_cache)) dirty_view"
    by (simp add: sample_cache_def dirty_cache_rep)
  have list: "pio_list (map_of block_pages) 8 ((8, ?node) # tl block_pages)"
    using block_pages_list block_pages_eq by metis
  have shape: "unat (pio_cnt ?node) = Suc (length (tl block_pages))" "optimizable ?node"
      "length (pio_path ?node) \<le> MAX_PATH_SIZE"
    by (simp_all add: block_pages_def optimizable_def overwritable_def config_eqs)
  have new: "page_table dirty_view (pio_path ?node, to_cache_page_index (page_index ?node)) = None"
      "\<not> v_queued (pio_path ?node) (to_cache_page_index (page_index ?node)) dirty_view"
      "free_q dirty_view = 1 # []"
    by (simp_all add: dirty_view_def v_queued_def)
  from failed_overwrite_keeps_block [OF rep list shape new refusing_writev, of reset_ctrlr_and_ns 7]
  show ?thesis by (auto simp: sample_cache_def page_index_8)
qed

text \<open>
  A request on an open file whose page has no cache block is one vectored read or write of the file
  at the page's byte offset modulo 4 GB, and the page is queued for migration. The call then returns 0
  when no byte was transferred, and 1, which stands for an error in the interface, when some were.
\<close>

theorem uncached_request_goes_to_file:
  assumes rep: "mrep (cache_map c) v" and list: "pio_list h p ((p, node) # ns)"
    and cnt: "unat (pio_cnt node) = Suc (length ns)" and check: "check_pio node"
    and op: "operation node \<noteq> DISCARD" and len: "length (pio_path node) \<le> MAX_PATH_SIZE"
    and access: "v_access node v = (v', None)" and fd: "pio_fd node \<noteq> 0"
    and io: "(if operation node = READ then sys_preadv sys else sys_pwritev sys) (pio_fd node)
      (page_vector ((p, node) # ns)) (of_nat (4096 * unat (page_index node) mod 2 ^ 32)) w = (res, w')"
  shows "\<exists>m. submit_to_target sys t h c p w = Some ((c\<lparr>cache_map := m\<rparr>, w'), if res = 0 then 0 else 1) \<and> mrep m v'"
proof -
  note node = request_vector [OF list cnt]
  have "unat (push_bit 12 (page_index node)) = 4096 * unat (page_index node) mod 2 ^ 32"
    by (subst unsigned_push_bit_eq) (simp add: push_bit_eq_mult take_bit_eq_mod mult.commute)
  then have "(ucast (push_bit 12 (page_index node)) :: u64) = of_nat (4096 * unat (page_index node) mod 2 ^ 32)"
    by (metis of_nat_unat)
  note io' = io [folded this]
  obtain m where m: "mrep m v'" "map_pio sys t h c p w = map_to_origin sys h (c\<lparr>cache_map := m\<rparr>) p w"
    by (rule map_pio_routes [where h = h and sys = sys and t = t and w = w, OF rep node(1) check len access]) simp
  have "submit_to_target sys t h c p w = Some ((c\<lparr>cache_map := m\<rparr>, w'), if res = 0 then 0 else 1)"
    using io' by (simp add: submit_to_target_def node(1) node(2) [unfolded cnt] cnt op m(2) map_to_origin_def
      read_origin_def write_origin_def fd Let_def del: pio_to_iovec.simps split: if_splits)
  with m(1) show ?thesis by blast
qed

theorem uncached_request_goes_to_file_witness:
  "\<exists>m. submit_to_target working_system reset_ctrlr_and_ns [8 \<mapsto> one_pio\<lparr>pio_fd := 3, pio_cnt := 1\<rparr>]
       (sample_cache clean_cache) 8 7 = Some ((sample_cache m, 8), 1)
    \<and> mrep m (clean_view\<lparr>work_list := [(''f'', 1)]\<rparr>)"
proof -
  let ?node = "one_pio\<lparr>pio_fd := 3, pio_cnt := 1\<rparr>"
  have rep: "mrep (cache_map (sample_cache clean_cache)) clean_view"
    by (simp add: sample_cache_def clean_cache_rep)
  have list: "pio_list [8 \<mapsto> ?node] 8 ((8, ?node) # [])" by (simp add: one_pio_def)
  have shape: "unat (pio_cnt ?node) = Suc (length ([] :: (u64 \<times> pio) list))" "check_pio ?node" "operation ?node \<noteq> DISCARD"
      "length (pio_path ?node) \<le> MAX_PATH_SIZE"
    by (simp_all add: check_pio_iff one_pio_def config_eqs)
  have access: "v_access ?node clean_view = (clean_view\<lparr>work_list := [(''f'', 1)]\<rparr>, None)"
    by (simp add: v_access_def Let_def optimizable_def overwritable_def one_pio_def v_lookup_def clean_view_def
        page_index_8 v_add_work_def config_eqs)
  have fd: "pio_fd ?node \<noteq> 0" by simp
  have io: "(if operation ?node = READ then sys_preadv working_system else sys_pwritev working_system) (pio_fd ?node)
      (page_vector ((8, ?node) # [])) (of_nat (4096 * unat (page_index ?node) mod 2 ^ 32)) 7 = (8192, 8)"
    by (simp add: working_system_def one_pio_def)
  from uncached_request_goes_to_file [OF rep list shape access fd io, of reset_ctrlr_and_ns]
  show ?thesis by (simp add: sample_cache_def)
qed

text \<open>
  Pages of a file that are 4 GB apart are one place of the file: the byte offset of a request is
  computed in 32 bits.
\<close>

theorem file_offset_wraps:
  assumes "h p = Some node"
  shows "write_origin sys (h(p \<mapsto> node\<lparr>page_index := page_index node + 2 ^ 20\<rparr>)) c p w = write_origin sys h c p w
    \<and> read_origin sys (h(p \<mapsto> node\<lparr>page_index := page_index node + 2 ^ 20\<rparr>)) c p w = read_origin sys h c p w"
proof -
  have "(2 :: u32) ^ 20 * 2 ^ 12 = 0" by (simp add: power_add [symmetric])
  then have "push_bit 12 (page_index node + 2 ^ 20) = push_bit 12 (page_index node)"
    unfolding push_bit_eq_mult distrib_right by simp
  then show ?thesis
    by (simp add: write_origin_def read_origin_def assms pio_to_iovec_other_page [of h p node, OF assms]
        del: fun_upd_apply) (simp add: assms cong: if_cong prod.case_cong)
qed

theorem file_offset_wraps_witness:
  "write_origin working_system [8 \<mapsto> one_pio\<lparr>page_index := 1048584\<rparr>] (sample_cache clean_cache) 8 7
    = write_origin working_system [8 \<mapsto> one_pio] (sample_cache clean_cache) 8 7"
  using file_offset_wraps [of "[8 \<mapsto> one_pio]" 8 one_pio working_system "sample_cache clean_cache" 7]
  by (simp add: one_pio_def)

end
