(* ===== verification/Stages.thy ===== *)
theory Stages
  imports Migration MappingSystem
begin

text \<open>
  One round of the migration thread, \<open>do_migration_work\<close> of \<^verbatim>\<open>ssd_cache_mapping.c\<close>, cut at its critical sections and
  transfers: between two stages the users' requests can run. The stages one after the other are the round, with the same
  operations in the same order (\<open>stages_make_round\<close>), and on a device that answers each of them comes to its end.
\<close>

datatype stage =
    At_rest
  | Peeked key
  | Copying_in key u32
  | Copied_in u32 bool
  | To_demote
  | Trimming u32
  | Trimmed u32 bool
  | To_write_back
  | Copying_out u32
  | Copied_out u32 bool
  | Served_work

fun advance :: "'w system \<Rightarrow> target \<Rightarrow> u64 \<Rightarrow> mapping \<times> 'w \<Rightarrow> stage \<Rightarrow> ((mapping \<times> 'w) \<times> stage) option" where
  "advance sys t buf (m, w) At_rest = do {
     (q, work) \<leftarrow> peak_work MAX_PATH_SIZE (wq m);
     Some ((m\<lparr>wq := q\<rparr>, w), case work of None \<Rightarrow> At_rest | Some k \<Rightarrow> Peeked k) }"
| "advance sys t buf (m, w) (Peeked k) = do {
     (m, promoted) \<leftarrow> promotion_free_to_clean m (fst k) (snd k);
     Some ((m, w), case promoted of Some e \<Rightarrow> Copying_in k e | None \<Rightarrow> To_demote) }"
| "advance sys t buf (m, w) (Copying_in k e) = do {
     (success, w) \<leftarrow> mg_start sys t m buf (Some (fst k)) (snd k) e PROMOTION w;
     Some ((m, w), Copied_in e success) }"
| "advance sys t buf (m, w) (Copied_in e success) = do {
     m \<leftarrow> promotion_complete m e success;
     Some ((m, w), Served_work) }"
| "advance sys t buf (m, w) To_demote = do {
     (m, demoted) \<leftarrow> demotion_clean_to_free m;
     Some ((m, w), case demoted of Some e \<Rightarrow> Trimming e | None \<Rightarrow> To_write_back) }"
| "advance sys t buf (m, w) (Trimming e) = do {
     (success, w) \<leftarrow> mg_start sys t m 0 None 0 e DEMOTION w;
     Some ((m, w), Trimmed e success) }"
| "advance sys t buf (m, w) (Trimmed e success) = do {
     m \<leftarrow> demotion_complete m e success;
     Some ((m, w), Served_work) }"
| "advance sys t buf (m, w) To_write_back = do {
     (m, written) \<leftarrow> writeback_dirty_to_clean m;
     Some ((m, w), case written of Some e \<Rightarrow> Copying_out e | None \<Rightarrow> Served_work) }"
| "advance sys t buf (m, w) (Copying_out e) = do {
     x \<leftarrow> to_entry e;
     (success, w) \<leftarrow> mg_start sys t m buf (Some (full_path_name (ents m x))) (cache_page_index (ents m x)) e WRITEBACK w;
     Some ((m, w), Copied_out e success) }"
| "advance sys t buf (m, w) (Copied_out e success) = do {
     m \<leftarrow> writeback_complete m e success;
     Some ((m, w), Served_work) }"
| "advance sys t buf (m, w) Served_work = do {
     (q, _) \<leftarrow> remove_work (wq m);
     Some ((m\<lparr>wq := q\<rparr>, w), At_rest) }"

text \<open>Stages until the thread is at rest, at most \<open>n\<close> of them.\<close>

fun stages :: "nat \<Rightarrow> 'w system \<Rightarrow> target \<Rightarrow> u64 \<Rightarrow> mapping \<times> 'w \<Rightarrow> stage \<Rightarrow> ((mapping \<times> 'w) \<times> stage) option" where
  "stages 0 sys t buf s st = Some (s, st)"
| "stages (Suc n) sys t buf s st = do {
     (s, st) \<leftarrow> advance sys t buf s st;
     if st = At_rest then Some (s, st) else stages n sys t buf s st }"

text \<open>The end of a round: the page leaves the queue.\<close>

definition leave_queue :: "(mapping \<times> 'w) option \<Rightarrow> ((mapping \<times> 'w) \<times> stage) option" where
  "leave_queue r = do { s \<leftarrow> r; (q, _) \<leftarrow> remove_work (wq (fst s)); Some ((fst s\<lparr>wq := q\<rparr>, snd s), At_rest) }"

lemma leave_queue_simps [simp]:
  "leave_queue None = None"
  "leave_queue (Some (m, w)) = do { (q, _) \<leftarrow> remove_work (wq m); Some ((m\<lparr>wq := q\<rparr>, w), At_rest) }"
  by (simp_all add: leave_queue_def)

lemma stages_served: "stages (Suc n) sys t buf (m, w) Served_work = leave_queue (Some (m, w))"
  by (cases "remove_work (wq m)") auto

text \<open>The three transfers, from the first to the last of their stages.\<close>

lemma stages_in:
  "stages (Suc (Suc (Suc n))) sys t buf (m, w) (Copying_in k e) = leave_queue (do {
     (success, w) \<leftarrow> mg_start sys t m buf (Some (fst k)) (snd k) e PROMOTION w;
     m \<leftarrow> promotion_complete m e success; Some (m, w) })"
  by (auto split: Option.bind_split)

lemma stages_trim:
  "stages (Suc (Suc (Suc n))) sys t buf (m, w) (Trimming e) = leave_queue (do {
     (success, w) \<leftarrow> mg_start sys t m 0 None 0 e DEMOTION w;
     m \<leftarrow> demotion_complete m e success; Some (m, w) })"
  by (auto split: Option.bind_split)

lemma stages_out:
  "stages (Suc (Suc (Suc n))) sys t buf (m, w) (Copying_out e) = leave_queue (do {
     x \<leftarrow> to_entry e;
     (success, w) \<leftarrow> mg_start sys t m buf (Some (full_path_name (ents m x))) (cache_page_index (ents m x)) e WRITEBACK w;
     m \<leftarrow> writeback_complete m e success; Some (m, w) })"
  by (auto split: Option.bind_split)

lemmas stages_transfer = stages_in stages_trim stages_out

text \<open>The chain of attempts.\<close>

lemma stages_write_back:
  "stages (Suc (Suc (Suc (Suc n)))) sys t buf (m, w) To_write_back = leave_queue (migrate_writeback sys t buf m w)"
proof (cases "writeback_dirty_to_clean m")
  case (Some r)
  obtain m' e where r: "r = (m', e)" by fastforce
  have step: "stages (Suc (Suc (Suc (Suc n)))) sys t buf (m, w) To_write_back =
      stages (Suc (Suc (Suc n))) sys t buf (m', w) (case e of Some e \<Rightarrow> Copying_out e | None \<Rightarrow> Served_work)"
    by (subst stages.simps(2)) (simp add: Some r split: option.split del: stages.simps)
  show ?thesis unfolding step
    by (cases e) (simp_all only: option.case stages_served stages_out migrate_writeback_def Some r bind.bind_lunit prod.case)
qed (simp add: migrate_writeback_def)

lemma stages_demote:
  "stages (Suc (Suc (Suc (Suc (Suc n))))) sys t buf (m, w) To_demote = leave_queue (migrate_demotion sys t buf m w)"
proof (cases "demotion_clean_to_free m")
  case (Some r)
  obtain m' e where r: "r = (m', e)" by fastforce
  have step: "stages (Suc (Suc (Suc (Suc (Suc n))))) sys t buf (m, w) To_demote =
      stages (Suc (Suc (Suc (Suc n)))) sys t buf (m', w) (case e of Some e \<Rightarrow> Trimming e | None \<Rightarrow> To_write_back)"
    by (subst stages.simps(2)) (simp add: Some r split: option.split del: stages.simps)
  show ?thesis unfolding step
    by (cases e) (simp_all only: option.case stages_write_back stages_trim migrate_demotion_def Some r bind.bind_lunit prod.case)
qed (simp add: migrate_demotion_def)

lemma stages_promote:
  "stages (Suc (Suc (Suc (Suc (Suc (Suc n)))))) sys t buf (m, w) (Peeked k) = leave_queue (migrate_transfer sys t buf m k w)"
proof (cases "promotion_free_to_clean m (fst k) (snd k)")
  case (Some r)
  obtain m' e where r: "r = (m', e)" by fastforce
  have step: "stages (Suc (Suc (Suc (Suc (Suc (Suc n)))))) sys t buf (m, w) (Peeked k) =
      stages (Suc (Suc (Suc (Suc (Suc n))))) sys t buf (m', w) (case e of Some e \<Rightarrow> Copying_in k e | None \<Rightarrow> To_demote)"
    by (subst stages.simps(2)) (simp add: Some r split: option.split del: stages.simps)
  show ?thesis unfolding step
    by (cases e) (simp_all only: option.case stages_demote stages_in migrate_transfer_def Some r bind.bind_lunit prod.case)
qed (simp add: migrate_transfer_def)

lemma stages_make_round:
  "stages 7 sys t buf (m, w) At_rest =
    map_option (\<lambda>(s, did). (s, At_rest)) (do_migration_work sys t m buf w)"
proof -
  have seven: "(7 :: nat) = Suc (Suc (Suc (Suc (Suc (Suc (Suc 0))))))" by simp
  show ?thesis
  proof (cases "peak_work MAX_PATH_SIZE (wq m)")
    case None
    then show ?thesis by (simp add: seven do_migration_work_def)
  next
    case (Some r)
    obtain q k where r: "r = (q, k)" by fastforce
    have step: "stages 7 sys t buf (m, w) At_rest = (case k of None \<Rightarrow> Some ((m\<lparr>wq := q\<rparr>, w), At_rest)
        | Some k \<Rightarrow> leave_queue (migrate_transfer sys t buf (m\<lparr>wq := q\<rparr>) k w))"
      unfolding seven by (subst stages.simps(2)) (simp add: Some r stages_promote split: option.split del: stages.simps)
    show ?thesis unfolding step
      by (cases k) (auto simp: do_migration_work_def Some r leave_queue_def map_option_bind case_prod_unfold Let_def split: Option.bind_split)
  qed
qed

section \<open>The thread goes on\<close>

text \<open>A stage is a point of the worker of \<^verbatim>\<open>MappingSystem\<close>, where the transfers of data have no state of their own.\<close>

fun phase_of :: "stage \<Rightarrow> phase" where
  "phase_of At_rest = Idle"
| "phase_of (Peeked k) = Chosen k"
| "phase_of (Copying_in k e) = Promoting e"
| "phase_of (Copied_in e s) = Promoting e"
| "phase_of To_demote = TryDemotion"
| "phase_of (Trimming e) = Demoting e"
| "phase_of (Trimmed e s) = Demoting e"
| "phase_of To_write_back = TryWriteback"
| "phase_of (Copying_out e) = WritingBack e"
| "phase_of (Copied_out e s) = WritingBack e"
| "phase_of Served_work = Served"

text \<open>The stages that are left in the round.\<close>

fun rank :: "stage \<Rightarrow> nat" where
  "rank At_rest = 7"
| "rank (Peeked k) = 6"
| "rank (Copying_in k e) = 5"
| "rank (Copied_in e s) = 4"
| "rank To_demote = 5"
| "rank (Trimming e) = 4"
| "rank (Trimmed e s) = 3"
| "rank To_write_back = 4"
| "rank (Copying_out e) = 3"
| "rank (Copied_out e s) = 2"
| "rank Served_work = 1"

definition work_left :: "cache_view \<Rightarrow> stage \<Rightarrow> nat" where
  "work_left v st = 8 * length (work_list v) + rank st"

definition stage_inv :: "cache_view \<Rightarrow> stage \<Rightarrow> bool" where
  "stage_inv v st \<longleftrightarrow> phase_inv (phase_of st) v \<and> (\<forall>k e. st = Copying_in k e \<longrightarrow> key_of v e = k)"

definition goes_on :: "cache_view \<Rightarrow> stage \<Rightarrow> ((mapping \<times> 'w) \<times> stage) option \<Rightarrow> bool" where
  "goes_on v st r \<longleftrightarrow> (\<exists>m' w' st' v'. r = Some ((m', w'), st') \<and> mrep m' v' \<and> stage_inv v' st'
     \<and> (\<exists>n. work_list v' = drop n (work_list v)) \<and> work_left v' st' < work_left v st)"

lemma goes_onI:
  assumes "r = Some ((m', w'), st')" and "mrep m' v'" and "phase_inv (phase_of st') v'" and "work_list v' = work_list v"
    and "rank st' < rank st" and "\<And>k e. st' = Copying_in k e \<Longrightarrow> key_of v' e = k"
  shows "goes_on v st r"
proof -
  have "\<exists>n. work_list v' = drop n (work_list v)" by (rule exI [of _ 0]) (simp add: assms(4))
  moreover have "work_left v' st' < work_left v st" using assms(4,5) by (simp add: work_left_def)
  ultimately show ?thesis using assms(1-3,6) unfolding goes_on_def stage_inv_def by blast
qed

lemma advance_goes_on:
  assumes sys: "responsive sys" and rep: "mrep m v" and inv: "stage_inv v st" and busy: "st \<noteq> At_rest \<or> work_list v \<noteq> []"
  shows "goes_on v st (advance sys t buf (m, w) st)"
proof (cases st)
  case At_rest
  have ph: "phase_inv Idle v" and ne: "work_list v \<noteq> []" using inv busy At_rest by (simp_all add: stage_inv_def)
  have "advance sys t buf (m, w) st = Some ((m, w), Peeked (hd (work_list v)))"
    using peak_phase [OF rep ph] ne At_rest by simp
  then show ?thesis by (rule goes_onI [OF _ rep]) (use phase_peek [OF ph ne] At_rest in simp_all)
next
  case (Peeked k)
  have ph: "phase_inv (Chosen k) v" using inv Peeked by (simp add: stage_inv_def)
  obtain v' x where start: "v_promotion_start k v = (v', x)" by fastforce
  obtain m' where m': "promotion_free_to_clean m (fst k) (snd k) = Some (m', x)" "mrep m' v'"
    using promotion_start_sim [OF rep chosen_short [OF ph], of "snd k"] start by (auto elim: yieldsE)
  have v': "work_list v' = work_list v" "x = Some e \<Longrightarrow> key_of v' e = k" for e
    using start by (cases k v rule: v_promotion_start_cases; auto)+
  let ?st = "case x of Some e \<Rightarrow> Copying_in k e | None \<Rightarrow> To_demote"
  have "advance sys t buf (m, w) st = Some ((m', w), ?st)" using m'(1) Peeked by simp
  then show ?thesis
    by (rule goes_onI [OF _ m'(2)]) (use phase_promote [OF rep ph start] v' Peeked in \<open>auto split: option.splits\<close>)
next
  case (Copying_in k e)
  obtain s w' where "mg_start sys t m buf (Some (fst k)) (snd k) e PROMOTION w = Some (s, w')"
    using mg_start_returns(1) [OF sys] by blast
  then have "advance sys t buf (m, w) st = Some ((m, w'), Copied_in e s)" using Copying_in by simp
  then show ?thesis by (rule goes_onI [OF _ rep]) (use inv Copying_in in \<open>simp_all add: stage_inv_def\<close>)
next
  case (Copied_in e s)
  have ph: "phase_inv (Promoting e) v" using inv Copied_in by (simp add: stage_inv_def)
  have new: "e \<in> moving v" "e \<notin> ran (page_table v)" "page_table v (key_of v e) = None" using promoting_new [OF ph] by simp_all
  obtain m' where m': "promotion_complete m e s = Some m'" "mrep m' (v_promotion_complete e s v)"
    using promotion_complete_sim [OF rep new, of s] by (rule becomesE)
  have "advance sys t buf (m, w) st = Some ((m', w), Served_work)" using m'(1) Copied_in by simp
  then show ?thesis by (rule goes_onI [OF _ m'(2)])
    (use phase_promoted [OF rep ph] Copied_in in \<open>simp_all add: v_promotion_complete_def Let_def\<close>)
next
  case To_demote
  have ph: "phase_inv TryDemotion v" using inv To_demote by (simp add: stage_inv_def)
  obtain v' x where start: "v_demotion_start v = (v', x)" by fastforce
  obtain m' where m': "demotion_clean_to_free m = Some (m', x)" "mrep m' v'"
    using demotion_start_sim [OF rep] start by (auto elim: yieldsE)
  have v': "work_list v' = work_list v" using start by (cases v rule: v_demotion_start_cases) auto
  have "advance sys t buf (m, w) st = Some ((m', w), case x of Some e \<Rightarrow> Trimming e | None \<Rightarrow> To_write_back)"
    using m'(1) To_demote by simp
  then show ?thesis
    by (rule goes_onI [OF _ m'(2)]) (use phase_demote [OF rep ph start] v' To_demote in \<open>auto split: option.splits\<close>)
next
  case (Trimming e)
  obtain w' where "mg_start sys t m 0 None 0 e DEMOTION w = Some (True, w')" using mg_start_returns(2) [OF sys] by blast
  then have "advance sys t buf (m, w) st = Some ((m, w'), Trimmed e True)" using Trimming by simp
  then show ?thesis by (rule goes_onI [OF _ rep]) (use inv Trimming in \<open>simp_all add: stage_inv_def\<close>)
next
  case (Trimmed e s)
  have ph: "phase_inv (Demoting e) v" using inv Trimmed by (simp add: stage_inv_def)
  have e: "e \<in> moving v" "e \<in> ran (page_table v)" using transfer_hashed ph by blast+
  obtain m' where m': "demotion_complete m e s = Some m'" "mrep m' (v_demotion_complete e s v)"
    using demotion_complete_sim [OF rep e, of s] by (rule becomesE)
  have "advance sys t buf (m, w) st = Some ((m', w), Served_work)" using m'(1) Trimmed by simp
  then show ?thesis by (rule goes_onI [OF _ m'(2)])
    (use phase_demoted [OF ph] Trimmed in \<open>simp_all add: v_demotion_complete_def Let_def\<close>)
next
  case To_write_back
  have ph: "phase_inv TryWriteback v" using inv To_write_back by (simp add: stage_inv_def)
  obtain v' x where start: "v_writeback_start v = (v', x)" by fastforce
  obtain m' where m': "writeback_dirty_to_clean m = Some (m', x)" "mrep m' v'"
    using writeback_start_sim [OF rep] start by (auto elim: yieldsE)
  have v': "work_list v' = work_list v" using start by (cases v rule: v_writeback_start_cases) auto
  have "advance sys t buf (m, w) st = Some ((m', w), case x of Some e \<Rightarrow> Copying_out e | None \<Rightarrow> Served_work)"
    using m'(1) To_write_back by simp
  then show ?thesis
    by (rule goes_onI [OF _ m'(2)]) (use phase_write_back [OF rep ph start] v' To_write_back in \<open>auto split: option.splits\<close>)
next
  case (Copying_out e)
  have "phase_inv (WritingBack e) v" using inv Copying_out by (simp add: stage_inv_def)
  then have e: "e \<in> moving v" using transfer_hashed by blast
  obtain s w' where "mg_start sys t m buf (Some (full_path_name (ents m e))) (cache_page_index (ents m e)) e WRITEBACK w = Some (s, w')"
    using mg_start_returns(1) [OF sys] by blast
  then have "advance sys t buf (m, w) st = Some ((m, w'), Copied_out e s)"
    using mrep_to_entry [OF rep e] Copying_out by simp
  then show ?thesis by (rule goes_onI [OF _ rep]) (use inv Copying_out in \<open>simp_all add: stage_inv_def\<close>)
next
  case (Copied_out e s)
  have ph: "phase_inv (WritingBack e) v" using inv Copied_out by (simp add: stage_inv_def)
  have e: "e \<in> moving v" "e \<in> ran (page_table v)" using transfer_hashed ph by blast+
  obtain m' where m': "writeback_complete m e s = Some m'" "mrep m' (v_writeback_complete e s v)"
    using writeback_complete_sim [OF rep e, of s] by (rule becomesE)
  have "advance sys t buf (m, w) st = Some ((m', w), Served_work)" using m'(1) Copied_out by simp
  then show ?thesis by (rule goes_onI [OF _ m'(2)])
    (use phase_written_back [OF ph] Copied_out in \<open>simp_all add: v_writeback_complete_def Let_def\<close>)
next
  case Served_work
  have ph: "phase_inv Served v" using inv Served_work by (simp add: stage_inv_def)
  then have ne: "work_list v \<noteq> []" by (simp add: phase_inv_def)
  let ?v = "v\<lparr>work_list := tl (work_list v)\<rparr>"
  obtain q where q: "remove_work (wq m) = Some (q, True)" "mrep (m\<lparr>wq := q\<rparr>) ?v" by (rule remove_work_sim [OF rep ne])
  have "advance sys t buf (m, w) st = Some ((m\<lparr>wq := q\<rparr>, w), At_rest)" using q(1) Served_work by simp
  moreover have "\<exists>n. work_list ?v = drop n (work_list v)" by (rule exI [of _ 1]) (simp add: drop_Suc)
  moreover have "work_left ?v At_rest < work_left v st" using ne Served_work by (cases "work_list v") (simp_all add: work_left_def)
  ultimately show ?thesis
    using q(2) phase_finish [OF ph] unfolding goes_on_def stage_inv_def
    by (intro exI [of _ "m\<lparr>wq := q\<rparr>"] exI [of _ w] exI [of _ At_rest] exI [of _ ?v]) simp
qed

end
