(* ===== verification/CacheApi.thy ===== *)
theory CacheApi
  imports Target Stages
begin

text \<open>
  The life of the shared cache, from \<^verbatim>\<open>dm-cache/lib/ssd_cache_api.c\<close> and \<^verbatim>\<open>dm-cache/lib/shm.c\<close>: creating,
  linking, unlinking and removing it, the migration thread, and the entry point \<open>submit_pio\<close>. The shared
  memory is a set of objects, each holding a cache; the name \<^verbatim>\<open>/udm_cache\<close> stands for at most one of them.
  A pointer to mapped shared memory is the number of its object, NULL is \<^const>\<open>None\<close>. The system calls
  decide whether they succeed. \<open>sys_sleep\<close> is also what the other processes do meanwhile to the cache, and
  \<open>sys_thread_stop\<close>, the cancellation of the migration thread and the wait for its end, what the thread still does
  to the cache and the machine.
\<close>

section \<open>Processes and the machine\<close>

record proc =
  shared_cache :: "nat option"
  spdk_target :: target

record 'w machine =
  objects :: "nat \<Rightarrow> cache"
  shm_name :: "nat option"
  next_object :: nat
  world :: 'w

record 'w os =
  sys_shm_open :: "bool \<Rightarrow> 'w \<Rightarrow> int \<times> 'w"
  sys_ftruncate :: "int \<Rightarrow> 'w \<Rightarrow> int \<times> 'w"
  sys_mmap :: "int \<Rightarrow> 'w \<Rightarrow> bool \<times> 'w"
  sys_munmap :: "'w \<Rightarrow> int \<times> 'w"
  sys_shm_unlink :: "'w \<Rightarrow> int \<times> 'w"
  sys_thread_create :: "'w \<Rightarrow> (int \<times> u64) \<times> 'w"
  sys_thread_stop :: "u64 \<Rightarrow> cache \<Rightarrow> 'w \<Rightarrow> (int \<times> cache) \<times> 'w"
  sys_sleep :: "cache \<Rightarrow> 'w \<Rightarrow> cache \<times> 'w"
  sys_testcancel :: "'w \<Rightarrow> bool \<times> 'w"
  sys_cut :: "'w \<Rightarrow> 'w option"

text \<open>New shared memory is filled with zeros.\<close>

definition zeroed_mapping :: mapping where
  "zeroed_mapping = \<lparr>block_size = 0, cache_block_num = 0, block_per_cblock_shift = 0, block_per_page_shift = 0,
     es = \<lparr>entrys = (\<lambda>_. \<lparr>hash_next = 0, e_prev = 0, e_next = 0, param = 0, full_path_name = [], cache_page_index = 0\<rparr>),
           es_begin = 0, es_end = 0\<rparr>,
     ea = \<lparr>ea_begin = 0, nr_allocated = 0, ea_free = \<lparr>nr_elts = 0, head = 0, tail = 0\<rparr>\<rparr>,
     clean = \<lparr>nr_elts = 0, head = 0, tail = 0\<rparr>, dirty = \<lparr>nr_elts = 0, head = 0, tail = 0\<rparr>,
     htable = \<lparr>hash_bits = 0, buckets = (\<lambda>_. 0)\<rparr>, mapping_lock = \<lparr>locked = 0\<rparr>,
     hit_time = 0, miss_time = 0, promotion_time = 0, demotion_time = 0, writeback_time = 0,
     wq = \<lparr>works = (\<lambda>_. \<lparr>w_full_path_name = [], w_cache_page_index = 0\<rparr>), front = 0, rear = 0, wq_size = 0,
           wq_lock = \<lparr>locked = 0\<rparr>\<rparr>\<rparr>"

definition zeroed_cache :: cache where
  "zeroed_cache = \<lparr>cache_state = \<lparr>running = False, user_count = 0, state_lock = \<lparr>locked = 0\<rparr>\<rparr>,
     cache_dev = \<lparr>dev_block_size = 0, device_size = 0, dev_cache_block_num = 0,
       dev_block_per_cblock_shift = 0, dev_block_per_page_shift = 0\<rparr>,
     cache_map = zeroed_mapping, mg_worker = 0, wb_worker = 0\<rparr>"

section \<open>Shared memory\<close>

definition alloc_shm :: "'w os \<Rightarrow> 'w machine \<Rightarrow> nat option \<times> 'w machine" where
  "alloc_shm os M =
     (case sys_shm_open os True (world M) of (fd, w) \<Rightarrow>
        let M = M\<lparr>world := w\<rparr>
        in if fd = - 1 then (None, M)
           else
             let M = (case shm_name M of
                        Some _ \<Rightarrow> M
                      | None \<Rightarrow> M\<lparr>objects := (objects M)(next_object M := zeroed_cache),
                                  shm_name := Some (next_object M), next_object := next_object M + 1\<rparr>)
             in case sys_ftruncate os fd (world M) of (rc, w) \<Rightarrow>
                  let M = M\<lparr>world := w\<rparr>
                  in if rc = - 1 then (None, M)
                     else case sys_mmap os fd (world M) of (ok, w) \<Rightarrow>
                       let M = M\<lparr>world := w\<rparr>
                       in if \<not> ok then (None, M) else (shm_name M, M))"

definition link_shm :: "'w os \<Rightarrow> 'w machine \<Rightarrow> nat option \<times> 'w machine" where
  "link_shm os M =
     (case sys_shm_open os False (world M) of (fd, w) \<Rightarrow>
        let M = M\<lparr>world := w\<rparr>
        in if fd = - 1 then (None, M)
           else case sys_mmap os fd (world M) of (ok, w) \<Rightarrow>
             let M = M\<lparr>world := w\<rparr>
             in if \<not> ok then (None, M) else (shm_name M, M))"

definition unmap_shm :: "'w os \<Rightarrow> 'w machine \<Rightarrow> int \<times> 'w machine" where
  "unmap_shm os M =
     (case sys_munmap os (world M) of (rc, w) \<Rightarrow> (if rc = - 1 then 1 else 0, M\<lparr>world := w\<rparr>))"

definition unlink_shm :: "'w os \<Rightarrow> 'w machine \<Rightarrow> int \<times> 'w machine" where
  "unlink_shm os M =
     (case sys_shm_unlink os (world M) of (rc, w) \<Rightarrow>
        let M = M\<lparr>world := w\<rparr> in if rc = - 1 then (1, M) else (0, M\<lparr>shm_name := None\<rparr>))"

section \<open>The migration thread\<close>

text \<open>
  The thread ends where a cancellation point finds a request to end. Between two rounds these are
  \<^verbatim>\<open>pthread_testcancel\<close> and \<^verbatim>\<open>nanosleep\<close>, both in \<open>sys_testcancel\<close>. In a round they are the calls \<^verbatim>\<open>open\<close>,
  \<^verbatim>\<open>pread\<close>, \<^verbatim>\<open>pwrite\<close> and \<^verbatim>\<open>close\<close> of a transfer between the device and a file: \<open>sys_cut\<close> says whether the thread
  ends in one of them, and what it has done to the machine by then. The mapping stays as the stage found it.
\<close>

definition ended_in :: "'w os \<Rightarrow> 'w \<Rightarrow> stage \<Rightarrow> 'w option" where
  "ended_in os w st = (case st of Copying_in k e \<Rightarrow> sys_cut os w | Copying_out e \<Rightarrow> sys_cut os w | _ \<Rightarrow> None)"

text \<open>A round that finds no work comes back to rest in its first stage.\<close>

partial_function (option) migration :: "'w os \<Rightarrow> 'w system \<Rightarrow> target \<Rightarrow> u64 \<Rightarrow> (mapping \<times> 'w) \<times> stage \<Rightarrow>
    ((mapping \<times> 'w) \<times> stage) option" where
  "migration os sys t dma_buf s =
     (case ended_in os (snd (fst s)) (snd s) of
        Some w \<Rightarrow> Some ((fst (fst s), w), snd s)
      | None \<Rightarrow> do {
          ((m, w), st) \<leftarrow> advance sys t dma_buf (fst s) (snd s);
          if snd s = At_rest \<and> st = At_rest then do {
            (q, empty) \<leftarrow> is_empty (wq m);
            let m = m\<lparr>wq := q\<rparr>;
            if empty then
              (case sys_testcancel os w of (cancelled, w) \<Rightarrow>
                 if cancelled then Some ((m, w), At_rest) else migration os sys t dma_buf ((m, w), At_rest))
            else migration os sys t dma_buf ((m, w), At_rest) }
          else migration os sys t dma_buf ((m, w), st) })"

text \<open>The object behind a pointer, and an update of it.\<close>

definition cache_at :: "nat \<Rightarrow> 'w machine \<Rightarrow> cache" where
  "cache_at a M = objects M a"

definition upd_cache :: "nat \<Rightarrow> (cache \<Rightarrow> cache) \<Rightarrow> 'w machine \<Rightarrow> 'w machine" where
  "upd_cache a f M = M\<lparr>objects := (objects M)(a := f (objects M a))\<rparr>"

definition wakeup_mg_worker :: "'w os \<Rightarrow> proc \<Rightarrow> 'w machine \<Rightarrow> int \<times> 'w machine" where
  "wakeup_mg_worker os P M =
     (case shared_cache P of
        None \<Rightarrow> (1, M)
      | Some a \<Rightarrow>
          if mg_worker (cache_at a M) \<noteq> 0 then (1, M)
          else case sys_thread_create os (world M) of ((rc, thread), w) \<Rightarrow>
            let M = M\<lparr>world := w\<rparr>
            in (rc, if rc = 0 then upd_cache a (\<lambda>c. c\<lparr>mg_worker := thread\<rparr>) M else M))"

definition shutdown_mg_worker :: "'w os \<Rightarrow> proc \<Rightarrow> 'w machine \<Rightarrow> int \<times> 'w machine" where
  "shutdown_mg_worker os P M =
     (case shared_cache P of
        None \<Rightarrow> (1, M)
      | Some a \<Rightarrow>
          if mg_worker (cache_at a M) = 0 then (1, M)
          else case sys_thread_stop os (mg_worker (cache_at a M)) (cache_at a M) (world M) of ((rc, c), w) \<Rightarrow>
            (rc, upd_cache a (\<lambda>_. c\<lparr>mg_worker := 0\<rparr>) (M\<lparr>world := w\<rparr>)))"

section \<open>The interface\<close>

definition start_count :: "cache \<Rightarrow> cache" where
  "start_count c =
     c\<lparr>cache_state := (let s = (cache_state c)\<lparr>state_lock := spinlock_init (state_lock (cache_state c))\<rparr>;
                            s = s\<lparr>running := True\<rparr> in s\<lparr>user_count := 0\<rparr>)\<rparr>"

text \<open>The description of the device that \<open>init_ssd_cache\<close> writes; a block size of 0 is a division by zero.\<close>

definition describe_device :: "'w system \<Rightarrow> target \<Rightarrow> device \<Rightarrow> device option" where
  "describe_device sys t d =
     (let d = (case get_device_info sys t of
                 Some (bs, ds) \<Rightarrow> let d = d\<lparr>dev_block_size := bs\<rparr> in d\<lparr>device_size := ds\<rparr>
               | None \<Rightarrow> d);
          d = d\<lparr>dev_cache_block_num := CACHE_BLOCK_NUMBER\<rparr>
      in if dev_block_size d = 0 then None
         else
           let d = d\<lparr>dev_block_per_cblock_shift := LOG2 (CACHE_BLOCK_SIZE div dev_block_size d)\<rparr>
           in Some (d\<lparr>dev_block_per_page_shift := LOG2 (PAGE_SIZE div dev_block_size d)\<rparr>))"

definition init_ssd_cache :: "'w os \<Rightarrow> 'w system \<Rightarrow> proc \<times> 'w machine \<Rightarrow> ((proc \<times> 'w machine) \<times> int) option" where
  "init_ssd_cache os sys = (\<lambda>(P, M).
     case alloc_shm os M of (ptr, M) \<Rightarrow>
     let P = P\<lparr>shared_cache := ptr\<rparr>
     in case ptr of
       None \<Rightarrow> Some ((P, M), 1)
     | Some a \<Rightarrow>
         if running (cache_state (cache_at a M)) then Some ((P, M), 1)
         else do {
           ((t, w), rc) \<leftarrow> init_spdk sys (spdk_target P, world M);
           let P = P\<lparr>spdk_target := t\<rparr>;
           let M = M\<lparr>world := w\<rparr>;
           if rc \<noteq> 0 then Some ((P, M), 1)
           else do {
             d \<leftarrow> describe_device sys t (cache_dev (cache_at a M));
             let M = upd_cache a (\<lambda>c. c\<lparr>cache_dev := d\<rparr>) M;
             let target_size = (ucast CACHE_BLOCK_NUMBER :: u64) * ucast CACHE_BLOCK_SIZE;
             if device_size d < target_size then Some ((P, M), 1)
             else case init_mapping (cache_map (cache_at a M)) (dev_block_size d) (dev_cache_block_num d) of
               (m, rc) \<Rightarrow>
                 let M = upd_cache a (\<lambda>c. c\<lparr>cache_map := m\<rparr>) M
                 in if rc \<noteq> 0 then Some ((P, M), 1)
                    else Some ((P, upd_cache a start_count (snd (wakeup_mg_worker os P M))), 0) } })"

definition count_users :: "u32 \<Rightarrow> cache \<Rightarrow> cache option" where
  "count_users n c = do {
     l \<leftarrow> spinlock_lock (state_lock (cache_state c));
     let s = (cache_state c)\<lparr>state_lock := l\<rparr>;
     let s = s\<lparr>user_count := user_count s + n\<rparr>;
     Some (c\<lparr>cache_state := s\<lparr>state_lock := spinlock_unlock (state_lock s)\<rparr>\<rparr>) }"

definition link_ssd_cache :: "'w os \<Rightarrow> 'w system \<Rightarrow> proc \<times> 'w machine \<Rightarrow> ((proc \<times> 'w machine) \<times> int) option" where
  "link_ssd_cache os sys = (\<lambda>(P, M).
     case link_shm os M of (ptr, M) \<Rightarrow>
     let P = P\<lparr>shared_cache := ptr\<rparr>
     in case ptr of
       None \<Rightarrow> Some ((P, M), 1)
     | Some a \<Rightarrow>
         if \<not> running (cache_state (cache_at a M)) then Some ((P, M), 1)
         else do {
           ((t, w), rc) \<leftarrow> init_spdk sys (spdk_target P, world M);
           let P = P\<lparr>spdk_target := t\<rparr>;
           let M = M\<lparr>world := w\<rparr>;
           if rc \<noteq> 0 then Some ((P, M), 1)
           else do { c \<leftarrow> count_users 1 (cache_at a M); Some ((P, upd_cache a (\<lambda>_. c) M), 0) } })"

definition unlink_ssd_cache :: "'w os \<Rightarrow> 'w system \<Rightarrow> proc \<times> 'w machine \<Rightarrow> ((proc \<times> 'w machine) \<times> int) option" where
  "unlink_ssd_cache os sys = (\<lambda>(P, M).
     case shared_cache P of
       None \<Rightarrow> Some ((P, M), 1)
     | Some a \<Rightarrow>
         if \<not> running (cache_state (cache_at a M)) then Some ((P, M), 1)
         else case exit_spdk sys (spdk_target P, world M) of (t, w) \<Rightarrow> do {
           let P = P\<lparr>spdk_target := t\<rparr>;
           let M = M\<lparr>world := w\<rparr>;
           c \<leftarrow> count_users (- 1) (cache_at a M);
           case unmap_shm os (upd_cache a (\<lambda>_. c) M) of (rc, M) \<Rightarrow>
             if rc \<noteq> 0 then Some ((P, M), 1) else Some ((P\<lparr>shared_cache := None\<rparr>, M), 0) })"

text \<open>The loop of \<open>exit_ssd_cache\<close>: it waits, a second at a time, until no user is left.\<close>

definition poll_users :: "cache \<Rightarrow> (cache \<times> u32) option" where
  "poll_users c = do {
     l \<leftarrow> spinlock_lock (state_lock (cache_state c));
     let s = (cache_state c)\<lparr>state_lock := l\<rparr>;
     let n = user_count s;
     Some (c\<lparr>cache_state := s\<lparr>state_lock := spinlock_unlock (state_lock s)\<rparr>\<rparr>, n) }"

partial_function (option) wait_users :: "'w os \<Rightarrow> cache \<Rightarrow> 'w \<Rightarrow> (cache \<times> 'w) option" where
  "wait_users os c w = do {
     (c, n) \<leftarrow> poll_users c;
     if n \<le> 0 then Some (c, w)
     else case sys_sleep os c w of (c, w) \<Rightarrow> wait_users os c w }"

definition exit_ssd_cache :: "'w os \<Rightarrow> 'w system \<Rightarrow> proc \<times> 'w machine \<Rightarrow> ((proc \<times> 'w machine) \<times> int) option" where
  "exit_ssd_cache os sys = (\<lambda>(P, M).
     case shared_cache P of
       None \<Rightarrow> Some ((P, M), 1)
     | Some a \<Rightarrow>
         if \<not> running (cache_state (cache_at a M)) then Some ((P, M), 1)
         else do {
           (c, w) \<leftarrow> wait_users os (cache_at a M) (world M);
           let M = (upd_cache a (\<lambda>_. c) M)\<lparr>world := w\<rparr>;
           let M = snd (shutdown_mg_worker os P M);
           case exit_spdk sys (spdk_target P, world M) of (t, w) \<Rightarrow>
           let P = P\<lparr>spdk_target := t\<rparr>; M = M\<lparr>world := w\<rparr>
           in case unmap_shm os M of (rc, M) \<Rightarrow>
             if rc \<noteq> 0 then Some ((P, M), 1)
             else case unlink_shm os M of (rc, M) \<Rightarrow>
               if rc \<noteq> 0 then Some ((P, M), 1) else Some ((P\<lparr>shared_cache := None\<rparr>, M), 0) })"

definition force_exit_ssd_cache :: "'w os \<Rightarrow> proc \<times> 'w machine \<Rightarrow> proc \<times> 'w machine" where
  "force_exit_ssd_cache os = (\<lambda>(P, M). (P, snd (unlink_shm os (snd (shutdown_mg_worker os P M)))))"

definition submit_pio :: "'w system \<Rightarrow> pio_heap \<Rightarrow> proc \<times> 'w machine \<Rightarrow> u64 \<Rightarrow> ((proc \<times> 'w machine) \<times> int) option" where
  "submit_pio sys h = (\<lambda>(P, M) p.
     case shared_cache P of
       None \<Rightarrow> Some ((P, M), 1)
     | Some a \<Rightarrow>
         if \<not> running (cache_state (cache_at a M)) then Some ((P, M), 1)
         else if p = 0 then Some ((P, M), 1)
         else do {
           ((c, w), rc) \<leftarrow> submit_to_target sys (spdk_target P) h (cache_at a M) p (world M);
           Some ((P, (upd_cache a (\<lambda>_. c) M)\<lparr>world := w\<rparr>), rc) })"

section \<open>What the calls change\<close>

abbreviation cache_unlocked :: "cache \<Rightarrow> bool" where
  "cache_unlocked c \<equiv> unlocked (state_lock (cache_state c))"

lemma count_users_free [simp]:
  "cache_unlocked c \<Longrightarrow> count_users n c = Some (c\<lparr>cache_state := (cache_state c)\<lparr>user_count := user_count (cache_state c) + n\<rparr>\<rparr>)"
  by (cases "cache_state c") (simp add: count_users_def)

lemma poll_users_free [simp]: "cache_unlocked c \<Longrightarrow> poll_users c = Some (c, user_count (cache_state c))"
  by (cases c; cases "cache_state c") (simp add: poll_users_def)

lemma cache_at_upd [simp]: "cache_at b (upd_cache a f M) = (if b = a then f (cache_at a M) else cache_at b M)"
  by (simp add: cache_at_def upd_cache_def)

lemma cache_at_world [simp]: "cache_at a (M\<lparr>world := w\<rparr>) = cache_at a M" "cache_at a (M\<lparr>shm_name := x\<rparr>) = cache_at a M"
  by (simp_all add: cache_at_def)

lemma upd_cache_fields [simp]:
  "world (upd_cache a f M) = world M" "shm_name (upd_cache a f M) = shm_name M"
  "next_object (upd_cache a f M) = next_object M"
  by (simp_all add: upd_cache_def)

lemma unmap_shm_cache [simp]: "unmap_shm os M = (rc, M') \<Longrightarrow> cache_at a M' = cache_at a M"
  by (auto simp: unmap_shm_def split: prod.splits)

lemma link_shm_cache: "link_shm os M = (ptr, M') \<Longrightarrow> cache_at a M' = cache_at a M \<and> shm_name M' = shm_name M
    \<and> (ptr = None \<or> ptr = shm_name M)"
  by (auto simp: link_shm_def Let_def split: prod.splits if_splits)

text \<open>A request leaves the state of the sharing alone.\<close>

lemma submit_to_target_state:
  assumes "submit_to_target sys t h c p w = Some ((c', w'), rc)"
  shows "cache_state c' = cache_state c"
proof -
  have discard: "cache_state d = cache_state c" if "discard_pio h c p = Some (d, rc)" for d rc
    using that by (auto simp: discard_pio_def bind_eq_Some_conv split: if_splits)
  have cached: "cache_state d = cache_state b"
    if "map_to_cache sys t h b p e w = Some ((d, w'), rc)" for b d e w' rc
    using that by (auto simp: map_to_cache_def read_cache_def write_cache_def Let_def bind_eq_Some_conv split: if_splits)
  have origin: "cache_state d = cache_state b" if "map_to_origin sys h b p w = Some ((d, w'), rc)" for b d w' rc
    using that by (auto simp: map_to_origin_def read_origin_def write_origin_def Let_def bind_eq_Some_conv case_prod_unfold split: if_splits)
  have mapped: "cache_state d = cache_state c" if "map_pio sys t h c p w = Some ((d, w'), rc)" for d w' rc
    using that by (auto simp: map_pio_def Let_def bind_eq_Some_conv split: if_splits option.splits dest!: cached origin)
  show ?thesis
    using assms by (auto simp: submit_to_target_def bind_eq_Some_conv split: if_splits dest: discard mapped)
qed

section \<open>Waiting for the users\<close>

text \<open>The cache and the machine after \<open>n\<close> seconds of sleep.\<close>

definition sleeps :: "'w os \<Rightarrow> nat \<Rightarrow> cache \<times> 'w \<Rightarrow> cache \<times> 'w" where
  "sleeps os n = ((\<lambda>(c, w). sys_sleep os c w) ^^ n)"

lemma sleeps_simps [simp]:
  "sleeps os 0 cw = cw" "sleeps os (Suc n) cw = sleeps os n (sys_sleep os (fst cw) (snd cw))"
  by (simp_all add: sleeps_def funpow_Suc_right case_prod_unfold del: funpow.simps(2))

lemma wait_users_step:
  "cache_unlocked c \<Longrightarrow> wait_users os c w =
    (if user_count (cache_state c) = 0 then Some (c, w) else case sys_sleep os c w of (c, w) \<Rightarrow> wait_users os c w)"
  by (simp add: wait_users.simps [of os c w])

lemma wait_users_returns:
  assumes "\<forall>k \<le> n. cache_unlocked (fst (sleeps os k (c, w)))"
    and "\<forall>k < n. user_count (cache_state (fst (sleeps os k (c, w)))) \<noteq> 0"
    and "user_count (cache_state (fst (sleeps os n (c, w)))) = 0"
  shows "wait_users os c w = Some (sleeps os n (c, w))"
  using assms
proof (induction n arbitrary: c w)
  case 0
  then show ?case by (simp add: wait_users_step)
next
  case (Suc n)
  obtain c' w' where next_eq: "sys_sleep os c w = (c', w')" by fastforce
  have "wait_users os c' w' = Some (sleeps os n (c', w'))"
    using Suc.prems next_eq by (intro Suc.IH) (auto dest: spec [of _ "Suc _"])
  moreover have "cache_unlocked c" "user_count (cache_state c) \<noteq> 0"
    using Suc.prems(1,2) [rule_format, of 0] by simp_all
  ultimately show ?case by (simp add: wait_users_step next_eq)
qed

lemma wait_users_result:
  "wait_users os c w = Some r \<Longrightarrow> \<exists>n. (\<forall>k < n. user_count (cache_state (fst (sleeps os k (c, w)))) \<noteq> 0)
    \<and> sleeps os n (c, w) = r \<and> user_count (cache_state (fst r)) = 0"
proof (rule wait_users.raw_induct [where P = "\<lambda>os c w r. \<exists>n. (\<forall>k < n. user_count (cache_state (fst (sleeps os k (c, w)))) \<noteq> 0)
    \<and> sleeps os n (c, w) = r \<and> user_count (cache_state (fst r)) = 0"])
  fix f and os :: "'a os" and c w r
  assume IH: "\<And>os c w r. f os c w = Some r \<Longrightarrow>
      \<exists>n. (\<forall>k < n. user_count (cache_state (fst (sleeps os k (c, w)))) \<noteq> 0)
        \<and> sleeps os n (c, w) = r \<and> user_count (cache_state (fst r)) = 0"
    and eq: "poll_users c \<bind> (\<lambda>(c, n). if n \<le> 0 then Some (c, w)
      else case sys_sleep os c w of (c, w) \<Rightarrow> f os c w) = Some r"
  have free: "cache_unlocked c"
    using eq by (cases "cache_unlocked c") (simp_all add: poll_users_def)
  show "\<exists>n. (\<forall>k < n. user_count (cache_state (fst (sleeps os k (c, w)))) \<noteq> 0)
      \<and> sleeps os n (c, w) = r \<and> user_count (cache_state (fst r)) = 0"
  proof (cases "user_count (cache_state c) = 0")
    case True
    with eq free show ?thesis by (intro exI [of _ 0]) auto
  next
    case False
    obtain c1 w1 where next_eq: "sys_sleep os c w = (c1, w1)" by fastforce
    with eq free False have "f os c1 w1 = Some r" by simp
    from IH [OF this] obtain n where n: "\<forall>k < n. user_count (cache_state (fst (sleeps os k (c1, w1)))) \<noteq> 0"
      "sleeps os n (c1, w1) = r" "user_count (cache_state (fst r)) = 0" by blast
    have "\<forall>k < Suc n. user_count (cache_state (fst (sleeps os k (c, w)))) \<noteq> 0"
      using n(1) False next_eq by (auto simp: less_Suc_eq_0_disj)
    with n next_eq show ?thesis by (intro exI [of _ "Suc n"]) simp
  qed
qed

section \<open>Many processes\<close>

text \<open>
  Processes that link, use and unlink one running cache, any of them at any time and as often as they like.
  \<open>links_made\<close> counts the calls of \<open>link_ssd_cache\<close> that returned 0, \<open>unlinks_made\<close> the calls of \<open>unlink_ssd_cache\<close> by a process that
  has a pointer to the cache, be it from a link, from a link that failed after mapping the memory, or from \<open>init_ssd_cache\<close>.
\<close>

record 'w host =
  procs :: "nat \<Rightarrow> proc"
  links_made :: nat
  unlinks_made :: nat
  memory :: "'w machine"

inductive host_step :: "'w os \<Rightarrow> 'w system \<Rightarrow> 'w host \<Rightarrow> 'w host \<Rightarrow> bool" for os sys where
  host_link: "link_ssd_cache os sys (procs H i, memory H) = Some ((P, M), rc) \<Longrightarrow>
    host_step os sys H (H\<lparr>procs := (procs H)(i := P), links_made := links_made H + (if rc = 0 then 1 else 0), memory := M\<rparr>)"
| host_unlink: "unlink_ssd_cache os sys (procs H i, memory H) = Some ((P, M), rc) \<Longrightarrow>
    host_step os sys H (H\<lparr>procs := (procs H)(i := P), unlinks_made := unlinks_made H + (if shared_cache (procs H i) = None then 0 else 1),
      memory := M\<rparr>)"
| host_submit: "submit_pio sys h (procs H i, memory H) p = Some ((P, M), rc) \<Longrightarrow>
    host_step os sys H (H\<lparr>procs := (procs H)(i := P), memory := M\<rparr>)"

definition points_to :: "nat \<Rightarrow> proc \<Rightarrow> bool" where
  "points_to a P \<longleftrightarrow> shared_cache P = None \<or> shared_cache P = Some a"

definition host_start :: "nat \<Rightarrow> 'w host \<Rightarrow> bool" where
  "host_start a H \<longleftrightarrow> shm_name (memory H) = Some a \<and> links_made H = 0 \<and> unlinks_made H = 0 \<and> (\<forall>i. points_to a (procs H i))
     \<and> running (cache_state (cache_at a (memory H))) \<and> user_count (cache_state (cache_at a (memory H))) = 0
     \<and> cache_unlocked (cache_at a (memory H))"

definition host_inv :: "nat \<Rightarrow> 'w host \<Rightarrow> bool" where
  "host_inv a H \<longleftrightarrow> shm_name (memory H) = Some a \<and> (\<forall>i. points_to a (procs H i))
     \<and> running (cache_state (cache_at a (memory H)))
     \<and> user_count (cache_state (cache_at a (memory H))) = of_nat (links_made H) - of_nat (unlinks_made H)
     \<and> cache_unlocked (cache_at a (memory H))"

lemma link_effect:
  assumes link: "link_ssd_cache os sys (P, M) = Some ((P', M'), rc)" and "shm_name M = Some a"
    and "running (cache_state (cache_at a M))" and free: "cache_unlocked (cache_at a M)"
  shows "shm_name M' = Some a \<and> points_to a P'
    \<and> cache_state (cache_at a M') = (cache_state (cache_at a M))\<lparr>user_count :=
        user_count (cache_state (cache_at a M)) + (if rc = 0 then 1 else 0)\<rparr>"
proof -
  obtain ptr M1 where shm: "link_shm os M = (ptr, M1)" by fastforce
  note same = link_shm_cache [OF shm]
  show ?thesis
  proof (cases ptr)
    case None
    with link have "P' = P\<lparr>shared_cache := None\<rparr>" "M' = M1" "rc = 1"
      by (simp_all add: link_ssd_cache_def shm)
    with same assms(2) show ?thesis by (simp add: points_to_def)
  next
    case (Some b)
    with same assms(2,3) have b: "b = a" "running (cache_state (cache_at b M1))" by auto
    from link Some b(2) obtain t w rc1 where spdk: "init_spdk sys (spdk_target P, world M1) = Some ((t, w), rc1)"
      by (auto simp: link_ssd_cache_def shm bind_eq_Some_conv)
    have "cache_unlocked (cache_at a M1)" using same free by simp
    with link Some b spdk have "M' = (if rc1 \<noteq> 0 then M1\<lparr>world := w\<rparr> else upd_cache a (\<lambda>_. (cache_at a M1)\<lparr>cache_state :=
        (cache_state (cache_at a M1))\<lparr>user_count := user_count (cache_state (cache_at a M1)) + 1\<rparr>\<rparr>) (M1\<lparr>world := w\<rparr>))
      \<and> shared_cache P' = Some a \<and> rc = (if rc1 \<noteq> 0 then 1 else 0)"
      by (simp add: link_ssd_cache_def shm split: if_splits) auto
    with same assms(2) show ?thesis by (simp add: points_to_def)
  qed
qed

lemma unlink_effect:
  assumes unlink: "unlink_ssd_cache os sys (P, M) = Some ((P', M'), rc)" and ptr: "shared_cache P = Some a"
    and run: "running (cache_state (cache_at a M))" and free: "cache_unlocked (cache_at a M)"
  shows "shm_name M' = shm_name M \<and> points_to a P' \<and> cache_state (cache_at a M') = (cache_state (cache_at a M))\<lparr>user_count :=
      user_count (cache_state (cache_at a M)) - 1\<rparr>"
proof -
  obtain t w where spdk: "exit_spdk sys (spdk_target P, world M) = (t, w)" by fastforce
  obtain rc1 w1 where unmap: "sys_munmap os w = (rc1, w1)" by fastforce
  have "M' = (upd_cache a (\<lambda>_. (cache_at a M)\<lparr>cache_state := (cache_state (cache_at a M))\<lparr>user_count :=
      user_count (cache_state (cache_at a M)) - 1\<rparr>\<rparr>) (M\<lparr>world := w\<rparr>))\<lparr>world := w1\<rparr> \<and> points_to a P'"
    using unlink ptr run free by (auto simp: unlink_ssd_cache_def spdk unmap unmap_shm_def points_to_def split: if_splits)
  then show ?thesis by simp
qed

lemma unlink_returns:
  assumes "shared_cache P = Some a" and "running (cache_state (cache_at a M))" and "cache_unlocked (cache_at a M)"
  shows "\<exists>P' M' rc. unlink_ssd_cache os sys (P, M) = Some ((P', M'), rc)"
proof -
  obtain t w where spdk: "exit_spdk sys (spdk_target P, world M) = (t, w)" by fastforce
  obtain rc w1 where unmap: "sys_munmap os w = (rc, w1)" by fastforce
  show ?thesis
    by (cases "rc = - 1") (simp_all add: unlink_ssd_cache_def assms spdk unmap unmap_shm_def)
qed

lemma submit_effect:
  assumes "submit_pio sys h (P, M) p = Some ((P', M'), rc)"
  shows "P' = P \<and> shm_name M' = shm_name M \<and> cache_state (cache_at a M') = cache_state (cache_at a M)"
  using assms
  by (auto simp: submit_pio_def bind_eq_Some_conv split: option.splits if_splits dest: submit_to_target_state)

lemma host_inv_step:
  assumes inv: "host_inv a H" and step: "host_step os sys H H'"
  shows "host_inv a H'"
  using step
proof cases
  case (host_link i P M rc)
  show ?thesis using inv host_link(1) link_effect [OF host_link(2), of a] by (simp add: host_inv_def)
next
  case (host_unlink i P M rc)
  show ?thesis
  proof (cases "shared_cache (procs H i)")
    case None
    with host_unlink have "P = procs H i" "M = memory H" by (simp_all add: unlink_ssd_cache_def)
    with inv host_unlink(1) None show ?thesis by (simp add: host_inv_def)
  next
    case (Some b)
    have "points_to a (procs H i)" using inv by (simp add: host_inv_def)
    with Some have ptr: "shared_cache (procs H i) = Some a" by (simp add: points_to_def)
    show ?thesis using inv host_unlink(1) unlink_effect [OF host_unlink(2) ptr] ptr by (simp add: host_inv_def)
  qed
next
  case (host_submit h i p P M rc)
  show ?thesis using inv host_submit(1) submit_effect [OF host_submit(2), of a] by (simp add: host_inv_def)
qed

interpretation host: inductive_invariant "host_start a" "host_step os sys" "host_inv a"
  for a os sys
proof unfold_locales
  show "host_start a H \<Longrightarrow> host_inv a H" for H :: "'w host"
    by (simp add: host_start_def host_inv_def)
qed (rule host_inv_step)

lemma sleeps_still:
  assumes "\<And>c w. fst (sys_sleep os c w) = c"
  shows "fst (sleeps os n (c, w)) = c"
proof (induction n arbitrary: c w)
  case (Suc n)
  obtain c' w' where "sys_sleep os c w = (c', w')" by fastforce
  with assms [of c w] Suc.IH [of c' w'] show ?case by simp
qed simp

lemma wait_users_forever:
  assumes "\<And>c w. fst (sys_sleep os c w) = c" and "user_count (cache_state c) \<noteq> 0"
  shows "wait_users os c w = None"
proof (cases "wait_users os c w")
  case (Some r)
  from wait_users_result [OF this] assms(2) sleeps_still [OF assms(1)] show ?thesis by force
qed

section \<open>The thread drains the queue\<close>

text \<open>How the thread has ended: at rest with nothing to do, or in a transfer whose page is still queued.\<close>

definition ended :: "cache_view \<Rightarrow> stage \<Rightarrow> bool" where
  "ended v st \<longleftrightarrow> (if st = At_rest then work_list v = [] else
     work_list v \<noteq> [] \<and> (\<exists>e. st = Copying_in (hd (work_list v)) e \<or> st = Copying_out e))"

definition drained :: "'w os \<Rightarrow> cache_view \<Rightarrow> ((mapping \<times> 'w) \<times> stage) option \<Rightarrow> bool" where
  "drained os v r \<longleftrightarrow> (\<exists>m' w' st v'. r = Some ((m', w'), st) \<and> mrep m' v' \<and> stage_inv v' st \<and> ended v' st
     \<and> (\<exists>n. work_list v' = drop n (work_list v)) \<and> ((\<forall>w. sys_cut os w = None) \<longrightarrow> st = At_rest))"

lemma migration_cut:
  assumes "mrep m v" and "stage_inv v st" and "ended_in os w st = Some w'"
  shows "drained os v (migration os sys t buf ((m, w), st))"
proof -
  have "\<exists>e k. st = Copying_in k e \<or> st = Copying_out e" and cut: "sys_cut os w = Some w'"
    using assms(3) by (auto simp: ended_in_def split: stage.splits)
  with assms(2) have "ended v st" by (auto simp: ended_def stage_inv_def phase_inv_def)
  moreover have "migration os sys t buf ((m, w), st) = Some ((m, w'), st)" using assms(3) by (simp add: migration.simps [of os])
  moreover have "\<exists>n. work_list v = drop n (work_list v)" by (rule exI [of _ 0]) simp
  moreover have "\<not> (\<forall>w. sys_cut os w = None)" using cut by auto
  ultimately show ?thesis using assms(1,2) unfolding drained_def by blast
qed

lemma migration_idle:
  assumes rep: "mrep m v" and "stage_inv v At_rest" and "work_list v = []" and "sys_testcancel os w = (True, w')"
  shows "drained os v (migration os sys t buf ((m, w), At_rest))"
proof -
  have "phase_inv Idle v" using assms(2) by (simp add: stage_inv_def)
  from peak_phase [OF rep this] assms(3) have "migration os sys t buf ((m, w), At_rest) = Some ((m, w'), At_rest)"
    by (simp add: migration.simps [of os] ended_in_def is_empty_sim [OF rep] assms(4))
  moreover have "\<exists>n. work_list v = drop n (work_list v)" by (rule exI [of _ 0]) simp
  ultimately show ?thesis using assms(1-3) unfolding drained_def ended_def by auto
qed

lemma migration_ends:
  assumes sys: "responsive sys" and cancel: "\<And>w. fst (sys_testcancel os w)" and "mrep m v" and "stage_inv v st"
  shows "drained os v (migration os sys t buf ((m, w), st))"
  using assms(3,4)
proof (induction "work_left v st" arbitrary: v m w st rule: less_induct)
  case less
  show ?case
  proof (cases "ended_in os w st")
    case (Some w')
    then show ?thesis by (rule migration_cut [OF less.prems])
  next
    case None
    show ?thesis
    proof (cases "st = At_rest \<and> work_list v = []")
      case True
      obtain w' where "sys_testcancel os w = (True, w')" using cancel [of w] by (cases "sys_testcancel os w") simp
      then show ?thesis unfolding conjunct1 [OF True]
        by (rule migration_idle [OF less.prems(1) less.prems(2) [unfolded conjunct1 [OF True]] conjunct2 [OF True]])
    next
      case False
      then have "goes_on v st (advance sys t buf (m, w) st)" using advance_goes_on [OF sys less.prems] by blast
      then obtain m1 w1 st1 v1 where step: "advance sys t buf (m, w) st = Some ((m1, w1), st1)" "mrep m1 v1" "stage_inv v1 st1"
        "\<exists>n. work_list v1 = drop n (work_list v)" "work_left v1 st1 < work_left v st"
        unfolding goes_on_def by blast
      have "\<not> (st = At_rest \<and> st1 = At_rest)"
        using step(1) False peak_phase [OF less.prems(1), of Idle] less.prems(2) by (auto simp: stage_inv_def)
      then have "migration os sys t buf ((m, w), st) = migration os sys t buf ((m1, w1), st1)"
        using None step(1) by (subst migration.simps) (simp, blast?)
      moreover have "drained os v1 (migration os sys t buf ((m1, w1), st1))" by (rule less.hyps [OF step(5,2,3)])
      ultimately show ?thesis using step(4) unfolding drained_def by (metis drop_drop)
    qed
  qed
qed

section \<open>Setting up\<close>

lemma unat_power_two: "m < 32 \<Longrightarrow> unat ((2 :: u32) ^ m) = 2 ^ m"
  using unat_of_nat_u32 [of "2 ^ m"] power_strict_increasing [of m 32 "2 :: nat"] by simp

lemma LOG2_power: "n < 32 \<Longrightarrow> LOG2 (2 ^ n) = of_nat n"
proof (induction n)
  case (Suc n)
  note two = unat_power_two
  have "unat ((2 :: u32) ^ Suc n) > 1" using two [OF Suc.prems] one_less_power [of "2 :: nat" "Suc n"] by (simp only: zero_less_Suc one_less_numeral_iff semiring_norm simp_thms)
  then have big: "(2 :: u32) ^ Suc n > 1" by (simp only: word_less_nat_alt unat_1)
  have "unat (drop_bit 1 ((2 :: u32) ^ Suc n)) = 2 ^ n"
    unfolding drop_bit_eq_div unat_div two [OF Suc.prems] by simp
  then have half: "drop_bit 1 ((2 :: u32) ^ Suc n) = 2 ^ n"
    using two [of n] Suc.prems by (simp add: word_unat_eq_iff)
  show ?case
    using Suc big half by (subst LOG2.simps) (simp del: power_Suc)
qed (simp add: LOG2.simps)

lemma shift_value:
  assumes "ps \<le> 12" and "bs = 2 ^ (12 - ps)"
  shows "LOG2 (CACHE_BLOCK_SIZE div bs) = of_nat (ps + 3)" and "LOG2 (PAGE_SIZE div bs) = of_nat ps" and "bs \<noteq> 0"
    and "unat bs = 2 ^ (12 - ps)"
proof -
  show unat_bs: "unat bs = 2 ^ (12 - ps)" using assms by (simp add: unat_power_two)
  then show "bs \<noteq> 0" by auto
  have quotient: "x div bs = 2 ^ (n + ps)" if "unat x = 2 ^ (12 + n)" "n + ps < 32" for x and n :: nat
  proof -
    have "12 + n = (n + ps) + (12 - ps)" using assms(1) by simp
    then have "(2 :: nat) ^ (12 + n) div 2 ^ (12 - ps) = 2 ^ (n + ps)" by (simp only: power_add) simp
    with that unat_bs show ?thesis by (simp add: word_unat_eq_iff unat_div unat_power_two)
  qed
  show "LOG2 (CACHE_BLOCK_SIZE div bs) = of_nat (ps + 3)"
  proof -
    have "unat CACHE_BLOCK_SIZE = 2 ^ (12 + 3)" by (simp add: config_eqs)
    from quotient [OF this] assms(1) have "CACHE_BLOCK_SIZE div bs = 2 ^ (ps + 3)" by (simp add: add.commute)
    then show ?thesis using LOG2_power [of "ps + 3"] assms(1) by simp
  qed
  show "LOG2 (PAGE_SIZE div bs) = of_nat ps"
  proof -
    have "unat PAGE_SIZE = 2 ^ (12 + 0)" by (simp add: config_eqs)
    from quotient [OF this] assms(1) have "PAGE_SIZE div bs = 2 ^ ps" by simp
    then show ?thesis using LOG2_power [of ps] assms(1) by simp
  qed
qed

lemma alloc_shm_fresh:
  "alloc_shm os M = (Some a, M') \<Longrightarrow> shm_name M = None \<Longrightarrow> cache_at a M' = zeroed_cache"
  by (auto simp: alloc_shm_def cache_at_def Let_def split: prod.splits if_splits)

lemma zeroed_mapping_init:
  assumes "bsize \<noteq> 0"
  obtains m where "init_mapping zeroed_mapping bsize CACHE_BLOCK_NUMBER = (m, 0)"
    "mrep m (v_init CACHE_BLOCK_NUMBER (LOG2 (CACHE_BLOCK_SIZE div bsize)) (\<lambda>_. ([], 0)))"
proof -
  have zero: "\<forall>i. param (ents zeroed_mapping i) = 0" "wq_inv (wq zeroed_mapping)" "wq_keys (wq zeroed_mapping) = []"
    by (simp_all add: zeroed_mapping_def wq_inv_def wq_keys_def MAX_WORKQUEUE_SIZE_def)
  have keys: "(\<lambda>i. entry_key (ents zeroed_mapping i)) = (\<lambda>_. ([], 0))"
    by (simp add: zeroed_mapping_def entry_key_def fun_eq_iff)
  show ?thesis
    by (rule init_sim [OF zero assms, of CACHE_BLOCK_NUMBER]) (simp_all add: keys that CACHE_BLOCK_NUMBER_eq)
qed

lemma wakeup_effect:
  assumes "wakeup_mg_worker os P M = (rc, M')"
  shows "cache_state (cache_at a M') = cache_state (cache_at a M)" and "cache_dev (cache_at a M') = cache_dev (cache_at a M)"
    and "cache_map (cache_at a M') = cache_map (cache_at a M)"
  using assms by (auto simp: wakeup_mg_worker_def Let_def split: option.splits prod.splits if_splits)

lemma unat_target_size: "unat ((ucast CACHE_BLOCK_NUMBER :: u64) * ucast CACHE_BLOCK_SIZE) = 2 ^ 30"
  by (simp add: config_eqs)

lemma device_range_bytes:
  assumes dev: "device_ok c ps" and node: "check_pio node" and e: "e < CACHE_BLOCK_NUMBER"
  shows "(unat (target_block c node e) + unat (num_blocks c node)) * 2 ^ (12 - ps) \<le> 2 ^ 30"
proof -
  have ps: "ps \<le> 12" using dev by (simp add: device_ok_def)
  have eight: "unat (page_index node) mod 8 + unat (pio_cnt node) \<le> 8" using node by (simp add: check_pio_iff)
  have "unat e < 32768" using e by (simp add: config_eqs word_less_nat_alt)
  then have "unat e * 8 + (unat (page_index node) mod 8 + unat (pio_cnt node)) \<le> 2 ^ 18" using eight by simp
  then have "(unat e * 8 + (unat (page_index node) mod 8 + unat (pio_cnt node))) * (2 ^ ps * 2 ^ (12 - ps)) \<le> 2 ^ 18 * 2 ^ 12"
    using ps by (simp add: power_add [symmetric])
  then show ?thesis
    by (simp add: target_block_value [OF dev e] num_blocks_value [OF dev node] algebra_simps)
qed

lemma init_ssd_cache_done:
  assumes name: "shm_name M = None" and shm: "alloc_shm os M = (Some a, M1)"
    and spdk: "init_spdk sys (spdk_target P, world M1) = Some ((t, w), 0)"
    and info: "get_device_info sys t = Some (bs, ds)" and ps: "ps \<le> 12" "bs = 2 ^ (12 - ps)" and size: "2 ^ 30 \<le> unat ds"
  shows "\<exists>M2. init_ssd_cache os sys (P, M) = Some ((P\<lparr>shared_cache := Some a, spdk_target := t\<rparr>, M2), 0)
    \<and> cache_state (cache_at a M2) = \<lparr>running = True, user_count = 0, state_lock = \<lparr>locked = 0\<rparr>\<rparr>
    \<and> mrep (cache_map (cache_at a M2)) (v_init CACHE_BLOCK_NUMBER (of_nat (ps + 3)) (\<lambda>_. ([], 0)))
    \<and> device_ok (cache_at a M2) ps
    \<and> (\<forall>node e. check_pio node \<longrightarrow> e < CACHE_BLOCK_NUMBER \<longrightarrow>
         (unat (target_block (cache_at a M2) node e) + unat (num_blocks (cache_at a M2) node)) * unat bs \<le> unat ds)"
proof -
  note shift = shift_value [OF ps]
  note zero = alloc_shm_fresh [OF shm name]
  let ?d = "\<lparr>dev_block_size = bs, device_size = ds, dev_cache_block_num = CACHE_BLOCK_NUMBER,
    dev_block_per_cblock_shift = of_nat (ps + 3), dev_block_per_page_shift = of_nat ps\<rparr>"
  have dev: "describe_device sys t (cache_dev zeroed_cache) = Some ?d"
    by (simp add: describe_device_def info zeroed_cache_def shift Let_def del: of_nat_add)
  obtain m where m: "init_mapping zeroed_mapping bs CACHE_BLOCK_NUMBER = (m, 0)"
    "mrep m (v_init CACHE_BLOCK_NUMBER (of_nat (ps + 3)) (\<lambda>_. ([], 0)))"
    using zeroed_mapping_init [OF shift(3)] unfolding shift(1) by metis
  let ?P = "P\<lparr>shared_cache := Some a, spdk_target := t\<rparr>"
  let ?M = "upd_cache a (\<lambda>c. c\<lparr>cache_map := m\<rparr>) (upd_cache a (\<lambda>c. c\<lparr>cache_dev := ?d\<rparr>) (M1\<lparr>world := w\<rparr>))"
  obtain rc M2 where wake: "wakeup_mg_worker os ?P ?M = (rc, M2)" by fastforce
  note same = wakeup_effect [OF wake, of a]
  let ?c = "cache_at a (upd_cache a start_count M2)"
  have "\<not> device_size ?d < ucast CACHE_BLOCK_NUMBER * ucast CACHE_BLOCK_SIZE"
    using size unat_target_size by (simp add: word_less_nat_alt)
  then have result: "init_ssd_cache os sys (P, M) = Some ((?P, upd_cache a start_count M2), 0)"
    using zero spdk dev m(1) wake by (simp add: init_ssd_cache_def shm zeroed_cache_def Let_def)
  have state: "cache_state ?c = \<lparr>running = True, user_count = 0, state_lock = \<lparr>locked = 0\<rparr>\<rparr>"
    using same(1) zero by (simp add: start_count_def zeroed_cache_def spinlock_init_def Let_def)
  have map: "mrep (cache_map ?c) (v_init CACHE_BLOCK_NUMBER (of_nat (ps + 3)) (\<lambda>_. ([], 0)))"
    using same(3) m(2) by (simp add: start_count_def)
  then have ok: "device_ok ?c ps"
    using same(2) ps(1) mrep_fields(7) [OF map] by (simp add: start_count_def device_ok_def v_init_def)
  have "(unat (target_block ?c node e) + unat (num_blocks ?c node)) * unat bs \<le> unat ds"
    if "check_pio node" "e < CACHE_BLOCK_NUMBER" for node e
    using device_range_bytes [OF ok that] size unfolding shift(4) by linarith
  with result state map ok show ?thesis by blast
qed

section \<open>Properties\<close>

text \<open>
  On fresh shared memory, with a device of at least 1 GB whose block size is a power of two up to 4 KB,
  \<open>init_ssd_cache\<close> returns 0 and leaves a running cache with no users and all of its blocks free, whatever
  becomes of the migration thread. From then on the blocks of every request that \<open>check_pio\<close> lets through lie
  on the device.
\<close>

theorem init_ssd_cache_ready:
  assumes name: "shm_name M = None" and shm: "alloc_shm os M = (Some a, M1)"
    and spdk: "init_spdk sys (spdk_target P, world M1) = Some ((t, w), 0)"
    and info: "get_device_info sys t = Some (bs, ds)" and ps: "ps \<le> 12" "bs = 2 ^ (12 - ps)" and size: "2 ^ 30 \<le> unat ds"
  shows "\<exists>M2. init_ssd_cache os sys (P, M) = Some ((P\<lparr>shared_cache := Some a, spdk_target := t\<rparr>, M2), 0)
    \<and> cache_state (cache_at a M2) = \<lparr>running = True, user_count = 0, state_lock = \<lparr>locked = 0\<rparr>\<rparr>
    \<and> mrep (cache_map (cache_at a M2)) (v_init CACHE_BLOCK_NUMBER (of_nat (ps + 3)) (\<lambda>_. ([], 0)))
    \<and> device_ok (cache_at a M2) ps
    \<and> (\<forall>node e. check_pio node \<longrightarrow> e < CACHE_BLOCK_NUMBER \<longrightarrow>
         (unat (target_block (cache_at a M2) node e) + unat (num_blocks (cache_at a M2) node)) * unat bs \<le> unat ds)"
  by (rule init_ssd_cache_done [OF assms])

definition ready_os :: "nat os" where
  "ready_os = \<lparr>sys_shm_open = (\<lambda>_ w. (3, w)), sys_ftruncate = (\<lambda>_ w. (0, w)), sys_mmap = (\<lambda>_ w. (True, w)),
     sys_munmap = (\<lambda>w. (0, w)), sys_shm_unlink = (\<lambda>w. (0, w)), sys_thread_create = (\<lambda>w. ((0, 77), w)),
     sys_thread_stop = (\<lambda>_ c w. ((0, c), w)), sys_sleep = (\<lambda>c w. (c, Suc w)), sys_testcancel = (\<lambda>w. (True, w)),
     sys_cut = (\<lambda>_. None)\<rparr>"

definition idle_proc :: proc where
  "idle_proc = \<lparr>shared_cache = None, spdk_target = reset_ctrlr_and_ns\<rparr>"

definition blank_machine :: "nat machine" where
  "blank_machine = \<lparr>objects = (\<lambda>_. zeroed_cache), shm_name = None, next_object = 0, world = 5\<rparr>"

lemma failing_system_init:
  "init_spdk failing_system (t, w) = Some ((\<lparr>t_ctrlr = 1, t_ns = 1, t_qpair = (\<lambda>_. 0)(IO_QUEUE := 1, MG_QUEUE := 1),
     t_isfind = True\<rparr>, w), 0)"
proof -
  have fields: "env_init failing_system w = (0, w)" "nvme_probe failing_system w = ((0, [(NVME_ADDR, 1)]), w)"
    "first_active_ns failing_system 1 = 1" "alloc_io_qpair failing_system 1 w = (1, w)"
    by (simp_all add: failing_system_def)
  have "search_ns failing_system 1 1 u = Some (u\<lparr>t_ns := 1, t_isfind := True\<rparr>)" for u
    by (subst search_ns.simps) (simp add: failing_system_def register_ns_def)
  then show ?thesis
    by (simp add: init_spdk_def fields attach_cb_def strcmp_eq_def reset_ctrlr_and_ns_def create_qpair_def)
qed

theorem init_ssd_cache_ready_witness:
  "\<exists>P M. init_ssd_cache ready_os failing_system (idle_proc, blank_machine) = Some ((P, M), 0)
     \<and> running (cache_state (cache_at 0 M)) \<and> device_ok (cache_at 0 M) 3"
proof -
  let ?M1 = "blank_machine\<lparr>objects := (\<lambda>_. zeroed_cache), shm_name := Some 0, next_object := 1\<rparr>"
  have shm: "alloc_shm ready_os blank_machine = (Some 0, ?M1)"
    by (simp add: alloc_shm_def ready_os_def blank_machine_def fun_eq_iff)
  have name: "shm_name blank_machine = None" by (simp add: blank_machine_def)
  have info: "get_device_info failing_system \<lparr>t_ctrlr = 1, t_ns = 1, t_qpair = (\<lambda>_. 0)(IO_QUEUE := 1, MG_QUEUE := 1),
     t_isfind = True\<rparr> = Some (512, 2 ^ 31)"
    by (simp add: get_device_info_def failing_system_def)
  from init_ssd_cache_ready [OF name shm failing_system_init info, of 3 idle_proc] show ?thesis by auto
qed

text \<open>
  C33. While processes link, use and unlink a running cache, in any order and as often as they like, the count is the
  number of links that returned 0 less the number of unlinks called with a pointer to the cache, modulo the width of
  the counter. As long as no more such unlinks than links have been made, and fewer than \<open>2 ^ 32\<close> links, it is exactly
  their difference. The process that initialised the cache is not counted.
\<close>

theorem users_counted:
  assumes "reachable (host_start a) (host_step os sys) H"
  shows "user_count (cache_state (cache_at a (memory H))) = of_nat (links_made H) - of_nat (unlinks_made H)
    \<and> (unlinks_made H \<le> links_made H \<and> links_made H < 2 ^ 32 \<longrightarrow> unat (user_count (cache_state (cache_at a (memory H)))) = links_made H - unlinks_made H)"
proof -
  have count: "user_count (cache_state (cache_at a (memory H))) = of_nat (links_made H) - of_nat (unlinks_made H)"
    using host.reachable_inv [OF assms] by (simp add: host_inv_def)
  have "unat (of_nat (links_made H) - of_nat (unlinks_made H) :: u32) = links_made H - unlinks_made H" if "unlinks_made H \<le> links_made H" "links_made H < 2 ^ 32"
  proof -
    have "(of_nat (links_made H) - of_nat (unlinks_made H) :: u32) = of_nat (links_made H - unlinks_made H)" using that(1) by simp
    moreover have "links_made H - unlinks_made H < 2 ^ 32" using that(2) by simp
    ultimately show ?thesis by (simp add: unat_of_nat_u32)
  qed
  with count show ?thesis by simp
qed

definition running_cache :: cache where
  "running_cache = start_count zeroed_cache"

definition running_machine :: "nat machine" where
  "running_machine = blank_machine\<lparr>objects := (\<lambda>_. running_cache), shm_name := Some 0, next_object := 1\<rparr>"

lemma running_cache_state: "cache_state running_cache = \<lparr>running = True, user_count = 0, state_lock = \<lparr>locked = 0\<rparr>\<rparr>"
  by (simp add: running_cache_def start_count_def zeroed_cache_def spinlock_init_def Let_def)

lemma running_machine_cache: "cache_at 0 running_machine = running_cache" "shm_name running_machine = Some 0"
  by (simp_all add: running_machine_def cache_at_def)

theorem users_counted_witness:
  "\<exists>P M. link_ssd_cache ready_os failing_system (idle_proc, running_machine) = Some ((P, M), 0)
     \<and> unat (user_count (cache_state (cache_at 0 M))) = 1"
proof -
  let ?H = "\<lparr>procs = (\<lambda>_. idle_proc), links_made = 0, unlinks_made = 0, memory = running_machine\<rparr>"
  obtain P M where link: "link_ssd_cache ready_os failing_system (idle_proc, running_machine) = Some ((P, M), 0)"
    by (simp add: link_ssd_cache_def link_shm_def ready_os_def running_machine_cache running_cache_state
        failing_system_init Let_def)
  have start: "host_start 0 ?H"
    by (simp add: host_start_def points_to_def idle_proc_def running_machine_cache running_cache_state)
  have "host_step ready_os failing_system ?H
      (?H\<lparr>procs := (procs ?H)(3 := P), links_made := links_made ?H + (if 0 = (0 :: int) then 1 else 0), memory := M\<rparr>)"
    by (rule host_link) (simp add: link)
  from reach_step [where step = "host_step ready_os failing_system", OF reach_start [where ini = "host_start 0"], OF start this]
  have "reachable (host_start 0) (host_step ready_os failing_system) (?H\<lparr>procs := (procs ?H)(3 := P), links_made := 1, memory := M\<rparr>)"
    by simp
  from users_counted [OF this] have "unat (user_count (cache_state (cache_at 0 M))) = 1" by simp
  with link show ?thesis by blast
qed

text \<open>
  \<open>exit_ssd_cache\<close> waits for the users: its loop ends exactly when the count is 0 after some number of
  seconds, the first such one, whatever the other processes do to the cache in between as long as they
  do not hold its lock at the moments it is looked at.
\<close>

theorem exit_waits_for_users:
  assumes "\<forall>n. cache_unlocked (fst (sleeps os n (c, w)))"
  shows "wait_users os c w = Some r \<longleftrightarrow>
    (\<exists>n. (\<forall>k < n. user_count (cache_state (fst (sleeps os k (c, w)))) \<noteq> 0)
      \<and> user_count (cache_state (fst (sleeps os n (c, w)))) = 0 \<and> r = sleeps os n (c, w))"
proof
  assume "wait_users os c w = Some r"
  from wait_users_result [OF this] show "\<exists>n. (\<forall>k < n. user_count (cache_state (fst (sleeps os k (c, w)))) \<noteq> 0)
      \<and> user_count (cache_state (fst (sleeps os n (c, w)))) = 0 \<and> r = sleeps os n (c, w)"
    by blast
next
  assume "\<exists>n. (\<forall>k < n. user_count (cache_state (fst (sleeps os k (c, w)))) \<noteq> 0)
      \<and> user_count (cache_state (fst (sleeps os n (c, w)))) = 0 \<and> r = sleeps os n (c, w)"
  then obtain n where "\<forall>k < n. user_count (cache_state (fst (sleeps os k (c, w)))) \<noteq> 0"
    "user_count (cache_state (fst (sleeps os n (c, w)))) = 0" "r = sleeps os n (c, w)" by blast
  with wait_users_returns [of n os c w] assms show "wait_users os c w = Some r" by simp
qed

text \<open>An operating system on which the last user leaves during the first second.\<close>

definition leaving_os :: "nat os" where
  "leaving_os = ready_os\<lparr>sys_sleep := (\<lambda>c w. (c\<lparr>cache_state := (cache_state c)\<lparr>user_count := 0\<rparr>\<rparr>, Suc w))\<rparr>"

definition used_cache :: cache where
  "used_cache = running_cache\<lparr>cache_state := (cache_state running_cache)\<lparr>user_count := 3\<rparr>\<rparr>"

lemma leave: "used_cache\<lparr>cache_state := (cache_state used_cache)\<lparr>user_count := 0\<rparr>\<rparr> = running_cache"
  by (cases running_cache) (use running_cache_state in \<open>simp add: used_cache_def\<close>)

theorem exit_waits_for_users_witness:
  "wait_users leaving_os used_cache 7 = Some (running_cache, 8)"
proof -
  have "cache_unlocked (fst (sleeps leaving_os n (c, w)))" if "cache_unlocked c" for n c w
    using that by (induction n arbitrary: c w) (simp_all add: leaving_os_def)
  then have "\<forall>n. cache_unlocked (fst (sleeps leaving_os n (used_cache, 7)))"
    by (simp add: used_cache_def running_cache_state)
  moreover have "sleeps leaving_os 1 (used_cache, 7) = (running_cache, 8)"
    unfolding One_nat_def sleeps_simps by (simp add: leaving_os_def leave)
  ultimately show ?thesis
    by (intro exit_waits_for_users [THEN iffD2] exI [of _ 1]) (auto simp: used_cache_def running_cache_state)
qed

text \<open>
  C35. A link whose \<open>init_spdk\<close> fails returns 1 but keeps the pointer to the shared cache. When this process
  then calls \<open>unlink_ssd_cache\<close> on a cache that has no users, the count becomes \<open>2 ^ 32 - 1\<close>, and
  \<open>exit_ssd_cache\<close> of the administrator never returns.
\<close>

theorem failed_link_blocks_exit:
  assumes name: "link_shm os M = (Some a, M1)" and cache: "cache_state (cache_at a M) = \<lparr>running = True, user_count = 0, state_lock = \<lparr>locked = 0\<rparr>\<rparr>"
    and spdk: "init_spdk sys (spdk_target P, world M1) = Some ((t, w), rc)" "rc \<noteq> 0"
    and still: "\<And>c w. fst (sys_sleep os c w) = c" and admin: "shared_cache A = Some a"
  shows "\<exists>P1 M2. link_ssd_cache os sys (P, M) = Some ((P1, M2), 1)
    \<and> (\<exists>P2 M3 rc. unlink_ssd_cache os sys (P1, M2) = Some ((P2, M3), rc)
        \<and> user_count (cache_state (cache_at a M3)) = 2 ^ 32 - 1 \<and> exit_ssd_cache os sys (A, M3) = None)"
proof -
  let ?P1 = "P\<lparr>shared_cache := Some a, spdk_target := t\<rparr>"
  let ?M2 = "M1\<lparr>world := w\<rparr>"
  have state: "cache_state (cache_at a M1) = \<lparr>running = True, user_count = 0, state_lock = \<lparr>locked = 0\<rparr>\<rparr>"
    using link_shm_cache [OF name] cache by simp
  have link: "link_ssd_cache os sys (P, M) = Some ((?P1, ?M2), 1)"
    using spdk by (simp add: link_ssd_cache_def name state Let_def)
  obtain P2 M3 rc2 where unlink: "unlink_ssd_cache os sys (?P1, ?M2) = Some ((P2, M3), rc2)"
    using unlink_returns [of ?P1 a ?M2 os sys] state by (auto simp del: split_paired_Ex)
  from unlink_effect [OF this, of a] state
  have count: "cache_state (cache_at a M3) = \<lparr>running = True, user_count = 2 ^ 32 - 1, state_lock = \<lparr>locked = 0\<rparr>\<rparr>"
    by simp
  then have "wait_users os (cache_at a M3) (world M3) = None"
    by (intro wait_users_forever [OF still]) simp
  then have "exit_ssd_cache os sys (A, M3) = None"
    by (simp add: exit_ssd_cache_def admin count)
  with link unlink count show ?thesis by (metis cache_state.select_convs(2))
qed

definition broken_system :: "nat system" where
  "broken_system = failing_system\<lparr>env_init := (\<lambda>w. (- 1, w))\<rparr>"

theorem failed_link_blocks_exit_witness:
  "\<exists>P1 M2. link_ssd_cache ready_os broken_system (idle_proc, running_machine) = Some ((P1, M2), 1)
    \<and> (\<exists>P2 M3 rc. unlink_ssd_cache ready_os broken_system (P1, M2) = Some ((P2, M3), rc)
        \<and> exit_ssd_cache ready_os broken_system (idle_proc\<lparr>shared_cache := Some 0\<rparr>, M3) = None)"
proof -
  have name: "link_shm ready_os running_machine = (Some 0, running_machine)"
    by (simp add: link_shm_def ready_os_def running_machine_def blank_machine_def)
  have spdk: "init_spdk broken_system (spdk_target idle_proc, world running_machine)
      = Some ((spdk_target idle_proc, world running_machine), 1)"
    by (simp add: init_spdk_def broken_system_def)
  have still: "fst (sys_sleep ready_os c w) = c" for c w by (simp add: ready_os_def)
  have cache: "cache_state (cache_at 0 running_machine) = \<lparr>running = True, user_count = 0, state_lock = \<lparr>locked = 0\<rparr>\<rparr>"
    by (simp add: running_machine_cache running_cache_state)
  from failed_link_blocks_exit [OF name cache spdk _ still, of "idle_proc\<lparr>shared_cache := Some 0\<rparr>"]
  show ?thesis by (simp del: split_paired_Ex) blast
qed

text \<open>
  C34. The migration thread ends when it is asked to: at rest with an empty queue, or, if the request finds it in a file
  operation of a transfer, in the middle of that transfer, with the page still queued (for a writeback, the page
  the round was for) and the block still pending. On a device that completes its commands, from a consistent mapping whose
  queued pages are not cached and have names of less than 32 bytes, it ends in one of these two ways, whatever the
  request meets, and the pages left in the queue are the last ones. If no request falls into a transfer, it has served
  every queued page.
\<close>

theorem migration_thread_ends:
  assumes "mrep m v" and "moving v = {}" and "\<forall>k \<in> set (work_list v). length (fst k) < MAX_PATH_SIZE \<and> page_table v k = None"
    and "responsive sys" and "\<And>w. fst (sys_testcancel os w)"
  shows "\<exists>m' w' st n. migration os sys t buf ((m, w), At_rest) = Some ((m', w'), st) \<and> wq_keys (wq m') = drop n (wq_keys (wq m))
    \<and> (st = At_rest \<and> wq_keys (wq m') = [] \<or> (\<exists>w. sys_cut os w \<noteq> None) \<and> wq_keys (wq m') \<noteq> []
       \<and> (\<exists>e < cache_block_num m'. pending (ents m' e) \<and> (st = Copying_in (hd (wq_keys (wq m'))) e \<or> st = Copying_out e)))"
proof -
  have "stage_inv v At_rest" using assms(2,3) by (simp add: stage_inv_def phase_inv_def under_way_def unmapped_def)
  from migration_ends [OF assms(4,5,1) this, of t buf w] obtain m' w' st v' n where
    run: "migration os sys t buf ((m, w), At_rest) = Some ((m', w'), st)" "mrep m' v'" "stage_inv v' st" "ended v' st"
      "work_list v' = drop n (work_list v)" "(\<forall>w. sys_cut os w = None) \<longrightarrow> st = At_rest"
    unfolding drained_def by (elim exE conjE) (rule that)
  have queue: "wq_keys (wq m') = work_list v'" "wq_keys (wq m) = work_list v"
    using mrep_fields(5) [OF run(2)] mrep_fields(5) [OF assms(1)] by simp_all
  have "\<exists>e < cache_block_num m'. pending (ents m' e) \<and> (st = Copying_in (hd (work_list v')) e \<or> st = Copying_out e)"
    if busy: "st \<noteq> At_rest"
  proof -
    obtain e where e: "st = Copying_in (hd (work_list v')) e \<or> st = Copying_out e" using run(4) busy unfolding ended_def by (metis (full_types))
    have "moving v' = under_way (phase_of st)" using run(3) by (simp add: stage_inv_def phase_inv_def)
    with e have "e \<in> moving v'" by (elim disjE) (simp_all add: under_way_def)
    then have "pending (ents m' e)" "e < cache_block_num m'"
      using mrep_entry [OF run(2), of e] mrep_fields(1) [OF run(2)] by (simp_all add: entry_ok_def)
    with e show ?thesis by blast
  qed
  then have "st = At_rest \<and> work_list v' = [] \<or> (\<exists>w. sys_cut os w \<noteq> None) \<and> work_list v' \<noteq> []
       \<and> (\<exists>e < cache_block_num m'. pending (ents m' e) \<and> (st = Copying_in (hd (work_list v')) e \<or> st = Copying_out e))"
    using run(4,6) unfolding ended_def by (cases "st = At_rest") simp_all
  then have "wq_keys (wq m') = drop n (wq_keys (wq m)) \<and> (st = At_rest \<and> wq_keys (wq m') = [] \<or> (\<exists>w. sys_cut os w \<noteq> None) \<and> wq_keys (wq m') \<noteq> []
       \<and> (\<exists>e < cache_block_num m'. pending (ents m' e) \<and> (st = Copying_in (hd (wq_keys (wq m'))) e \<or> st = Copying_out e)))"
    unfolding queue using run(5) by (rule conjI [rotated])
  with run(1) show ?thesis by blast
qed

text \<open>Input: a queued page, and a request to end that meets the thread in the transfer.\<close>

definition cutting_os :: "nat os" where
  "cutting_os = ready_os\<lparr>sys_cut := (\<lambda>w. Some (Suc w))\<rparr>"

lemma migration_go:
  assumes "advance sys t buf (m, w) st = Some ((m1, w1), st1)" and "st1 \<noteq> At_rest" and "ended_in os w st = None"
  shows "migration os sys t buf ((m, w), st) = migration os sys t buf ((m1, w1), st1)"
  using assms by (subst migration.simps) simp

theorem migration_thread_ends_witness:
  "(\<exists>m' w'. migration ready_os failing_system reset_ctrlr_and_ns 4096 ((queued_cache ''f'', 7), At_rest) = Some ((m', w'), At_rest)
     \<and> wq_keys (wq m') = [])
   \<and> (\<exists>m' w' k e. migration cutting_os failing_system reset_ctrlr_and_ns 4096 ((queued_cache ''f'', 7), At_rest)
       = Some ((m', w'), Copying_in k e) \<and> pending (ents m' e) \<and> wq_keys (wq m') \<noteq> [])"
proof -
  have len: "length ''f'' \<le> MAX_PATH_SIZE" by (simp add: config_eqs)
  have cut_at: "sys_cut cutting_os w = Some (Suc w)" for w by (simp add: cutting_os_def)
  note rep = queued_cache_rep [OF len]
  obtain v where v: "mrep (queued_cache ''f'') v" "moving v = {}"
    "\<forall>k \<in> set (work_list v). length (fst k) < MAX_PATH_SIZE \<and> page_table v k = None" "work_list v \<noteq> []" "free_q v \<noteq> []"
    by (rule that [OF rep]) (simp_all add: v_init_def config_eqs range_u32_two)
  have rest: "stage_inv v At_rest" using v(2,3) by (simp add: stage_inv_def phase_inv_def under_way_def unmapped_def)
  obtain e F where free: "free_q v = e # F" using v(5) by (cases "free_q v") auto
  let ?k = "hd (work_list v)"
  have "length (fst ?k) \<le> MAX_PATH_SIZE" using v(3,4) list.set_sel(1) [of "work_list v"] by (simp add: less_imp_le)
  from promotion_start_sim [OF v(1) this, of "snd ?k"] obtain m1 where
    m1: "promotion_free_to_clean (queued_cache ''f'') (fst ?k) (snd ?k) = Some (m1, Some e)"
    by (auto simp: v_promotion_start_def free elim: yieldsE)
  have "migration os failing_system reset_ctrlr_and_ns 4096 ((queued_cache ''f'', 7), At_rest)
      = migration os failing_system reset_ctrlr_and_ns 4096 ((m1, 7), Copying_in ?k e)" for os :: "nat os"
    using migration_go [of failing_system reset_ctrlr_and_ns 4096 "queued_cache ''f''" 7 At_rest "queued_cache ''f''" 7 "Peeked ?k" os]
      migration_go [of failing_system reset_ctrlr_and_ns 4096 "queued_cache ''f''" 7 "Peeked ?k" m1 7 "Copying_in ?k e" os]
      peak_phase [OF v(1), of Idle] rest v(4) m1 by (simp add: ended_in_def stage_inv_def)
  then have cut: "migration cutting_os failing_system reset_ctrlr_and_ns 4096 ((queued_cache ''f'', 7), At_rest)
      = Some ((m1, 8), Copying_in ?k e)"
    by (simp add: migration.simps [of cutting_os] ended_in_def cut_at)
  have ask: "fst (sys_testcancel ready_os w)" "fst (sys_testcancel cutting_os w)" for w
    by (simp_all add: ready_os_def cutting_os_def)
  note ends = migration_thread_ends [OF v(1-3) failing_system_responsive]
  obtain m' w' st where "migration ready_os failing_system reset_ctrlr_and_ns 4096 ((queued_cache ''f'', 7), At_rest) = Some ((m', w'), st)"
    "st = At_rest \<and> wq_keys (wq m') = [] \<or> (\<exists>w. sys_cut ready_os w \<noteq> None)"
    using ends [OF ask(1), of reset_ctrlr_and_ns 4096 7] by blast
  then have first: "\<exists>m' w'. migration ready_os failing_system reset_ctrlr_and_ns 4096 ((queued_cache ''f'', 7), At_rest) = Some ((m', w'), At_rest)
     \<and> wq_keys (wq m') = []" by (auto simp: ready_os_def)
  from ends [OF ask(2), of reset_ctrlr_and_ns 4096 7] cut have "pending (ents m1 e) \<and> wq_keys (wq m1) \<noteq> []" by auto
  with first cut show ?thesis by blast
qed

end
