(* ===== verification/Lru.thy ===== *)
theory Lru
  imports Prelude
begin

text \<open>
  The pages of the page cache, from \<^verbatim>\<open>page-cache/src/lru.c\<close>: the list of the pages in use, most recently
  used first, and the hash table that finds a page by file name and index. Pages are the elements of the
  array \<open>mem_map\<close>, a pointer to a page is its index, NULL is \<^const>\<open>None\<close>. The entries of the hash table
  live on a heap as the requests of \<^verbatim>\<open>Pio\<close> do; \<open>malloc\<close> is a parameter. A call that dereferences NULL, or
  ends the process by \<open>exit\<close>, has the result \<^const>\<open>None\<close>. The names of files are taken to stay as they are
  while their pages are cached, although the code keeps pointers to the caller's strings.
\<close>

unbundle bit_operations_syntax

section \<open>State\<close>

definition CACHE_SIZE :: nat where "CACHE_SIZE = 131072"

definition PG_dirty :: u32 where "PG_dirty = 0x02"
definition PG_lru :: u32 where "PG_lru = 0x04"

record page =
  pg_flag :: u32
  pg_path :: "path option"
  pg_index :: u32
  pg_prev :: "nat option"
  pg_next :: "nat option"

record hash_entry =
  he_path :: "path option"
  he_index :: u32
  he_page :: nat
  he_next :: u64

record page_lists =
  mem_map :: "nat \<Rightarrow> page"
  lru_head :: "nat option"
  lru_tail :: "nat option"
  free_head :: "nat option"
  nr_free :: int
  hash_tbl :: "u32 \<Rightarrow> u64"
  hash_heap :: "u64 \<Rightarrow> hash_entry option"

definition upd_page :: "nat \<Rightarrow> (page \<Rightarrow> page) \<Rightarrow> page_lists \<Rightarrow> page_lists" where
  "upd_page i f s = s\<lparr>mem_map := (mem_map s)(i := f (mem_map s i))\<rparr>"

section \<open>The hash table\<close>

definition hash_function :: "path \<Rightarrow> u32 \<Rightarrow> u32" where
  "hash_function path_name i =
     (let hash = foldl (\<lambda>hash c. hash * 31 + char_u32 c) 0 path_name; hash = hash + i in hash mod of_nat CACHE_SIZE)"

partial_function (option) find_entry :: "(u64 \<Rightarrow> hash_entry option) \<Rightarrow> path \<Rightarrow> u32 \<Rightarrow> u64 \<Rightarrow> u64 option" where
  "find_entry h path_name i entry =
     (if entry = 0 then Some 0
      else do {
        e \<leftarrow> h entry;
        name \<leftarrow> he_path e;
        if strcmp_eq name path_name \<and> he_index e = i then Some entry
        else find_entry h path_name i (he_next e) })"

definition hash_table_lookup :: "page_lists \<Rightarrow> path \<Rightarrow> u32 \<Rightarrow> u64 option" where
  "hash_table_lookup s path_name i = find_entry (hash_heap s) path_name i (hash_tbl s (hash_function path_name i))"

definition hash_table_insert :: "((u64 \<Rightarrow> hash_entry option) \<Rightarrow> u64) \<Rightarrow> nat \<Rightarrow> page_lists \<Rightarrow> page_lists option" where
  "hash_table_insert malloc pg s = do {
     path_name \<leftarrow> pg_path (mem_map s pg);
     let hash_index = hash_function path_name (pg_index (mem_map s pg));
     let new_entry = malloc (hash_heap s);
     let e = \<lparr>he_path = pg_path (mem_map s pg), he_index = pg_index (mem_map s pg), he_page = pg, he_next = 0\<rparr>;
     if new_entry = 0 then None
     else if hash_tbl s hash_index = 0
     then Some (s\<lparr>hash_heap := (hash_heap s)(new_entry \<mapsto> e), hash_tbl := (hash_tbl s)(hash_index := new_entry)\<rparr>)
     else Some (s\<lparr>hash_heap := (hash_heap s)(new_entry \<mapsto> e\<lparr>he_next := hash_tbl s hash_index\<rparr>),
                  hash_tbl := (hash_tbl s)(hash_index := new_entry)\<rparr>) }"

text \<open>The loop of \<open>hash_table_remove\<close>, with the entry before the current one.\<close>

partial_function (option) unlink_entry :: "path \<Rightarrow> u32 \<Rightarrow> u32 \<Rightarrow> u64 \<Rightarrow> u64 \<Rightarrow> page_lists \<Rightarrow> (page_lists \<times> bool) option" where
  "unlink_entry path_name i hash_index prev current s =
     (if current = 0 then Some (s, False)
      else do {
        e \<leftarrow> hash_heap s current;
        name \<leftarrow> he_path e;
        if strcmp_eq name path_name \<and> he_index e = i then do {
          s \<leftarrow> (if prev = 0 then Some (s\<lparr>hash_tbl := (hash_tbl s)(hash_index := he_next e)\<rparr>)
                else do {
                  before \<leftarrow> hash_heap s prev;
                  Some (s\<lparr>hash_heap := (hash_heap s)(prev \<mapsto> before\<lparr>he_next := he_next e\<rparr>)\<rparr>) });
          Some (s\<lparr>hash_heap := (hash_heap s)(current := None)\<rparr>, True) }
        else unlink_entry path_name i hash_index current (he_next e) s })"

definition hash_table_remove :: "nat \<Rightarrow> page_lists \<Rightarrow> (page_lists \<times> int) option" where
  "hash_table_remove pg s = do {
     path_name \<leftarrow> pg_path (mem_map s pg);
     let hash_index = hash_function path_name (pg_index (mem_map s pg));
     (s, find) \<leftarrow> unlink_entry path_name (pg_index (mem_map s pg)) hash_index 0 (hash_tbl s hash_index) s;
     Some (s, if \<not> find then 1 else 0) }"

section \<open>The list of pages in use\<close>

definition add_to_lru_head :: "((u64 \<Rightarrow> hash_entry option) \<Rightarrow> u64) \<Rightarrow> nat \<Rightarrow> page_lists \<Rightarrow> page_lists option" where
  "add_to_lru_head malloc pg s =
     (let s = upd_page pg (\<lambda>p. p\<lparr>pg_flag := pg_flag p OR PG_lru\<rparr>) s;
          s = (case lru_head s of Some h \<Rightarrow> upd_page h (\<lambda>p. p\<lparr>pg_prev := Some pg\<rparr>) s | None \<Rightarrow> s);
          s = upd_page pg (\<lambda>p. p\<lparr>pg_next := lru_head s\<rparr>) s;
          s = s\<lparr>lru_head := Some pg\<rparr>;
          s = (if lru_tail s = None then s\<lparr>lru_tail := Some pg\<rparr> else s)
      in hash_table_insert malloc pg s)"

definition move_to_lru_head :: "nat \<Rightarrow> page_lists \<Rightarrow> page_lists" where
  "move_to_lru_head pg s =
     (case pg_prev (mem_map s pg) of
        None \<Rightarrow> s
      | Some before \<Rightarrow>
          let s = upd_page before (\<lambda>p. p\<lparr>pg_next := pg_next (mem_map s pg)\<rparr>) s;
              s = (case pg_next (mem_map s pg) of
                     Some after \<Rightarrow> upd_page after (\<lambda>p. p\<lparr>pg_prev := pg_prev (mem_map s pg)\<rparr>) s
                   | None \<Rightarrow> s\<lparr>lru_tail := pg_prev (mem_map s pg)\<rparr>);
              s = upd_page pg (\<lambda>p. p\<lparr>pg_prev := None\<rparr>) s;
              s = upd_page pg (\<lambda>p. p\<lparr>pg_next := lru_head s\<rparr>) s
          in s\<lparr>lru_head := Some pg\<rparr>)"

definition remove_from_lru :: "nat \<Rightarrow> page_lists \<Rightarrow> (page_lists \<times> int) option" where
  "remove_from_lru pg s = do {
     (s, rc) \<leftarrow> hash_table_remove pg s;
     if rc = 1 then None
     else
       let s = (case pg_prev (mem_map s pg) of
                  Some before \<Rightarrow> upd_page before (\<lambda>p. p\<lparr>pg_next := pg_next (mem_map s pg)\<rparr>) s
                | None \<Rightarrow> s\<lparr>lru_head := pg_next (mem_map s pg)\<rparr>);
           s = (case pg_next (mem_map s pg) of
                  Some after \<Rightarrow> upd_page after (\<lambda>p. p\<lparr>pg_prev := pg_prev (mem_map s pg)\<rparr>) s
                | None \<Rightarrow> s\<lparr>lru_tail := pg_prev (mem_map s pg)\<rparr>);
           s = upd_page pg (\<lambda>p. p\<lparr>pg_next := free_head s\<rparr>) s;
           s = s\<lparr>free_head := Some pg\<rparr>;
           s = upd_page pg (\<lambda>p. p\<lparr>pg_path := None, pg_index := 0, pg_flag := 0, pg_prev := None\<rparr>) s
       in Some (s\<lparr>nr_free := nr_free s + 1\<rparr>, 0) }"

section \<open>Chains of entries\<close>

fun entry_chain :: "(u64 \<Rightarrow> hash_entry option) \<Rightarrow> u64 \<Rightarrow> (u64 \<times> hash_entry) list \<Rightarrow> bool" where
  "entry_chain h p [] \<longleftrightarrow> p = 0"
| "entry_chain h p ((a, e) # es) \<longleftrightarrow>
     p = a \<and> a \<noteq> 0 \<and> h a = Some e \<and> he_path e \<noteq> None \<and> a \<notin> fst ` set es \<and> entry_chain h (he_next e) es"

definition he_key :: "hash_entry \<Rightarrow> key" where
  "he_key e = (the (he_path e), he_index e)"

lemma entry_chain_dom: "entry_chain h p es \<Longrightarrow> (a, e) \<in> set es \<Longrightarrow> h a = Some e"
  by (induction h p es rule: entry_chain.induct) auto

lemma entry_chain_addr: "entry_chain h p es \<Longrightarrow> a \<in> fst ` set es \<Longrightarrow> h a \<noteq> None"
  using entry_chain_dom by fastforce

lemma entry_chain_nonzero: "entry_chain h p es \<Longrightarrow> x \<in> set es \<Longrightarrow> fst x \<noteq> 0"
  by (induction h p es rule: entry_chain.induct) auto

lemma entry_chain_cong: "entry_chain h p es \<Longrightarrow> (\<And>a. a \<in> fst ` set es \<Longrightarrow> h' a = h a) \<Longrightarrow> entry_chain h' p es"
  by (induction h p es rule: entry_chain.induct) auto

lemma entry_chain_fresh: "entry_chain h p es \<Longrightarrow> a \<notin> fst ` set es \<Longrightarrow> entry_chain (h(a := x)) p es"
  by (erule entry_chain_cong) (metis fun_upd_other)

text \<open>Pages by key: those of the entries in the key's bucket that carry the key, newest first.\<close>

definition pages_of :: "(u64 \<times> hash_entry) list \<Rightarrow> key \<Rightarrow> nat list" where
  "pages_of es k = map (he_page \<circ> snd) (filter (\<lambda>x. he_key (snd x) = k) es)"

lemma find_entry_chain:
  "entry_chain h p es \<Longrightarrow> find_entry h name i p = Some (case filter (\<lambda>x. he_key (snd x) = (name, i)) es of
     [] \<Rightarrow> 0 | x # _ \<Rightarrow> fst x)"
proof (induction h p es rule: entry_chain.induct)
  case (2 h p a e es)
  then show ?case by (auto simp: find_entry.simps [of h _ _ a] he_key_def strcmp_eq_def)
qed (simp add: find_entry.simps)

lemma unlink_entry_none:
  "entry_chain (hash_heap s) p es \<Longrightarrow> filter (\<lambda>x. he_key (snd x) = (name, i)) es = []
    \<Longrightarrow> unlink_entry name i hx prev p s = Some (s, False)"
proof (induction "hash_heap s" p es arbitrary: prev rule: entry_chain.induct)
  case (2 p a e es)
  then show ?case by (auto simp: unlink_entry.simps [of _ _ _ _ a] he_key_def strcmp_eq_def split: if_splits)
qed (simp add: unlink_entry.simps)

text \<open>Removal in the middle of a chain: the entry before it is \<open>(q, e0)\<close>.\<close>

lemma unlink_entry_inner:
  assumes "entry_chain (hash_heap s) q ((q, e0) # es1 @ (a, e) # es2)"
    and "filter (\<lambda>x. he_key (snd x) = (name, i)) es1 = []" and "he_key e = (name, i)"
  shows "\<exists>h es'. unlink_entry name i hx q (he_next e0) s = Some (s\<lparr>hash_heap := h\<rparr>, True)
    \<and> entry_chain h q es' \<and> map (he_key \<circ> snd) es' = map (he_key \<circ> snd) ((q, e0) # es1 @ es2)
    \<and> map (he_page \<circ> snd) es' = map (he_page \<circ> snd) ((q, e0) # es1 @ es2)
    \<and> map fst es' = map fst ((q, e0) # es1 @ es2)
    \<and> (\<forall>b. b \<notin> fst ` set ((q, e0) # es1 @ (a, e) # es2) \<longrightarrow> h b = hash_heap s b)"
  using assms
proof (induction es1 arbitrary: q e0)
  case Nil
  define h where "h = (hash_heap s)(q \<mapsto> e0\<lparr>he_next := he_next e\<rparr>, a := None)"
  have "unlink_entry name i hx q a s = Some (s\<lparr>hash_heap := h\<rparr>, True)"
    using Nil by (auto simp: h_def unlink_entry.simps [of _ _ _ _ a] he_key_def strcmp_eq_def)
  moreover have "entry_chain h q ((q, e0\<lparr>he_next := he_next e\<rparr>) # es2)"
  proof -
    have facts: "entry_chain (hash_heap s) (he_next e) es2" "q \<notin> fst ` set es2" "a \<notin> fst ` set es2" "q \<noteq> a" "q \<noteq> 0" "he_path e0 \<noteq> None"
      using Nil.prems(1) by auto
    have same: "h b = hash_heap s b" if "b \<in> fst ` set es2" for b
    proof -
      have "b \<noteq> q" "b \<noteq> a" using that facts(2,3) by blast+
      then show ?thesis by (simp add: h_def)
    qed
    have "entry_chain h (he_next e) es2" by (rule entry_chain_cong [OF facts(1)]) (rule same)
    with facts show ?thesis by (simp add: h_def)
  qed
  moreover have "\<forall>b. b \<notin> {q, a} \<longrightarrow> h b = hash_heap s b" by (simp add: h_def)
  moreover have "he_next e0 = a" using Nil.prems(1) by simp
  ultimately show ?case
    by (intro exI [of _ h] exI [of _ "(q, e0\<lparr>he_next := he_next e\<rparr>) # es2"]) (simp add: he_key_def)
next
  case (Cons x es1)
  obtain b f where x: "x = (b, f)" by fastforce
  have tail: "entry_chain (hash_heap s) b ((b, f) # es1 @ (a, e) # es2)" using Cons.prems(1) x by auto
  have "filter (\<lambda>x. he_key (snd x) = (name, i)) es1 = []" using Cons.prems(2) by (simp split: if_splits)
  from Cons.IH [OF tail this Cons.prems(3)] obtain h es' where
    IH: "unlink_entry name i hx b (he_next f) s = Some (s\<lparr>hash_heap := h\<rparr>, True)" "entry_chain h b es'"
      "map (he_key \<circ> snd) es' = map (he_key \<circ> snd) ((b, f) # es1 @ es2)"
      "map (he_page \<circ> snd) es' = map (he_page \<circ> snd) ((b, f) # es1 @ es2)"
      "map fst es' = map fst ((b, f) # es1 @ es2)"
      "\<forall>c. c \<notin> fst ` set ((b, f) # es1 @ (a, e) # es2) \<longrightarrow> h c = hash_heap s c" by blast
  have step: "unlink_entry name i hx q (he_next e0) s = Some (s\<lparr>hash_heap := h\<rparr>, True)"
    using Cons.prems IH(1) x by (auto simp: unlink_entry.simps [of _ _ _ q b] he_key_def strcmp_eq_def split: if_splits)
  have q: "q \<noteq> 0" "hash_heap s q = Some e0" "he_path e0 \<noteq> None" "he_next e0 = b"
      "q \<notin> fst ` set ((b, f) # es1 @ (a, e) # es2)" using Cons.prems(1) x by auto
  have "set (map fst es') \<subseteq> fst ` set ((b, f) # es1 @ (a, e) # es2)" unfolding IH(5) by auto
  then have "q \<notin> fst ` set es'" using q(5) by auto
  then have "entry_chain h q ((q, e0) # es')" using q IH(2,6) by auto
  with step IH q x show ?case
    by (intro exI [of _ h] exI [of _ "(q, e0) # es'"]) (auto simp: comp_def)
qed

section \<open>The table\<close>

text \<open>
  The table represents a sequence of entries for every bucket: the buckets do not share entries, and an
  entry is in the bucket of its key.
\<close>

definition bucket :: "key \<Rightarrow> u32" where
  "bucket k = hash_function (fst k) (snd k)"

definition table_rep :: "page_lists \<Rightarrow> (u32 \<Rightarrow> (u64 \<times> hash_entry) list) \<Rightarrow> bool" where
  "table_rep s B \<longleftrightarrow> (\<forall>b. entry_chain (hash_heap s) (hash_tbl s b) (B b))
     \<and> (\<forall>b c. b \<noteq> c \<longrightarrow> fst ` set (B b) \<inter> fst ` set (B c) = {})
     \<and> (\<forall>b. \<forall>x \<in> set (B b). bucket (he_key (snd x)) = b)"

text \<open>What the table stands for: the cached pages of every key, the one found by a lookup first.\<close>

definition table_maps :: "page_lists \<Rightarrow> (key \<Rightarrow> nat list) \<Rightarrow> bool" where
  "table_maps s T \<longleftrightarrow> (\<exists>B. table_rep s B \<and> (\<forall>k. T k = pages_of (B (bucket k)) k))"

lemma pages_of_other_bucket:
  "\<forall>x \<in> set es. bucket (he_key (snd x)) = b \<Longrightarrow> bucket k \<noteq> b \<Longrightarrow> pages_of es k = []"
  by (auto simp: pages_of_def filter_empty_conv)

lemma pages_of_map_cong:
  "map (he_key \<circ> snd) es = map (he_key \<circ> snd) es' \<Longrightarrow> map (he_page \<circ> snd) es = map (he_page \<circ> snd) es'
    \<Longrightarrow> pages_of es k = pages_of es' k"
proof (induction es arbitrary: es')
  case (Cons x es)
  then obtain y ys where "es' = y # ys" by (cases es') auto
  with Cons show ?case by (auto simp: pages_of_def)
qed (simp add: pages_of_def)

lemma table_maps_update:
  assumes rep: "table_rep s B" and T: "\<forall>k. T k = pages_of (B (bucket k)) k"
    and heap: "\<And>c d. c \<noteq> b \<Longrightarrow> d \<in> fst ` set (B c) \<Longrightarrow> hash_heap s' d = hash_heap s d"
    and tbl: "\<And>c. c \<noteq> b \<Longrightarrow> hash_tbl s' c = hash_tbl s c"
    and entry_chain: "entry_chain (hash_heap s') (hash_tbl s' b) es"
    and own: "\<And>c. c \<noteq> b \<Longrightarrow> fst ` set es \<inter> fst ` set (B c) = {}"
    and keys: "\<And>x. x \<in> set es \<Longrightarrow> bucket (he_key (snd x)) = b"
    and T': "\<And>k. bucket k = b \<Longrightarrow> T' k = pages_of es k" "\<And>k. bucket k \<noteq> b \<Longrightarrow> T' k = T k"
  shows "table_maps s' T'"
proof -
  have "entry_chain (hash_heap s') (hash_tbl s' c) ((B(b := es)) c)" for c
    using rep entry_chain tbl [of c] heap [of c] by (cases "c = b") (auto simp: table_rep_def intro: entry_chain_cong)
  moreover have "fst ` set ((B(b := es)) c) \<inter> fst ` set ((B(b := es)) d) = {}" if "c \<noteq> d" for c d
    using that rep own [of c] own [of d] by (auto simp: table_rep_def)
  moreover have "bucket (he_key (snd x)) = c" if "x \<in> set ((B(b := es)) c)" for c x
    using that rep keys by (auto simp: table_rep_def split: if_splits)
  ultimately have "table_rep s' (B(b := es))" unfolding table_rep_def by blast
  moreover have "T' k = pages_of ((B(b := es)) (bucket k)) k" for k
    using T [rule_format, of k] T' [of k] by (cases "bucket k = b") simp_all
  ultimately show ?thesis unfolding table_maps_def by blast
qed

lemma lookup_maps:
  assumes "table_maps s T"
  shows "\<exists>entry. hash_table_lookup s name i = Some entry \<and>
    (case T (name, i) of [] \<Rightarrow> entry = 0
     | pg # _ \<Rightarrow> entry \<noteq> 0 \<and> (\<exists>e. hash_heap s entry = Some e \<and> he_page e = pg))"
proof -
  obtain B where rep: "table_rep s B" and T: "T (name, i) = pages_of (B (bucket (name, i))) (name, i)"
    using assms by (auto simp: table_maps_def)
  let ?es = "B (bucket (name, i))"
  let ?f = "filter (\<lambda>x. he_key (snd x) = (name, i)) ?es"
  have entry_chain: "entry_chain (hash_heap s) (hash_tbl s (hash_function name i)) ?es"
    using rep by (auto simp: table_rep_def bucket_def)
  show ?thesis
  proof (cases ?f)
    case Nil
    with find_entry_chain [OF entry_chain] T show ?thesis
      by (simp add: hash_table_lookup_def pages_of_def)
  next
    case (Cons x xs)
    then have "x \<in> set ?es" using filter_is_subset [of "\<lambda>x. he_key (snd x) = (name, i)" ?es] by auto
    then have "hash_heap s (fst x) = Some (snd x)" "fst x \<noteq> 0"
      using entry_chain_dom [OF entry_chain, of "fst x" "snd x"] entry_chain by (auto dest: entry_chain_nonzero)
    with find_entry_chain [OF entry_chain, of name i] T Cons show ?thesis
      by (simp add: hash_table_lookup_def pages_of_def)
  qed
qed

lemma insert_maps:
  assumes maps: "table_maps s T" and name: "pg_path (mem_map s pg) = Some name"
    and fresh: "malloc (hash_heap s) \<noteq> 0" "hash_heap s (malloc (hash_heap s)) = None"
  obtains h t where "hash_table_insert malloc pg s = Some (s\<lparr>hash_heap := h, hash_tbl := t\<rparr>)"
    "table_maps (s\<lparr>hash_heap := h, hash_tbl := t\<rparr>)
      (T((name, pg_index (mem_map s pg)) := pg # T (name, pg_index (mem_map s pg))))"
proof -
  obtain B where rep: "table_rep s B" and T: "\<forall>k. T k = pages_of (B (bucket k)) k"
    using maps by (auto simp: table_maps_def)
  let ?k = "(name, pg_index (mem_map s pg))"
  let ?b = "bucket ?k"
  let ?a = "malloc (hash_heap s)"
  let ?e = "\<lparr>he_path = Some name, he_index = pg_index (mem_map s pg), he_page = pg, he_next = hash_tbl s ?b\<rparr>"
  let ?s = "s\<lparr>hash_heap := (hash_heap s)(?a \<mapsto> ?e), hash_tbl := (hash_tbl s)(?b := ?a)\<rparr>"
  have chains: "entry_chain (hash_heap s) (hash_tbl s c) (B c)" for c using rep by (simp add: table_rep_def)
  have new: "?a \<notin> fst ` set (B c)" for c using entry_chain_addr [OF chains] fresh(2) by blast
  have "hash_table_insert malloc pg s = Some ?s"
    using name fresh(1) by (simp add: hash_table_insert_def bucket_def Let_def)
  moreover have "table_maps ?s (T(?k := pg # T ?k))"
  proof (rule table_maps_update [OF rep T, where b = ?b and es = "(?a, ?e) # B ?b"])
    have "entry_chain (hash_heap ?s) (hash_tbl s ?b) (B ?b)"
      using entry_chain_fresh [OF chains new] by simp
    then show "entry_chain (hash_heap ?s) (hash_tbl ?s ?b) ((?a, ?e) # B ?b)" using fresh(1) new by simp
    show "fst ` set ((?a, ?e) # B ?b) \<inter> fst ` set (B c) = {}" if "c \<noteq> ?b" for c
      using new that rep by (auto simp: table_rep_def)
    show "bucket (he_key (snd x)) = ?b" if "x \<in> set ((?a, ?e) # B ?b)" for x
      using that rep by (auto simp: table_rep_def he_key_def)
    show "(T(?k := pg # T ?k)) k = pages_of ((?a, ?e) # B ?b) k" if "bucket k = ?b" for k
      using T [rule_format, of k] that by (auto simp: pages_of_def he_key_def)
    show "hash_heap ?s d = hash_heap s d" if "c \<noteq> ?b" "d \<in> fst ` set (B c)" for c d
      using that new [of c] by (cases "d = ?a") auto
  qed auto
  ultimately show ?thesis by (rule that)
qed

text \<open>Removal of the first entry with a key from a entry_chain.\<close>

lemma unlink_entry_first:
  assumes ch: "entry_chain (hash_heap s) p (es1 @ (a, e) # es2)" and p: "p = hash_tbl s hx"
    and first: "filter (\<lambda>x. he_key (snd x) = (name, i)) es1 = []" and e: "he_key e = (name, i)"
  obtains h t es' where "unlink_entry name i hx 0 p s = Some (s\<lparr>hash_heap := h, hash_tbl := (hash_tbl s)(hx := t)\<rparr>, True)"
    "entry_chain h t es'" "map (he_key \<circ> snd) es' = map (he_key \<circ> snd) (es1 @ es2)"
    "map (he_page \<circ> snd) es' = map (he_page \<circ> snd) (es1 @ es2)" "map fst es' = map fst (es1 @ es2)"
    "\<forall>b. b \<notin> fst ` set (es1 @ (a, e) # es2) \<longrightarrow> h b = hash_heap s b"
proof (cases es1)
  case Nil
  have facts: "p = a" "a \<noteq> 0" "hash_heap s a = Some e" "he_path e \<noteq> None" "a \<notin> fst ` set es2"
      "entry_chain (hash_heap s) (he_next e) es2"
    using ch Nil by auto
  define h where "h = (hash_heap s)(a := None)"
  have same: "h b = hash_heap s b" if "b \<in> fst ` set es2" for b using that facts(5) by (auto simp: h_def)
  have unlink: "unlink_entry name i hx 0 p s = Some (s\<lparr>hash_heap := h, hash_tbl := (hash_tbl s)(hx := he_next e)\<rparr>, True)"
    using facts(1-4) e by (auto simp: unlink_entry.simps [of _ _ _ _ a] h_def he_key_def strcmp_eq_def)
  have "entry_chain h (he_next e) es2" by (rule entry_chain_cong [OF facts(6)]) (rule same)
  from that [OF unlink this] show ?thesis by (simp add: Nil h_def)
next
  case (Cons x es)
  obtain q e0 where x: "x = (q, e0)" by fastforce
  have ch': "entry_chain (hash_heap s) q ((q, e0) # es @ (a, e) # es2)" and q: "p = q" "q \<noteq> 0" "hash_heap s q = Some e0" "he_path e0 \<noteq> None"
    using ch Cons x by auto
  have rest: "filter (\<lambda>x. he_key (snd x) = (name, i)) es = []" and other: "he_key e0 \<noteq> (name, i)"
    using first Cons x by (auto split: if_splits)
  from unlink_entry_inner [OF ch' rest e, of hx] obtain h es' where
    inner: "unlink_entry name i hx q (he_next e0) s = Some (s\<lparr>hash_heap := h\<rparr>, True)" "entry_chain h q es'"
      "map (he_key \<circ> snd) es' = map (he_key \<circ> snd) ((q, e0) # es @ es2)"
      "map (he_page \<circ> snd) es' = map (he_page \<circ> snd) ((q, e0) # es @ es2)"
      "map fst es' = map fst ((q, e0) # es @ es2)"
      "\<forall>b. b \<notin> fst ` set ((q, e0) # es @ (a, e) # es2) \<longrightarrow> h b = hash_heap s b" by blast
  have "unlink_entry name i hx 0 p s = unlink_entry name i hx q (he_next e0) s"
    using q other by (auto simp: unlink_entry.simps [of _ _ _ 0 q] he_key_def strcmp_eq_def)
  also have "\<dots> = Some (s\<lparr>hash_heap := h, hash_tbl := (hash_tbl s)(hx := q)\<rparr>, True)"
    using inner(1) p q(1) by (cases s) simp
  finally show ?thesis using that inner(2-) Cons x by auto
qed

lemma map_eq_witness:
  assumes "map f xs = map f ys" and "x \<in> set xs"
  shows "\<exists>y \<in> set ys. f y = f x"
proof -
  have "f x \<in> set (map f ys)" using assms(2) unfolding assms(1) [symmetric] by simp
  then show ?thesis by auto
qed

lemma remove_maps:
  assumes maps: "table_maps s T" and name: "pg_path (mem_map s pg) = Some name"
  shows "T (name, pg_index (mem_map s pg)) = [] \<Longrightarrow> hash_table_remove pg s = Some (s, 1)"
    and "T (name, pg_index (mem_map s pg)) = q # qs \<Longrightarrow> \<exists>h t. hash_table_remove pg s = Some (s\<lparr>hash_heap := h, hash_tbl := t\<rparr>, 0)
      \<and> table_maps (s\<lparr>hash_heap := h, hash_tbl := t\<rparr>) (T((name, pg_index (mem_map s pg)) := qs))"
proof -
  obtain B where rep: "table_rep s B" and T: "\<forall>k. T k = pages_of (B (bucket k)) k"
    using maps by (auto simp: table_maps_def)
  let ?k = "(name, pg_index (mem_map s pg))"
  let ?b = "bucket ?k"
  let ?p = "\<lambda>x. he_key (snd x) = ?k"
  have entry_chain: "entry_chain (hash_heap s) (hash_tbl s ?b) (B ?b)" using rep by (simp add: table_rep_def)
  have b: "hash_function name (pg_index (mem_map s pg)) = ?b" by (simp add: bucket_def)
  show "hash_table_remove pg s = Some (s, 1)" if "T ?k = []"
  proof -
    have "filter ?p (B ?b) = []" using T [rule_format, of ?k] that by (simp add: pages_of_def)
    from unlink_entry_none [OF entry_chain this] show ?thesis by (simp add: hash_table_remove_def name b Let_def)
  qed
  show "\<exists>h t. hash_table_remove pg s = Some (s\<lparr>hash_heap := h, hash_tbl := t\<rparr>, 0)
      \<and> table_maps (s\<lparr>hash_heap := h, hash_tbl := t\<rparr>) (T(?k := qs))" if "T ?k = q # qs"
  proof -
    obtain x xs where "filter ?p (B ?b) = x # xs" "map (he_page \<circ> snd) xs = qs"
    proof (cases "filter ?p (B ?b)")
      case Nil
      then show ?thesis using T [rule_format, of ?k] \<open>T ?k = q # qs\<close> by (simp add: pages_of_def)
    next
      case (Cons x xs)
      then show ?thesis using T [rule_format, of ?k] \<open>T ?k = q # qs\<close> that by (simp add: pages_of_def)
    qed
    then obtain es1 es2 where split: "B ?b = es1 @ x # es2" "\<forall>y \<in> set es1. \<not> ?p y" "?p x" "filter ?p es2 = xs"
      "map (he_page \<circ> snd) (filter ?p es2) = qs"
      unfolding filter_eq_Cons_iff by blast
    obtain a e where x: "x = (a, e)" by fastforce
    have first: "filter (\<lambda>x. he_key (snd x) = ?k) es1 = []" using split(2) by (simp add: filter_empty_conv)
    have e: "he_key e = ?k" using split(3) x by simp
    have ch: "entry_chain (hash_heap s) (hash_tbl s ?b) (es1 @ (a, e) # es2)" using entry_chain split(1) x by simp
    obtain h t es' where un: "unlink_entry name (pg_index (mem_map s pg)) ?b 0 (hash_tbl s ?b) s
        = Some (s\<lparr>hash_heap := h, hash_tbl := (hash_tbl s)(?b := t)\<rparr>, True)"
      "entry_chain h t es'" "map (he_key \<circ> snd) es' = map (he_key \<circ> snd) (es1 @ es2)"
      "map (he_page \<circ> snd) es' = map (he_page \<circ> snd) (es1 @ es2)" "map fst es' = map fst (es1 @ es2)"
      "\<forall>b. b \<notin> fst ` set (es1 @ (a, e) # es2) \<longrightarrow> h b = hash_heap s b"
      by (rule unlink_entry_first [OF ch refl first e]) (rule that)
    let ?s = "s\<lparr>hash_heap := h, hash_tbl := (hash_tbl s)(?b := t)\<rparr>"
    have addr: "fst ` set es' \<subseteq> fst ` set (B ?b)"
      using arg_cong [OF un(5), of set] split(1) x by auto
    have keys: "bucket (he_key (snd y)) = ?b" if y: "y \<in> set es'" for y
    proof -
      obtain z where "z \<in> set (es1 @ es2)" "he_key (snd z) = he_key (snd y)"
        using map_eq_witness [OF un(3) y] by auto
      moreover have "bucket (he_key (snd z)) = ?b" if "z \<in> set (B ?b)" for z using rep that by (auto simp: table_rep_def)
      ultimately show ?thesis using split(1) by (metis Un_iff list.set_intros(2) set_append)
    qed
    have "table_maps ?s (T(?k := qs))"
    proof (rule table_maps_update [OF rep T, where b = ?b and es = es'])
      show "entry_chain (hash_heap ?s) (hash_tbl ?s ?b) es'" using un(2) by simp
      show "hash_heap ?s d = hash_heap s d" if "c \<noteq> ?b" "d \<in> fst ` set (B c)" for c d
      proof -
        have "fst ` set (B c) \<inter> fst ` set (B ?b) = {}" using rep that(1) unfolding table_rep_def by blast
        then have "d \<notin> fst ` set (B ?b)" using that(2) by blast
        then show ?thesis using un(6) unfolding split(1) x by simp
      qed
      show "fst ` set es' \<inter> fst ` set (B c) = {}" if "c \<noteq> ?b" for c
      proof -
        have "fst ` set (B ?b) \<inter> fst ` set (B c) = {}" using rep that unfolding table_rep_def by metis
        then show ?thesis using addr by blast
      qed
      show "(T(?k := qs)) k = pages_of es' k" if "bucket k = ?b" for k
      proof (cases "k = ?k")
        case True
        then show ?thesis
          using pages_of_map_cong [OF un(3,4), of k] first split(5) by (simp add: pages_of_def)
      next
        case False
        then show ?thesis
          using pages_of_map_cong [OF un(3,4), of k] T [rule_format, of k] that split(1,3) by (simp add: pages_of_def)
      qed
    qed (use keys in auto)
    then show ?thesis using un(1) by (auto simp: hash_table_remove_def name b Let_def)
  qed
qed

end
