(* ===== verification/LruProps.thy ===== *)
theory LruProps
  imports Lru
begin

text \<open>
  What the operations of \<^verbatim>\<open>Lru\<close> do to the list of pages in use, to the list of free pages and to the
  hash table together: a pool of pages with one page per key stays one under insertion and removal. The
  last part shows where the code leaves it: moving a page to the front, and a second page of a key.
\<close>

section \<open>Linked pages\<close>

text \<open>The pages from a pointer on, with the pointer before the first and those after the last one.\<close>

fun dseg :: "(nat \<Rightarrow> page) \<Rightarrow> nat option \<Rightarrow> nat option \<Rightarrow> nat list \<Rightarrow> nat option \<Rightarrow> nat option \<Rightarrow> bool" where
  "dseg m q p [] q' p' \<longleftrightarrow> q' = q \<and> p' = p"
| "dseg m q p (x # xs) q' p' \<longleftrightarrow> p = Some x \<and> pg_prev (m x) = q \<and> dseg m (Some x) (pg_next (m x)) xs q' p'"

fun nexts :: "(nat \<Rightarrow> page) \<Rightarrow> nat option \<Rightarrow> nat list \<Rightarrow> bool" where
  "nexts m p [] \<longleftrightarrow> p = None"
| "nexts m p (x # xs) \<longleftrightarrow> p = Some x \<and> nexts m (pg_next (m x)) xs"

definition lru_list :: "page_lists \<Rightarrow> nat list \<Rightarrow> bool" where
  "lru_list s ps \<longleftrightarrow> distinct ps \<and> dseg (mem_map s) None (lru_head s) ps (lru_tail s) None"

lemma dseg_append:
  "dseg m q p (xs @ ys) q' p' \<longleftrightarrow> (\<exists>q1 p1. dseg m q p xs q1 p1 \<and> dseg m q1 p1 ys q' p')"
  by (induction xs arbitrary: q p) auto

lemma dseg_last: "dseg m q p xs q' p' \<Longrightarrow> q' = (if xs = [] then q else Some (last xs))"
  by (induction m q p xs q' p' rule: dseg.induct) auto

lemma dseg_first: "dseg m q p xs q' p' \<Longrightarrow> p = (if xs = [] then p' else Some (hd xs))"
  by (cases xs) auto

lemma dseg_cong:
  "dseg m q p xs q' p' \<Longrightarrow> (\<And>x. x \<in> set xs \<Longrightarrow> pg_prev (m' x) = pg_prev (m x) \<and> pg_next (m' x) = pg_next (m x))
    \<Longrightarrow> dseg m' q p xs q' p'"
  by (induction m q p xs q' p' rule: dseg.induct) auto

lemma dseg_nexts: "dseg m q p xs q' None \<Longrightarrow> nexts m p xs"
  by (induction xs arbitrary: q p) auto

lemma nexts_cong: "nexts m p xs \<Longrightarrow> (\<And>x. x \<in> set xs \<Longrightarrow> pg_next (m' x) = pg_next (m x)) \<Longrightarrow> nexts m' p xs"
  by (induction m p xs rule: nexts.induct) auto

lemma nexts_unique: "nexts m p xs \<Longrightarrow> nexts m p ys \<Longrightarrow> xs = ys"
proof (induction m p xs arbitrary: ys rule: nexts.induct)
  case (1 m p ys)
  then show ?case by (cases ys) auto
next
  case (2 m p x xs ys)
  then show ?case by (cases ys) auto
qed

text \<open>A changed back link of the first page.\<close>

lemma dseg_relink_prev:
  assumes "dseg m q p (x # xs) q' p'" and "x \<notin> set xs"
  shows "dseg (m(x := (m x)\<lparr>pg_prev := r\<rparr>)) r p (x # xs) q' p'"
  using assms by (auto intro: dseg_cong)

text \<open>A changed forward link of the last page.\<close>

lemma dseg_relink_next:
  assumes "dseg m q p (xs @ [x]) q' p'" and "x \<notin> set xs"
  shows "dseg (m(x := (m x)\<lparr>pg_next := r\<rparr>)) q p (xs @ [x]) (Some x) r"
proof -
  obtain q1 p1 where seg: "dseg m q p xs q1 p1" "dseg m q1 p1 [x] q' p'"
    using assms(1) by (auto simp: dseg_append)
  have "dseg (m(x := (m x)\<lparr>pg_next := r\<rparr>)) q p xs q1 p1"
    using assms(2) by (intro dseg_cong [OF seg(1)]) auto
  moreover have "dseg (m(x := (m x)\<lparr>pg_next := r\<rparr>)) q1 p1 [x] (Some x) r" using seg(2) by simp
  ultimately show ?thesis unfolding dseg_append by blast
qed

section \<open>Linking and unlinking\<close>

definition link_head :: "nat \<Rightarrow> page_lists \<Rightarrow> page_lists" where
  "link_head pg s =
     (let s = upd_page pg (\<lambda>p. p\<lparr>pg_flag := pg_flag p OR PG_lru\<rparr>) s;
          s = (case lru_head s of Some h \<Rightarrow> upd_page h (\<lambda>p. p\<lparr>pg_prev := Some pg\<rparr>) s | None \<Rightarrow> s);
          s = upd_page pg (\<lambda>p. p\<lparr>pg_next := lru_head s\<rparr>) s;
          s = s\<lparr>lru_head := Some pg\<rparr>
      in if lru_tail s = None then s\<lparr>lru_tail := Some pg\<rparr> else s)"

definition unlink_page :: "nat \<Rightarrow> page_lists \<Rightarrow> page_lists" where
  "unlink_page pg s =
     (let s = (case pg_prev (mem_map s pg) of
                 Some before \<Rightarrow> upd_page before (\<lambda>p. p\<lparr>pg_next := pg_next (mem_map s pg)\<rparr>) s
               | None \<Rightarrow> s\<lparr>lru_head := pg_next (mem_map s pg)\<rparr>)
      in case pg_next (mem_map s pg) of
           Some after \<Rightarrow> upd_page after (\<lambda>p. p\<lparr>pg_prev := pg_prev (mem_map s pg)\<rparr>) s
         | None \<Rightarrow> s\<lparr>lru_tail := pg_prev (mem_map s pg)\<rparr>)"

definition put_free :: "nat \<Rightarrow> page_lists \<Rightarrow> page_lists" where
  "put_free pg s =
     (let s = upd_page pg (\<lambda>p. p\<lparr>pg_next := free_head s\<rparr>) s;
          s = s\<lparr>free_head := Some pg\<rparr>;
          s = upd_page pg (\<lambda>p. p\<lparr>pg_path := None, pg_index := 0, pg_flag := 0, pg_prev := None\<rparr>) s
      in s\<lparr>nr_free := nr_free s + 1\<rparr>)"

lemma add_to_lru_head_link: "add_to_lru_head malloc pg s = hash_table_insert malloc pg (link_head pg s)"
  by (simp add: add_to_lru_head_def link_head_def Let_def)

lemma remove_from_lru_unlink:
  "remove_from_lru pg s = do { (s, rc) \<leftarrow> hash_table_remove pg s; if rc = 1 then None else Some (put_free pg (unlink_page pg s), 0) }"
  by (simp add: remove_from_lru_def unlink_page_def put_free_def Let_def cong: if_cong)

lemma upd_page_fields [simp]:
  "mem_map (upd_page i f s) = (mem_map s)(i := f (mem_map s i))"
  "lru_head (upd_page i f s) = lru_head s" "lru_tail (upd_page i f s) = lru_tail s"
  "free_head (upd_page i f s) = free_head s" "nr_free (upd_page i f s) = nr_free s"
  "hash_tbl (upd_page i f s) = hash_tbl s" "hash_heap (upd_page i f s) = hash_heap s"
  by (simp_all add: upd_page_def)

lemma link_head_list:
  assumes "lru_list s ps" and "pg \<notin> set ps" and "pg_prev (mem_map s pg) = None"
  shows "lru_list (link_head pg s) (pg # ps)"
proof (cases ps)
  case Nil
  with assms show ?thesis by (simp add: lru_list_def link_head_def Let_def)
next
  case (Cons x xs)
  have seg: "dseg (mem_map s) None (lru_head s) (x # xs) (lru_tail s) None" and dist: "distinct (x # xs)" "pg \<notin> set (x # xs)"
    using assms(1,2) Cons by (auto simp: lru_list_def)
  have head: "lru_head s = Some x" "lru_tail s \<noteq> None" using seg dseg_last [OF seg] by auto
  have "dseg ((mem_map s)(x := (mem_map s x)\<lparr>pg_prev := Some pg\<rparr>)) (Some pg) (Some x) (x # xs) (lru_tail s) None"
    using dseg_relink_prev [OF seg, of "Some pg"] dist head by simp
  then have "dseg (mem_map (link_head pg s)) (Some pg) (Some x) (x # xs) (lru_tail s) None"
    using dist(2) head by (elim dseg_cong) (auto simp: link_head_def Let_def)
  then show ?thesis
    using assms head Cons dist by (auto simp: lru_list_def link_head_def Let_def)
qed

lemma unlink_page_list:
  assumes "lru_list s (xs @ pg # ys)"
  shows "lru_list (unlink_page pg s) (xs @ ys)"
proof -
  let ?m = "mem_map s"
  obtain q1 where seg: "dseg ?m None (lru_head s) xs q1 (Some pg)" "pg_prev (?m pg) = q1"
      "dseg ?m (Some pg) (pg_next (?m pg)) ys (lru_tail s) None"
    using assms by (auto simp: lru_list_def dseg_append)
  have dist: "distinct (xs @ pg # ys)" using assms by (simp add: lru_list_def)
  have q1: "q1 = (if xs = [] then None else Some (last xs))" using dseg_last [OF seg(1)] .
  have p1: "pg_next (?m pg) = (if ys = [] then None else Some (hd ys))" using dseg_first [OF seg(3)] .
  define m1 where "m1 = (case q1 of None \<Rightarrow> ?m | Some x \<Rightarrow> ?m(x := (?m x)\<lparr>pg_next := pg_next (?m pg)\<rparr>))"
  define hd1 where "hd1 = (case q1 of None \<Rightarrow> pg_next (?m pg) | Some _ \<Rightarrow> lru_head s)"
  have left: "dseg m1 None hd1 xs q1 (pg_next (?m pg))"
  proof (cases xs rule: rev_cases)
    case Nil
    then show ?thesis using q1 by (simp add: hd1_def)
  next
    case (snoc zs z)
    with dseg_relink_next [of ?m None "lru_head s" zs z q1 "Some pg" "pg_next (?m pg)"] seg(1) dist q1 show ?thesis
      by (simp add: hd1_def m1_def)
  qed
  have outside: "pg_prev (m1 y) = pg_prev (?m y) \<and> pg_next (m1 y) = pg_next (?m y)" if "y \<in> set (pg # ys)" for y
    using that dist q1 by (cases xs rule: rev_cases) (auto simp: m1_def)
  have right: "dseg m1 (Some pg) (pg_next (?m pg)) ys (lru_tail s) None"
    by (rule dseg_cong [OF seg(3)]) (use outside in simp)
  show ?thesis
  proof (cases ys)
    case Nil
    then have "unlink_page pg s = s\<lparr>mem_map := m1, lru_head := hd1, lru_tail := q1\<rparr>"
      using p1 seg(2) outside [of pg] by (cases q1) (simp_all add: unlink_page_def m1_def hd1_def upd_page_def Let_def)
    with left Nil p1 dist show ?thesis by (simp add: lru_list_def)
  next
    case (Cons y zs)
    let ?m2 = "m1(y := (m1 y)\<lparr>pg_prev := q1\<rparr>)"
    have next_eq: "pg_next (?m pg) = Some y" using p1 Cons by simp
    have un: "unlink_page pg s = s\<lparr>mem_map := ?m2, lru_head := hd1\<rparr>"
      using next_eq seg(2) outside [of pg] by (cases q1) (simp_all add: unlink_page_def m1_def hd1_def upd_page_def Let_def)
    have "dseg ?m2 q1 (Some y) ys (lru_tail s) None"
      using dseg_relink_prev [of m1 "Some pg" "Some y" y zs "lru_tail s" None q1] right dist Cons next_eq by simp
    moreover have "dseg ?m2 None hd1 xs q1 (Some y)"
      by (rule dseg_cong [OF left [unfolded next_eq]]) (use dist Cons in auto)
    ultimately show ?thesis using dist unfolding un lru_list_def dseg_append by auto
  qed
qed

lemma unlink_page_frame [frames]:
  shows "pg_path (mem_map (unlink_page pg s) i) = pg_path (mem_map s i)"
    and "pg_index (mem_map (unlink_page pg s) i) = pg_index (mem_map s i)"
    and "free_head (unlink_page pg s) = free_head s" and "nr_free (unlink_page pg s) = nr_free s"
    and "hash_tbl (unlink_page pg s) = hash_tbl s" and "hash_heap (unlink_page pg s) = hash_heap s"
  by (auto simp: unlink_page_def Let_def split: option.splits)

lemma unlink_page_outside:
  assumes "lru_list s (xs @ pg # ys)" and "i \<notin> set (xs @ ys)"
  shows "pg_next (mem_map (unlink_page pg s) i) = pg_next (mem_map s i)"
proof -
  obtain q1 where seg: "dseg (mem_map s) None (lru_head s) xs q1 (Some pg)" "pg_prev (mem_map s pg) = q1"
      "dseg (mem_map s) (Some pg) (pg_next (mem_map s pg)) ys (lru_tail s) None"
    using assms(1) by (auto simp: lru_list_def dseg_append)
  then have "pg_prev (mem_map s pg) = (if xs = [] then None else Some (last xs))"
    "pg_next (mem_map s pg) = (if ys = [] then None else Some (hd ys))"
    using dseg_last [OF seg(1)] dseg_first [OF seg(3)] by auto
  then show ?thesis
    using assms(2) by (cases xs rule: rev_cases; cases ys) (simp_all add: unlink_page_def Let_def)
qed

lemma put_free_fields [simp]:
  "hash_tbl (put_free pg s) = hash_tbl s" "hash_heap (put_free pg s) = hash_heap s"
  "nr_free (put_free pg s) = nr_free s + 1" "free_head (put_free pg s) = Some pg"
  "lru_head (put_free pg s) = lru_head s" "lru_tail (put_free pg s) = lru_tail s"
  by (simp_all add: put_free_def Let_def)

lemma put_free_mem:
  "mem_map (put_free pg s) = (mem_map s)(pg := \<lparr>pg_flag = 0, pg_path = None, pg_index = 0, pg_prev = None, pg_next = free_head s\<rparr>)"
  by (cases "mem_map s pg") (simp add: put_free_def Let_def)

lemma link_head_frame [frames]:
  shows "pg_path (mem_map (link_head pg s) i) = pg_path (mem_map s i)"
    and "pg_index (mem_map (link_head pg s) i) = pg_index (mem_map s i)"
    and "free_head (link_head pg s) = free_head s" and "nr_free (link_head pg s) = nr_free s"
    and "hash_tbl (link_head pg s) = hash_tbl s" and "hash_heap (link_head pg s) = hash_heap s"
    and "i \<noteq> pg \<Longrightarrow> pg_next (mem_map (link_head pg s) i) = pg_next (mem_map s i)"
  by (auto simp: link_head_def Let_def split: option.splits)

section \<open>The pool\<close>

definition page_key :: "page_lists \<Rightarrow> nat \<Rightarrow> key" where
  "page_key s p = (the (pg_path (mem_map s p)), pg_index (mem_map s p))"

text \<open>
  The pages in use, most recently used first, and the free ones: every page is at most once in at most one
  of the lists, every page in use has a name, no two have the same key, and the table finds each of them.
\<close>

definition pool :: "page_lists \<Rightarrow> nat list \<Rightarrow> nat list \<Rightarrow> bool" where
  "pool s ps fs \<longleftrightarrow> lru_list s ps \<and> nexts (mem_map s) (free_head s) fs \<and> distinct (ps @ fs)
     \<and> nr_free s = int (length fs) \<and> (\<forall>p \<in> set ps. pg_path (mem_map s p) \<noteq> None)
     \<and> distinct (map (page_key s) ps) \<and> table_maps s (\<lambda>k. filter (\<lambda>p. page_key s p = k) ps)"

lemma table_maps_cong: "table_maps s T \<Longrightarrow> hash_heap s' = hash_heap s \<Longrightarrow> hash_tbl s' = hash_tbl s \<Longrightarrow> table_maps s' T"
  by (simp add: table_maps_def table_rep_def)

lemma pool_lookup:
  assumes "pool s ps fs"
  shows "\<exists>entry. hash_table_lookup s name i = Some entry \<and>
    (if (name, i) \<in> page_key s ` set ps
     then \<exists>e p. entry \<noteq> 0 \<and> hash_heap s entry = Some e \<and> he_page e = p \<and> p \<in> set ps \<and> page_key s p = (name, i)
     else entry = 0)"
proof -
  let ?f = "filter (\<lambda>p. page_key s p = (name, i)) ps"
  have "table_maps s (\<lambda>k. filter (\<lambda>p. page_key s p = k) ps)" using assms by (simp add: pool_def)
  from lookup_maps [OF this, of name i] obtain entry where
    entry: "hash_table_lookup s name i = Some entry" "case ?f of [] \<Rightarrow> entry = 0
      | pg # _ \<Rightarrow> entry \<noteq> 0 \<and> (\<exists>e. hash_heap s entry = Some e \<and> he_page e = pg)" by blast
  show ?thesis
  proof (cases ?f)
    case Nil
    then have "(name, i) \<notin> page_key s ` set ps" by (auto simp: filter_empty_conv)
    with entry Nil show ?thesis by simp
  next
    case (Cons p qs)
    then have p: "p \<in> set ps" "page_key s p = (name, i)" by (auto simp: filter_eq_Cons_iff)
    then have "(name, i) \<in> page_key s ` set ps" by force
    with entry Cons p show ?thesis by auto
  qed
qed

lemma pool_add:
  assumes pool: "pool s ps fs" and new: "pg \<notin> set (ps @ fs)" "pg_path (mem_map s pg) = Some name" "pg_prev (mem_map s pg) = None"
    and key: "page_key s pg \<notin> page_key s ` set ps"
    and malloc: "malloc (hash_heap s) \<noteq> 0" "hash_heap s (malloc (hash_heap s)) = None"
  obtains h t where "add_to_lru_head malloc pg s = Some ((link_head pg s)\<lparr>hash_heap := h, hash_tbl := t\<rparr>)"
    "pool ((link_head pg s)\<lparr>hash_heap := h, hash_tbl := t\<rparr>) (pg # ps) fs"
proof -
  let ?s = "link_head pg s"
  have keys: "page_key ?s = page_key s" by (simp add: page_key_def frames fun_eq_iff)
  have "table_maps ?s (\<lambda>k. filter (\<lambda>p. page_key s p = k) ps)"
    using pool by (auto simp: pool_def frames intro: table_maps_cong)
  then obtain h t where ins: "hash_table_insert malloc pg ?s = Some (?s\<lparr>hash_heap := h, hash_tbl := t\<rparr>)"
    and maps: "table_maps (?s\<lparr>hash_heap := h, hash_tbl := t\<rparr>) ((\<lambda>k. filter (\<lambda>p. page_key s p = k) ps)
      ((name, pg_index (mem_map ?s pg)) := pg # filter (\<lambda>p. page_key s p = (name, pg_index (mem_map ?s pg))) ps))"
    by (rule insert_maps [where s = ?s and pg = pg and malloc = malloc and name = name])
      (use new(2) malloc in \<open>simp_all add: frames\<close>)
  have own: "page_key s pg = (name, pg_index (mem_map ?s pg))" using new(2) by (simp add: page_key_def frames)
  let ?s' = "?s\<lparr>hash_heap := h, hash_tbl := t\<rparr>"
  have keys': "page_key ?s' = page_key s" using keys by (simp add: page_key_def fun_eq_iff)
  have "(\<lambda>k. filter (\<lambda>p. page_key s p = k) ps)((name, pg_index (mem_map ?s pg)) :=
      pg # filter (\<lambda>p. page_key s p = (name, pg_index (mem_map ?s pg))) ps) = (\<lambda>k. filter (\<lambda>p. page_key s p = k) (pg # ps))"
    using own by (auto simp: fun_eq_iff)
  with maps have table: "table_maps ?s' (\<lambda>k. filter (\<lambda>p. page_key s p = k) (pg # ps))" by simp
  have "lru_list ?s (pg # ps)" by (rule link_head_list) (use pool new in \<open>simp_all add: pool_def\<close>)
  moreover have "nexts (mem_map ?s) (free_head ?s) fs"
  proof (rule nexts_cong)
    show "nexts (mem_map s) (free_head ?s) fs" using pool by (simp add: pool_def frames)
    show "pg_next (mem_map ?s i) = pg_next (mem_map s i)" if "i \<in> set fs" for i
      using that new(1) by (intro link_head_frame) auto
  qed
  ultimately have "pool ?s' (pg # ps) fs"
    using pool new key table unfolding pool_def keys' by (auto simp: lru_list_def frames)
  with ins that show ?thesis by (simp add: add_to_lru_head_link)
qed

lemma pool_remove:
  assumes pool: "pool s (xs @ pg # ys) fs"
  obtains h t where "remove_from_lru pg s = Some (put_free pg (unlink_page pg (s\<lparr>hash_heap := h, hash_tbl := t\<rparr>)), 0)"
    "pool (put_free pg (unlink_page pg (s\<lparr>hash_heap := h, hash_tbl := t\<rparr>))) (xs @ ys) (pg # fs)"
proof -
  let ?T = "\<lambda>k. filter (\<lambda>p. page_key s p = k) (xs @ pg # ys)"
  obtain name where name: "pg_path (mem_map s pg) = Some name" using pool by (auto simp: pool_def)
  let ?k = "(name, pg_index (mem_map s pg))"
  have own: "page_key s pg = ?k" by (simp add: page_key_def name)
  have others: "page_key s p \<noteq> ?k" if "p \<in> set (xs @ ys)" for p
  proof -
    have "page_key s pg \<notin> page_key s ` set (xs @ ys)" using pool by (simp add: pool_def image_Un)
    then show ?thesis using that own by (metis imageI)
  qed
  then have T: "?T ?k = pg # []" using own by (auto simp: filter_empty_conv)
  have "table_maps s ?T" using pool by (simp add: pool_def)
  from remove_maps(2) [OF this name T] obtain h t where
    rem: "hash_table_remove pg s = Some (s\<lparr>hash_heap := h, hash_tbl := t\<rparr>, 0)"
    and maps: "table_maps (s\<lparr>hash_heap := h, hash_tbl := t\<rparr>) (?T(?k := []))" by blast
  let ?s1 = "s\<lparr>hash_heap := h, hash_tbl := t\<rparr>"
  let ?s2 = "unlink_page pg ?s1"
  let ?s3 = "put_free pg ?s2"
  have dist: "distinct (xs @ pg # ys @ fs)" using pool by (auto simp: pool_def)
  have keys: "page_key ?s3 p = page_key s p" if "p \<noteq> pg" for p
    using that by (simp add: page_key_def put_free_mem frames)
  have lru1: "lru_list ?s1 (xs @ pg # ys)" using pool by (simp add: pool_def lru_list_def)
  have lru: "lru_list ?s3 (xs @ ys)"
    using unlink_page_list [OF lru1] dist by (auto simp: lru_list_def put_free_mem elim!: dseg_cong)
  have "nexts (mem_map ?s3) (free_head s) fs"
  proof (rule nexts_cong)
    show "nexts (mem_map s) (free_head s) fs" using pool by (simp add: pool_def)
    show "pg_next (mem_map ?s3 i) = pg_next (mem_map s i)" if "i \<in> set fs" for i
      using that dist unlink_page_outside [OF lru1, of i] by (auto simp: put_free_mem)
  qed
  then have free: "nexts (mem_map ?s3) (free_head ?s3) (pg # fs)"
    by (simp add: put_free_mem frames)
  have "(?T(?k := [])) = (\<lambda>k. filter (\<lambda>p. page_key ?s3 p = k) (xs @ ys))"
  proof
    fix k
    have same: "filter (\<lambda>p. page_key ?s3 p = k) zs = filter (\<lambda>p. page_key s p = k) zs" if "pg \<notin> set zs" for zs
      using that by (intro filter_cong refl) (metis keys)
    show "(?T(?k := [])) k = filter (\<lambda>p. page_key ?s3 p = k) (xs @ ys)"
      using others own dist same [of xs] same [of ys] by (auto simp: filter_empty_conv)
  qed
  then have table: "table_maps ?s3 (\<lambda>k. filter (\<lambda>p. page_key ?s3 p = k) (xs @ ys))"
    using table_maps_cong [OF maps, of ?s3] by (simp add: frames)
  have keys_dist: "distinct (map (page_key ?s3) (xs @ ys))"
  proof -
    have "map (page_key ?s3) (xs @ ys) = map (page_key s) (xs @ ys)" using dist by (intro map_cong refl keys) auto
    moreover have "distinct (map (page_key s) (xs @ ys))" using pool by (simp add: pool_def)
    ultimately show ?thesis by (simp only:)
  qed
  have paths: "\<forall>p \<in> set (xs @ ys). pg_path (mem_map ?s3 p) \<noteq> None"
    using pool dist by (auto simp: pool_def put_free_mem frames)
  have "pool ?s3 (xs @ ys) (pg # fs)"
    unfolding pool_def using lru free table keys_dist paths dist pool by (simp add: pool_def frames)
  with rem that show ?thesis by (simp add: remove_from_lru_unlink)
qed

section \<open>Moving to the front\<close>

lemma move_to_lru_head_result:
  assumes "lru_list s (x # xs @ pg # ys)"
  shows "nexts (mem_map (move_to_lru_head pg s)) (lru_head (move_to_lru_head pg s)) (pg # x # xs @ ys)"
    and "pg_prev (mem_map (move_to_lru_head pg s) x) = None"
    and "lru_tail (move_to_lru_head pg s) = Some (last (x # xs @ ys))"
proof -
  let ?s1 = "unlink_page pg s"
  have split: "lru_list s ((x # xs) @ pg # ys)" and dist: "distinct (x # xs @ pg # ys)"
    using assms by (simp_all add: lru_list_def)
  obtain q1 where seg: "dseg (mem_map s) None (lru_head s) (x # xs) q1 (Some pg)" "pg_prev (mem_map s pg) = q1"
      "dseg (mem_map s) (Some pg) (pg_next (mem_map s pg)) ys (lru_tail s) None"
    using split by (auto simp only: lru_list_def dseg_append dseg.simps)
  have prev: "pg_prev (mem_map s pg) = Some (last (x # xs))" using dseg_last [OF seg(1)] seg(2) by simp
  have head: "lru_head s = Some x" using seg(1) by simp
  have before: "last (x # xs) \<noteq> pg" using dist by (metis append_Cons distinct_append last_in_set list.discI disjoint_iff list.set_intros(1))
  have after: "pg_next (mem_map s pg) \<noteq> Some pg" using dseg_first [OF seg(3)] dist by (cases ys) auto
  have move: "move_to_lru_head pg s = (upd_page pg (\<lambda>p. p\<lparr>pg_prev := None, pg_next := lru_head s\<rparr>) ?s1)\<lparr>lru_head := Some pg\<rparr>"
    using prev before after
    by (cases "pg_next (mem_map s pg)") (simp_all add: move_to_lru_head_def unlink_page_def upd_page_def Let_def)
  have list1: "lru_list ?s1 (x # xs @ ys)" using unlink_page_list [OF split] by simp
  have head1: "lru_head ?s1 = Some x" using list1 by (simp add: lru_list_def)
  have seg1: "dseg (mem_map ?s1) None (Some x) (x # xs @ ys) (lru_tail ?s1) None" using list1 head1 by (simp add: lru_list_def)
  have "nexts (mem_map (move_to_lru_head pg s)) (Some x) (x # xs @ ys)"
    by (rule nexts_cong [OF dseg_nexts [OF seg1]]) (use dist in \<open>auto simp: move\<close>)
  then show "nexts (mem_map (move_to_lru_head pg s)) (lru_head (move_to_lru_head pg s)) (pg # x # xs @ ys)"
    using head by (simp add: move)
  show "pg_prev (mem_map (move_to_lru_head pg s) x) = None"
    using seg1 dist by (simp add: move)
  show "lru_tail (move_to_lru_head pg s) = Some (last (x # xs @ ys))"
    using dseg_last [OF seg1] by (simp add: move)
qed

section \<open>Properties\<close>

text \<open>
  C37. A page with a name and a new key can be added to a pool of pages, as the most recently used one, and
  every page of the pool can then be evicted: both operations succeed, the evicted page is the next free
  one, the other pages keep their order, and the table finds exactly the pages in use.
\<close>

theorem pool_insert_evict:
  assumes "pool s ps fs" and "pg \<notin> set (ps @ fs)" and "pg_path (mem_map s pg) = Some name" and "pg_prev (mem_map s pg) = None"
    and "page_key s pg \<notin> page_key s ` set ps"
    and "malloc (hash_heap s) \<noteq> 0" and "hash_heap s (malloc (hash_heap s)) = None"
  shows "\<exists>s'. add_to_lru_head malloc pg s = Some s' \<and> pool s' (pg # ps) fs
    \<and> (\<forall>p \<in> set (pg # ps). \<exists>s''. remove_from_lru p s' = Some (s'', 0) \<and> pool s'' (remove1 p (pg # ps)) (p # fs))"
proof -
  obtain s' where add: "add_to_lru_head malloc pg s = Some s'" "pool s' (pg # ps) fs"
    by (rule pool_add [where malloc = malloc, OF assms]) blast
  have "\<exists>s''. remove_from_lru p s' = Some (s'', 0) \<and> pool s'' (remove1 p (pg # ps)) (p # fs)" if p: "p \<in> set (pg # ps)" for p
  proof -
    obtain xs ys where split: "pg # ps = xs @ p # ys" "p \<notin> set xs" using split_list_first [OF p] by blast
    then have "remove1 p (pg # ps) = xs @ ys" by (simp add: remove1_middle)
    then show ?thesis using pool_remove [of s' xs p ys fs] add(2) split(1) by metis
  qed
  with add show ?thesis by blast
qed

definition blank_page :: page where
  "blank_page = \<lparr>pg_flag = 0, pg_path = None, pg_index = 0, pg_prev = None, pg_next = None\<rparr>"

definition sample_lists :: page_lists where
  "sample_lists = \<lparr>mem_map = (\<lambda>_. blank_page)(0 := blank_page\<lparr>pg_path := Some ''f''\<rparr>, 1 := blank_page\<lparr>pg_path := Some ''f''\<rparr>),
     lru_head = None, lru_tail = None, free_head = None, nr_free = 0, hash_tbl = (\<lambda>_. 0), hash_heap = Map.empty\<rparr>"

definition sample_malloc :: "(u64 \<Rightarrow> hash_entry option) \<Rightarrow> u64" where
  "sample_malloc h = (if h 8 = None then 8 else 16)"

lemma sample_table: "table_maps sample_lists (\<lambda>_. [])"
proof -
  have "table_rep sample_lists (\<lambda>_. [])" by (simp add: table_rep_def sample_lists_def)
  then show ?thesis unfolding table_maps_def by (rule exI [of _ "\<lambda>_. []", OF conjI]) (simp add: pages_of_def)
qed

theorem pool_insert_evict_witness:
  "\<exists>s s'. add_to_lru_head sample_malloc 1 sample_lists = Some s \<and> remove_from_lru 1 s = Some (s', 0) \<and> pool s' [] [1]"
proof -
  have "pool sample_lists [] []" using sample_table by (simp add: pool_def lru_list_def sample_lists_def)
  from pool_insert_evict [OF this, of 1 "''f''" sample_malloc] show ?thesis
    by (auto simp: sample_lists_def sample_malloc_def blank_page_def)
qed

text \<open>
  A hit on a page that is not the first one brings it to the front of the list as it is followed
  forwards. The page that was first is not told: its back link is empty, so that no list of pages has the
  links in both directions any more.
\<close>

theorem hit_breaks_back_link:
  assumes "lru_list s (x # xs @ pg # ys)"
  shows "nexts (mem_map (move_to_lru_head pg s)) (lru_head (move_to_lru_head pg s)) (pg # x # xs @ ys)
    \<and> pg_prev (mem_map (move_to_lru_head pg s) x) = None
    \<and> (\<forall>qs. \<not> lru_list (move_to_lru_head pg s) qs)"
proof -
  note moved = move_to_lru_head_result [OF assms]
  have "\<not> lru_list (move_to_lru_head pg s) qs" for qs
  proof
    assume qs: "lru_list (move_to_lru_head pg s) qs"
    then have "nexts (mem_map (move_to_lru_head pg s)) (lru_head (move_to_lru_head pg s)) qs"
      by (auto simp: lru_list_def intro: dseg_nexts)
    from nexts_unique [OF this moved(1)] qs moved(2) show False by (simp add: lru_list_def)
  qed
  with moved show ?thesis by blast
qed

text \<open>Pages 0 and 1 of file \<open>f\<close>, page 0 first.\<close>

definition two_linked :: page_lists where
  "two_linked = sample_lists\<lparr>mem_map := (\<lambda>_. blank_page)(0 := blank_page\<lparr>pg_path := Some ''f'', pg_next := Some 1\<rparr>,
       1 := blank_page\<lparr>pg_path := Some ''f'', pg_index := 1, pg_prev := Some 0\<rparr>),
     lru_head := Some 0, lru_tail := Some 1\<rparr>"

lemma two_linked_list: "lru_list two_linked [0, 1]"
  by (simp add: lru_list_def two_linked_def blank_page_def)

theorem hit_breaks_back_link_witness:
  "nexts (mem_map (move_to_lru_head 1 two_linked)) (Some 1) [1, 0] \<and> \<not> lru_list (move_to_lru_head 1 two_linked) [1, 0]"
proof -
  have "lru_head (move_to_lru_head 1 two_linked) = Some 1"
    by (simp add: move_to_lru_head_def two_linked_def upd_page_def Let_def)
  moreover have "lru_list two_linked (0 # [] @ 1 # [])" using two_linked_list by simp
  from hit_breaks_back_link [OF this] have
    "nexts (mem_map (move_to_lru_head 1 two_linked)) (lru_head (move_to_lru_head 1 two_linked)) [1, 0]"
    "\<forall>qs. \<not> lru_list (move_to_lru_head 1 two_linked) qs" by simp_all
  ultimately show ?thesis by metis
qed

text \<open>
  C38. With two pages in use, a hit on the second one and then the eviction of the other, which is the
  last one, empty the list: the page that was hit is still in use and found by the table, but it is on no
  list, and will never be written back or freed.
\<close>

theorem hit_then_evict_loses_page:
  assumes pool: "pool s [a, b] fs"
  shows "\<exists>s'. lru_tail (move_to_lru_head b s) = Some a \<and> remove_from_lru a (move_to_lru_head b s) = Some (s', 0)
    \<and> lru_head s' = None \<and> lru_tail s' = None \<and> free_head s' = Some a
    \<and> pg_path (mem_map s' b) = pg_path (mem_map s b)
    \<and> (\<exists>entry e. hash_table_lookup s' (the (pg_path (mem_map s b))) (pg_index (mem_map s b)) = Some entry
         \<and> entry \<noteq> 0 \<and> hash_heap s' entry = Some e \<and> he_page e = b)"
proof -
  let ?s1 = "move_to_lru_head b s"
  let ?T = "\<lambda>k. filter (\<lambda>p. page_key s p = k) [a, b]"
  have lru: "lru_list s (a # [] @ b # [])" and ab: "a \<noteq> b" and keys: "page_key s a \<noteq> page_key s b"
    using pool by (auto simp: pool_def)
  note moved = move_to_lru_head_result [OF lru]
  have next_a: "pg_next (mem_map ?s1 a) = None" using moved(1) by simp
  have same: "pg_path (mem_map ?s1 p) = pg_path (mem_map s p) \<and> pg_index (mem_map ?s1 p) = pg_index (mem_map s p)
    \<and> hash_heap ?s1 = hash_heap s \<and> hash_tbl ?s1 = hash_tbl s" for p
    by (auto simp: move_to_lru_head_def upd_page_def Let_def split: option.splits)
  obtain name where name: "pg_path (mem_map s a) = Some name" using pool by (auto simp: pool_def)
  have ka: "page_key s a = (name, pg_index (mem_map ?s1 a))" by (simp add: page_key_def name same)
  have "table_maps ?s1 ?T" using pool same by (auto simp: pool_def intro: table_maps_cong)
  moreover have "?T (name, pg_index (mem_map ?s1 a)) = a # []" using ka keys by auto
  ultimately obtain h t where rem: "hash_table_remove a ?s1 = Some (?s1\<lparr>hash_heap := h, hash_tbl := t\<rparr>, 0)"
    and maps: "table_maps (?s1\<lparr>hash_heap := h, hash_tbl := t\<rparr>) (?T((name, pg_index (mem_map ?s1 a)) := []))"
    using remove_maps(2) [of ?s1 ?T a name a "[]"] name same by auto
  let ?s2 = "put_free a (unlink_page a (?s1\<lparr>hash_heap := h, hash_tbl := t\<rparr>))"
  have un: "unlink_page a (?s1\<lparr>hash_heap := h, hash_tbl := t\<rparr>) = ?s1\<lparr>hash_heap := h, hash_tbl := t, lru_head := None, lru_tail := None\<rparr>"
    using moved(2) next_a by (simp add: unlink_page_def Let_def)
  have "remove_from_lru a ?s1 = Some (?s2, 0)" by (simp add: remove_from_lru_unlink rem)
  moreover have "lru_head ?s2 = None" "lru_tail ?s2 = None" "pg_path (mem_map ?s2 b) = pg_path (mem_map s b)"
    using ab same by (simp_all add: un put_free_mem)
  moreover have "lru_tail ?s1 = Some a" using moved(3) by simp
  moreover obtain entry where "hash_table_lookup ?s2 (the (pg_path (mem_map s b))) (pg_index (mem_map s b)) = Some entry"
    "entry \<noteq> 0 \<and> (\<exists>e. hash_heap ?s2 entry = Some e \<and> he_page e = b)"
  proof -
    have "table_maps ?s2 (?T((name, pg_index (mem_map ?s1 a)) := []))"
      by (rule table_maps_cong [OF maps]) (simp_all add: un)
    from lookup_maps [OF this, of "the (pg_path (mem_map s b))" "pg_index (mem_map s b)"] show ?thesis
      using that keys ka by (auto simp: page_key_def)
  qed
  ultimately show ?thesis by (intro exI [of _ ?s2]) auto
qed

text \<open>The two pages, with their entries in the table.\<close>

lemma two_linked_pool: obtains h t where "pool (two_linked\<lparr>hash_heap := h, hash_tbl := t\<rparr>) [0, 1] []"
proof -
  have rep: "table_maps two_linked (\<lambda>_. [])"
    by (rule table_maps_cong [OF sample_table]) (simp_all add: two_linked_def)
  obtain h1 t1 where "table_maps (two_linked\<lparr>hash_heap := h1, hash_tbl := t1\<rparr>) ((\<lambda>_. [])((''f'', 1) := [1]))" "h1 = [8 \<mapsto> \<lparr>he_path = Some ''f'', he_index = 1, he_page = 1, he_next = 0\<rparr>]"
    by (rule insert_maps [OF rep, of 1 "''f''" "\<lambda>_. 8"])
      (auto simp: two_linked_def sample_lists_def blank_page_def hash_table_insert_def Let_def)
  note one = this
  obtain h2 t2 where "table_maps (two_linked\<lparr>hash_heap := h1, hash_tbl := t1, hash_heap := h2, hash_tbl := t2\<rparr>)
      ((\<lambda>_. [])((''f'', 1) := [1], (''f'', 0) := [0]))"
    by (rule insert_maps [OF one(1), of 0 "''f''" "\<lambda>_. 16"]) (auto simp: one(2) two_linked_def blank_page_def)
  moreover have "(\<lambda>_. [])((''f'', 1) := [1], (''f'', 0) := [0]) = (\<lambda>k. filter (\<lambda>p. page_key two_linked p = k) [0, 1])"
    by (auto simp: fun_eq_iff page_key_def two_linked_def blank_page_def)
  ultimately have "table_maps (two_linked\<lparr>hash_heap := h2, hash_tbl := t2\<rparr>) (\<lambda>k. filter (\<lambda>p. page_key two_linked p = k) [0, 1])"
    by simp
  then have "pool (two_linked\<lparr>hash_heap := h2, hash_tbl := t2\<rparr>) [0, 1] []"
    using two_linked_list by (simp add: pool_def lru_list_def page_key_def) (simp add: two_linked_def sample_lists_def blank_page_def)
  then show ?thesis by (rule that)
qed

theorem hit_then_evict_loses_page_witness:
  "\<exists>s s'. pool s [0, 1] [] \<and> remove_from_lru 0 (move_to_lru_head 1 s) = Some (s', 0) \<and> lru_head s' = None"
proof -
  obtain h t where "pool (two_linked\<lparr>hash_heap := h, hash_tbl := t\<rparr>) [0, 1] []" by (rule two_linked_pool)
  with hit_then_evict_loses_page [OF this] show ?thesis by blast
qed

text \<open>
  When a key has two pages, as \<open>uwrite\<close> makes them for a page that is already in use, evicting the older
  one removes the table entry of the newer one: the key is then found at the page just freed.
\<close>

theorem evicting_duplicate_finds_free_page:
  assumes maps: "table_maps s T" and name: "pg_path (mem_map s old) = Some name"
    and both: "T (name, pg_index (mem_map s old)) = [new, old]"
  shows "\<exists>s' entry e. remove_from_lru old s = Some (s', 0) \<and> free_head s' = Some old
    \<and> hash_table_lookup s' name (pg_index (mem_map s old)) = Some entry
    \<and> entry \<noteq> 0 \<and> hash_heap s' entry = Some e \<and> he_page e = old"
proof -
  let ?k = "(name, pg_index (mem_map s old))"
  obtain h t where rem: "hash_table_remove old s = Some (s\<lparr>hash_heap := h, hash_tbl := t\<rparr>, 0)"
    and maps': "table_maps (s\<lparr>hash_heap := h, hash_tbl := t\<rparr>) (T(?k := [old]))"
    using remove_maps(2) [OF maps name both] by blast
  let ?s = "put_free old (unlink_page old (s\<lparr>hash_heap := h, hash_tbl := t\<rparr>))"
  have "table_maps ?s (T(?k := [old]))"
    by (rule table_maps_cong [OF maps']) (simp_all add: frames)
  from lookup_maps [OF this, of name "pg_index (mem_map s old)"] show ?thesis
    by (auto simp: remove_from_lru_unlink rem)
qed

theorem evicting_duplicate_finds_free_page_witness:
  "\<exists>s s' entry e. remove_from_lru 0 s = Some (s', 0) \<and> free_head s' = Some 0
    \<and> hash_table_lookup s' ''f'' 0 = Some entry \<and> hash_heap s' entry = Some e \<and> he_page e = 0"
proof -
  obtain h1 t1 where one: "table_maps (sample_lists\<lparr>hash_heap := h1, hash_tbl := t1\<rparr>) ((\<lambda>_. [])((''f'', 0) := [0]))"
    "h1 = [8 \<mapsto> \<lparr>he_path = Some ''f'', he_index = 0, he_page = 0, he_next = 0\<rparr>]"
    by (rule insert_maps [OF sample_table, of 0 "''f''" "\<lambda>_. 8"])
      (auto simp: sample_lists_def blank_page_def hash_table_insert_def Let_def)
  obtain h2 t2 where "table_maps (sample_lists\<lparr>hash_heap := h2, hash_tbl := t2\<rparr>) ((\<lambda>_. [])((''f'', 0) := [1, 0]))"
    by (rule insert_maps [OF one(1), of 1 "''f''" "\<lambda>_. 16"]) (auto simp: one(2) sample_lists_def blank_page_def)
  from evicting_duplicate_finds_free_page [OF this, of 0 "''f''" 1] show ?thesis
    by (simp add: sample_lists_def blank_page_def) blast
qed

end
