(* ===== verification/PageHeader.thy ===== *)
theory PageHeader
  imports Prelude
begin

text \<open>
  The two conversions of \<^verbatim>\<open>page-cache/src/upage.c\<close> between an \<open>unsigned\<close> and the ten bytes of a page header,
  least significant digit first, padded with the digit 0.
\<close>

section \<open>The functions\<close>

definition PAGE_HEADER_SIZE :: nat where "PAGE_HEADER_SIZE = 10"

definition digit_0 :: byte where "digit_0 = 48"

text \<open>The first loop writes the digits, the second one fills the rest of the header.\<close>

function put_digits :: "u32 \<Rightarrow> byte list" where
  "put_digits num =
     (let c = digit_0 + ucast (num mod 10); num = num div 10 in if num > 0 then c # put_digits num else [c])"
  by pat_completeness auto
termination
proof (relation "measure unat")
  fix c :: byte and num m :: u32
  assume "m = num div 10" and "m > 0"
  then show "(m, num) \<in> measure unat"
    by (cases "unat num = 0") (simp_all add: unat_div word_less_nat_alt)
qed simp

declare put_digits.simps [simp del]

definition convert_unsigned_int_to_string :: "u32 \<Rightarrow> byte list" where
  "convert_unsigned_int_to_string num =
     (let len = put_digits num in len @ replicate (PAGE_HEADER_SIZE - length len) digit_0)"

fun get_digits :: "byte list \<Rightarrow> u32 \<Rightarrow> u32 \<Rightarrow> u32" where
  "get_digits [] multiplier result = result"
| "get_digits (c # cs) multiplier result =
     (if c = digit_0 then result
      else get_digits cs (multiplier * 10) (result + (signed c - signed digit_0) * multiplier))"

definition convert_string_to_unsigned_int :: "byte list \<Rightarrow> u32" where
  "convert_string_to_unsigned_int buf = get_digits (take PAGE_HEADER_SIZE buf) 1 0"

section \<open>Digits\<close>

text \<open>The decimal digits of a number, and the part of it below its lowest digit 0.\<close>

fun low_part :: "nat \<Rightarrow> nat" where
  "low_part n = (if n mod 10 = 0 then 0 else n mod 10 + 10 * low_part (n div 10))"

fun zero_free :: "nat \<Rightarrow> bool" where
  "zero_free n = (if n = 0 then True else n mod 10 \<noteq> 0 \<and> zero_free (n div 10))"

declare low_part.simps [simp del] zero_free.simps [simp del]

lemma low_part_le: "low_part n \<le> n"
proof (induction n rule: low_part.induct)
  case (1 n)
  show ?case
  proof (cases "n mod 10 = 0")
    case True
    then show ?thesis by (simp add: low_part.simps [of n])
  next
    case False
    then have "n mod 10 + 10 * low_part (n div 10) \<le> n"
      using 1 [OF False] mod_mult_div_eq [of n 10] by linarith
    with False show ?thesis by (simp add: low_part.simps [of n])
  qed
qed

lemma low_part_eq_iff: "low_part n = n \<longleftrightarrow> zero_free n"
proof (induction n rule: low_part.induct)
  case (1 n)
  show ?case
  proof (cases "n mod 10 = 0")
    case True
    then show ?thesis by (auto simp: low_part.simps [of n] zero_free.simps [of n])
  next
    case False
    then have "n \<noteq> 0" by auto
    have "n mod 10 + 10 * low_part (n div 10) = n \<longleftrightarrow> low_part (n div 10) = n div 10"
      using mod_mult_div_eq [of n 10] by linarith
    with False \<open>n \<noteq> 0\<close> 1 [OF False] show ?thesis
      by (simp add: low_part.simps [of n] zero_free.simps [of n])
  qed
qed

section \<open>Writing and reading back\<close>

lemma digit_value:
  "(digit_0 + ucast (n mod 10 :: u32) = digit_0 \<longleftrightarrow> unat n mod 10 = 0)"
  "signed (digit_0 + ucast (n mod 10 :: u32) :: byte) - signed digit_0 = n mod 10"
proof -
  have "unat (n mod 10) < 10" by (simp add: unat_mod)
  then have "unat (n mod 10) \<in> {0, 1, 2, 3, 4, 5, 6, 7, 8, 9}" by auto
  then have cases: "n mod 10 \<in> {0, 1, 2, 3, 4, 5, 6, 7, 8, 9}"
    by (simp add: word_unat_eq_iff)
  then show "signed (digit_0 + ucast (n mod 10 :: u32) :: byte) - signed digit_0 = n mod 10"
    by (elim insertE emptyE) (simp_all add: digit_0_def)
  have "(digit_0 + ucast (n mod 10 :: u32) = digit_0) \<longleftrightarrow> n mod 10 = 0"
    using cases by (elim insertE emptyE) (simp_all add: digit_0_def)
  also have "\<dots> \<longleftrightarrow> unat n mod 10 = 0" by (simp add: word_unat_eq_iff unat_mod)
  finally show "(digit_0 + ucast (n mod 10 :: u32) = digit_0 \<longleftrightarrow> unat n mod 10 = 0)" .
qed

lemma length_put_digits: "unat n < 10 ^ Suc k \<Longrightarrow> length (put_digits n) \<le> Suc k"
proof (induction k arbitrary: n)
  case 0
  then have "n div 10 = 0" by (simp add: word_unat_eq_iff unat_div)
  then show ?case by (simp add: put_digits.simps [of n])
next
  case (Suc k)
  have "unat (n div 10) < 10 ^ Suc k" using Suc.prems by (simp add: unat_div div_less_iff_less_mult)
  from Suc.IH [OF this] show ?case by (simp add: put_digits.simps [of n] Let_def)
qed

lemma get_put_digits:
  "get_digits (put_digits n @ replicate j digit_0) m r = r + m * of_nat (low_part (unat n))"
proof (induction n arbitrary: m r rule: put_digits.induct)
  case (1 n)
  have stop: "get_digits (replicate j digit_0) m r = r" for m r by (cases j) simp_all
  have dig: "n mod 10 = of_nat (unat n mod 10)"
    by (rule word_unat_eq_iff [THEN iffD2]) (subst unat_of_nat_u32, simp_all add: unat_mod)
  have quotient: "unat (n div 10) = unat n div 10" by (simp add: unat_div)
  have step: "get_digits ((digit_0 + ucast (n mod 10)) # cs) m r
      = (if unat n mod 10 = 0 then r else get_digits cs (m * 10) (r + of_nat (unat n mod 10) * m))" for cs
    unfolding get_digits.simps digit_value dig [symmetric] ..
  show ?case
  proof (cases "n div 10 > 0")
    case True
    note IH = 1 [OF refl refl True, unfolded quotient]
    have "get_digits (put_digits n @ replicate j digit_0) m r
        = (if unat n mod 10 = 0 then r else get_digits (put_digits (n div 10) @ replicate j digit_0) (m * 10) (r + of_nat (unat n mod 10) * m))"
      using True by (simp only: put_digits.simps [of n] Let_def if_True append_Cons step)
    then show ?thesis unfolding IH low_part.simps [of "unat n"] by (simp add: algebra_simps)
  next
    case False
    then have zero: "unat n div 10 = 0" using quotient by (simp add: word_less_nat_alt)
    have "get_digits (put_digits n @ replicate j digit_0) m r = (if unat n mod 10 = 0 then r else r + of_nat (unat n mod 10) * m)"
      using False by (simp only: put_digits.simps [of n] Let_def if_False append_Cons append_Nil step stop)
    then show ?thesis unfolding low_part.simps [of "unat n"] zero by (simp add: low_part.simps [of 0] algebra_simps)
  qed
qed

lemma convert_back:
  "convert_string_to_unsigned_int (convert_unsigned_int_to_string n) = of_nat (low_part (unat n))"
proof -
  have "unat n < 10 ^ Suc 9" using unsigned_less [of n, where 'a = nat] by simp
  from length_put_digits [OF this] have len: "length (put_digits n) \<le> PAGE_HEADER_SIZE" by (simp add: PAGE_HEADER_SIZE_def)
  then have "take PAGE_HEADER_SIZE (convert_unsigned_int_to_string n)
      = put_digits n @ replicate (PAGE_HEADER_SIZE - length (put_digits n)) digit_0"
    by (simp add: convert_unsigned_int_to_string_def Let_def)
  then show ?thesis by (simp add: convert_string_to_unsigned_int_def get_put_digits)
qed

section \<open>Properties\<close>

text \<open>
  Reading a header back gives the number below the lowest digit 0 of the number written; so the two
  conversions are inverse to each other exactly for the numbers without a digit 0, and for 0 itself. The
  reader takes the first digit 0 for padding.
\<close>

theorem header_roundtrip:
  "convert_string_to_unsigned_int (convert_unsigned_int_to_string n) = of_nat (low_part (unat n))
   \<and> (convert_string_to_unsigned_int (convert_unsigned_int_to_string n) = n \<longleftrightarrow> zero_free (unat n))
   \<and> length (convert_unsigned_int_to_string n) = PAGE_HEADER_SIZE"
proof -
  have "low_part (unat n) < 4294967296"
    using low_part_le [of "unat n"] unsigned_less [of n, where 'a = nat] by simp
  then have "of_nat (low_part (unat n)) = n \<longleftrightarrow> low_part (unat n) = unat n"
    by (metis unat_of_nat_u32 word_unat_eq_iff)
  moreover have "length (put_digits n) \<le> PAGE_HEADER_SIZE"
    using length_put_digits [of n 9] unsigned_less [of n, where 'a = nat] by (simp add: PAGE_HEADER_SIZE_def)
  ultimately show ?thesis
    by (simp add: convert_back low_part_eq_iff) (simp add: convert_unsigned_int_to_string_def Let_def)
qed

end
