(* ===== verification/UPage.thy ===== *)
theory UPage
  imports CacheApi Lru
begin

text \<open>
  The page cache of \<^verbatim>\<open>page-cache/src/upage.c\<close> and \<^verbatim>\<open>page-cache/src/upio.c\<close>, on top of the pages of \<^verbatim>\<open>Lru\<close> and
  the SSD cache of \<^verbatim>\<open>CacheApi\<close>: setting up, allocating and freeing pages, opening and seeking, and the copying
  between the user's buffer and the pages. The memory of the process is a map from addresses to bytes; it
  is the first component of the state of the machine, so that the transfers of the SSD cache may act on
  it. \<^verbatim>\<open>PHYS_BASE\<close> is the address of the data of the pages, 4 KB each; the array \<^verbatim>\<open>mem_map\<close> is allocated at
  \<open>map_base\<close>, its elements are the pages of \<^verbatim>\<open>Lru\<close>. An open file is the address of its \<^verbatim>\<open>uFILE\<close> and the fields
  that are there. A write through a null pointer is \<^const>\<open>None\<close>. Locking the memory into RAM and the messages are
  left out.
\<close>

unbundle bit_operations_syntax

section \<open>State\<close>

type_synonym memory = "u64 \<Rightarrow> byte"

record 'd page_cache =
  lists :: page_lists
  map_base :: u64
  phys_base :: u64
  process :: proc
  host_machine :: "(memory \<times> 'd) machine"
  pio_nodes :: pio_heap

text \<open>
  What the page cache takes from outside: the operating system, the device library, the allocators, and
  the value of the local variable \<open>isFirstPage\<close> of \<open>uread\<close>, which the code does not set.
\<close>

record 'd env =
  env_os :: "(memory \<times> 'd) os"
  env_sys :: "(memory \<times> 'd) system"
  malloc_entry :: "(u64 \<Rightarrow> hash_entry option) \<Rightarrow> u64"
  malloc_pio :: "pio_heap \<Rightarrow> u64"
  alloc_dma :: "u64 \<Rightarrow> memory \<times> 'd \<Rightarrow> u64 \<times> (memory \<times> 'd)"
  free_dma :: "u64 \<Rightarrow> memory \<times> 'd \<Rightarrow> memory \<times> 'd"
  indeterminate_first :: bool

definition memcpy :: "u64 \<Rightarrow> u64 \<Rightarrow> nat \<Rightarrow> memory \<Rightarrow> memory" where
  "memcpy dst src n m = (\<lambda>a. if unat (a - dst) < n then m (src + (a - dst)) else m a)"

definition mem :: "'d page_cache \<Rightarrow> memory" where
  "mem c = fst (world (host_machine c))"

definition copy_bytes :: "u64 \<Rightarrow> u64 \<Rightarrow> nat \<Rightarrow> 'd page_cache \<Rightarrow> 'd page_cache" where
  "copy_bytes dst src n c =
     c\<lparr>host_machine := (host_machine c)\<lparr>world := (memcpy dst src n (mem c), snd (world (host_machine c)))\<rparr>\<rparr>"

definition set_world :: "memory \<times> 'd \<Rightarrow> 'd page_cache \<Rightarrow> 'd page_cache" where
  "set_world w c = c\<lparr>host_machine := (host_machine c)\<lparr>world := w\<rparr>\<rparr>"

definition page_data :: "'d page_cache \<Rightarrow> nat \<Rightarrow> u64" where
  "page_data c pg = phys_base c + of_nat pg * ucast PAGE_SIZE"

section \<open>Allocation\<close>

text \<open>
  The wrappers of \<^verbatim>\<open>umalloc.c\<close>. The first statement of \<open>umalloc_share\<close> returns memory of \<open>malloc\<close>, which only this
  process can use; what follows it is never reached.
\<close>

definition umalloc_dma :: "'d env \<Rightarrow> u64 \<Rightarrow> memory \<times> 'd \<Rightarrow> u64 \<times> (memory \<times> 'd)" where
  [simp]: "umalloc_dma env len w = alloc_dma env len w"

definition umalloc_share :: "(u64 \<Rightarrow> memory \<times> 'd \<Rightarrow> u64 \<times> (memory \<times> 'd)) \<Rightarrow> string \<Rightarrow> u64 \<Rightarrow> memory \<times> 'd \<Rightarrow> u64 \<times> (memory \<times> 'd)" where
  "umalloc_share malloc name len w = malloc len w"

definition ufree :: "'d env \<Rightarrow> u64 \<Rightarrow> memory \<times> 'd \<Rightarrow> memory \<times> 'd" where
  [simp]: "ufree env free_addr w = free_dma env free_addr w"

section \<open>Transfers of a page\<close>

text \<open>\<open>create_pio\<close>, \<open>submit_pio\<close> and \<open>free_pio\<close> for one page; the result of the request is not looked at.\<close>

definition submit_page :: "'d env \<Rightarrow> path \<Rightarrow> u32 \<Rightarrow> operate \<Rightarrow> u64 \<Rightarrow> 'd page_cache \<Rightarrow> 'd page_cache option" where
  "submit_page env path_name i op buf c =
     (case create_pio (malloc_pio env) (pio_nodes c) path_name 0 i op buf 1 of (h, req) \<Rightarrow> do {
        ((P, M), rc) \<leftarrow> submit_pio (env_sys env) h (process c, host_machine c) req;
        h \<leftarrow> free_pio h req;
        Some (c\<lparr>process := P, host_machine := M, pio_nodes := h\<rparr>) })"

definition write_pio :: "'d env \<Rightarrow> nat \<Rightarrow> 'd page_cache \<Rightarrow> 'd page_cache option" where
  "write_pio env pg c = do {
     path_name \<leftarrow> pg_path (mem_map (lists c) pg);
     submit_page env path_name (pg_index (mem_map (lists c) pg)) WRITE (page_data c pg) c }"

definition read_pio :: "'d env \<Rightarrow> nat \<Rightarrow> 'd page_cache \<Rightarrow> 'd page_cache option" where
  "read_pio env pg c = do {
     path_name \<leftarrow> pg_path (mem_map (lists c) pg);
     submit_page env path_name (pg_index (mem_map (lists c) pg)) READ (page_data c pg) c }"

section \<open>Pages\<close>

fun fill_free :: "nat \<Rightarrow> nat \<Rightarrow> page_lists \<Rightarrow> page_lists" where
  "fill_free i 0 s = s"
| "fill_free i (Suc n) s =
     (let s = upd_page i (\<lambda>p. p\<lparr>pg_next := free_head s\<rparr>) s;
          s = s\<lparr>free_head := Some i\<rparr>
      in fill_free (i + 1) n (s\<lparr>nr_free := nr_free s + 1\<rparr>))"

definition sizeof_page :: u64 where "sizeof_page = 40"

definition init_page_cache :: "'d env \<Rightarrow> 'd page_cache \<Rightarrow> ('d page_cache \<times> int) option" where
  "init_page_cache env c =
     (case force_exit_ssd_cache (env_os env) (process c, host_machine c) of (P, M) \<Rightarrow> do {
        ((P, M), rc) \<leftarrow> init_ssd_cache (env_os env) (env_sys env) (P, M);
        let c = c\<lparr>process := P, host_machine := M\<rparr>;
        if rc \<noteq> 0 then Some (c, 1)
        else case umalloc_dma env (of_nat CACHE_SIZE * sizeof_page) (world (host_machine c)) of (marr, w) \<Rightarrow>
          case umalloc_dma env (of_nat CACHE_SIZE * ucast PAGE_SIZE) w of (base, w) \<Rightarrow>
          let c = (set_world w c)\<lparr>map_base := marr, phys_base := base\<rparr>
          in if marr = 0 then None else Some (c\<lparr>lists := fill_free 0 CACHE_SIZE (lists c)\<rparr>, 0) })"

definition exit_page_cache :: "'d env \<Rightarrow> 'd page_cache \<Rightarrow> ('d page_cache \<times> int) option" where
  "exit_page_cache env c = do {
     let c = set_world (free_dma env (map_base c) (world (host_machine c))) c;
     let c = set_world (free_dma env (phys_base c) (world (host_machine c))) c;
     ((P, M), rc) \<leftarrow> exit_ssd_cache (env_os env) (env_sys env) (process c, host_machine c);
     Some (c\<lparr>process := P, host_machine := M\<rparr>, 0) }"

text \<open>One round of the loops that make room, in \<open>alloc_page\<close> and in \<open>write_back_thread\<close>.\<close>

definition write_back_one :: "'d env \<Rightarrow> 'd page_cache \<Rightarrow> 'd page_cache option" where
  "write_back_one env c = do {
     tail \<leftarrow> lru_tail (lists c);
     c \<leftarrow> write_pio env tail c;
     tail \<leftarrow> lru_tail (lists c);
     (l, _) \<leftarrow> remove_from_lru tail (lists c);
     Some (c\<lparr>lists := l\<rparr>) }"

definition write_back_thread :: "'d env \<Rightarrow> 'd page_cache \<Rightarrow> 'd page_cache option" where
  "write_back_thread env c = iterate (CACHE_SIZE div 2) (write_back_one env) c"

definition alloc_page :: "'d env \<Rightarrow> 'd page_cache \<Rightarrow> ('d page_cache \<times> nat) option" where
  "alloc_page env c = do {
     c \<leftarrow> (if nr_free (lists c) = 0 then iterate (CACHE_SIZE div 2) (write_back_one env) c else Some c);
     new_page \<leftarrow> free_head (lists c);
     let l = (lists c)\<lparr>free_head := pg_next (mem_map (lists c) new_page)\<rparr>;
     let l = l\<lparr>nr_free := nr_free l - 1\<rparr>;
     let l = upd_page new_page (\<lambda>_. \<lparr>pg_flag = 0, pg_path = None, pg_index = 0, pg_prev = None, pg_next = None\<rparr>) l;
     Some (c\<lparr>lists := l\<rparr>, new_page) }"

definition free_page :: "nat \<Rightarrow> page_lists \<Rightarrow> page_lists" where
  "free_page target_page s =
     (let s = upd_page target_page (\<lambda>p. p\<lparr>pg_next := free_head s\<rparr>) s;
          s = s\<lparr>free_head := Some target_page\<rparr>;
          s = upd_page target_page (\<lambda>p. p\<lparr>pg_path := None, pg_index := 0, pg_flag := 0, pg_prev := None\<rparr>) s
      in s\<lparr>nr_free := nr_free s + 1\<rparr>)"

section \<open>Files\<close>

definition U_INVALID :: u32 where "U_INVALID = 0x00"
definition U_OREAD :: u32 where "U_OREAD = 0x01"
definition U_OWRITE :: u32 where "U_OWRITE = 0x02"
definition U_REMOVE :: u32 where "U_REMOVE = 0x04"

record uFILE =
  u_path :: path
  u_mode :: u32
  io_offset :: u64

definition sizeof_uFILE :: u64 where "sizeof_uFILE = 24"

text \<open>The fields that \<open>uopen\<close> sets.\<close>

definition new_stream :: "path \<Rightarrow> string \<Rightarrow> uFILE" where
  "new_stream filename mode =
     (let m = 0x00;
          m = (if CHR ''r'' \<in> set mode then m OR U_OREAD else m);
          m = (if CHR ''w'' \<in> set mode then m OR U_OWRITE else m);
          m = (if CHR ''+'' \<in> set mode then m OR U_REMOVE else m)
      in \<lparr>u_path = filename, u_mode = m, io_offset = 0\<rparr>)"

definition uopen :: "'d env \<Rightarrow> path \<Rightarrow> string \<Rightarrow> 'd page_cache \<Rightarrow> ('d page_cache \<times> u64 \<times> uFILE) option" where
  "uopen env filename mode c =
     (case umalloc_dma env sizeof_uFILE (world (host_machine c)) of (puf, w) \<Rightarrow>
        if puf = 0 then None else Some (set_world w c, puf, new_stream filename mode))"

definition uclose :: "'d env \<Rightarrow> u64 \<Rightarrow> uFILE \<Rightarrow> 'd page_cache \<Rightarrow> 'd page_cache \<times> uFILE \<times> int" where
  "uclose env puf stream c =
     (let stream = stream\<lparr>u_path := []\<rparr>;
          stream = stream\<lparr>u_mode := U_INVALID\<rparr>;
          stream = stream\<lparr>io_offset := 0\<rparr>
      in (set_world (free_dma env puf (world (host_machine c))) c, stream, 0))"

definition useek :: "uFILE \<Rightarrow> u64 \<Rightarrow> uFILE" where
  "useek stream offset = stream\<lparr>io_offset := offset\<rparr>"

section \<open>Writing\<close>

text \<open>The loop of \<open>uwrite\<close> over new pages; \<open>is_first\<close> is \<open>isFirstPage\<close>.\<close>

partial_function (option) write_pages :: "'d env \<Rightarrow> path \<Rightarrow> u64 \<Rightarrow> u32 \<Rightarrow> bool \<Rightarrow> u32 \<Rightarrow> u32 \<Rightarrow> 'd page_cache \<Rightarrow>
    ('d page_cache \<times> u32) option" where
  "write_pages env path_name buf data_len is_first data_offset i c = do {
     (c, new_page) \<leftarrow> alloc_page env c;
     let page_data_addr = page_data c new_page;
     let c = c\<lparr>lists := upd_page new_page (\<lambda>p. p\<lparr>pg_flag := pg_flag p OR PG_dirty, pg_index := i, pg_path := Some path_name\<rparr>) (lists c)\<rparr>;
     let i = i + 1;
     if is_first then do {
       let isLastPage = (data_len \<le> PAGE_SIZE);
       let copy_len = (if data_len \<le> PAGE_SIZE then data_len else PAGE_SIZE);
       let c = copy_bytes page_data_addr buf (unat copy_len) c;
       let data_offset = copy_len;
       l \<leftarrow> add_to_lru_head (malloc_entry env) new_page (lists c);
       let c = c\<lparr>lists := l\<rparr>;
       if data_len - data_offset = 0 \<or> isLastPage then Some (c, data_offset)
       else write_pages env path_name buf data_len False data_offset i c }
     else do {
       let (copy_len, isLastPage) = (if data_len - data_offset \<le> PAGE_SIZE then (data_len - data_offset, True) else (PAGE_SIZE, False));
       let c = copy_bytes page_data_addr (buf + ucast data_offset) (unat copy_len) c;
       l \<leftarrow> add_to_lru_head (malloc_entry env) new_page (lists c);
       let c = c\<lparr>lists := l\<rparr>;
       let data_offset = data_offset + copy_len;
       if isLastPage then Some (c, data_offset)
       else write_pages env path_name buf data_len False data_offset i c } }"

text \<open>The middle pages of a file that is larger than the cache.\<close>

partial_function (option) write_through :: "'d env \<Rightarrow> path \<Rightarrow> u64 \<Rightarrow> u32 \<Rightarrow> u32 \<Rightarrow> u32 \<Rightarrow> 'd page_cache \<Rightarrow>
    ('d page_cache \<times> u32 \<times> u32) option" where
  "write_through env path_name buf data_len data_offset i c =
     (if data_len - data_offset > PAGE_SIZE then do {
        c \<leftarrow> submit_page env path_name i WRITE (buf + ucast data_offset) c;
        write_through env path_name buf data_len (data_offset + PAGE_SIZE) (i + 1) c }
      else Some (c, data_offset, i))"

definition data_pages :: "u32 \<Rightarrow> u32" where
  "data_pages len = (len + PAGE_SIZE - 1) div PAGE_SIZE"

definition uwrite :: "'d env \<Rightarrow> u64 \<Rightarrow> u64 \<Rightarrow> u64 \<Rightarrow> uFILE \<Rightarrow> 'd page_cache \<Rightarrow> ('d page_cache \<times> u64) option" where
  "uwrite env buf esize count stream c =
     (if u_mode stream AND U_OWRITE = 0 then Some (c, 0)
      else
        let path_name = u_path stream;
            data_len = ucast (esize * count);
            i = ucast (drop_bit 12 (io_offset stream)) :: u32
        in if data_pages data_len > of_nat CACHE_SIZE then
          (case umalloc_dma env (ucast PAGE_SIZE) (world (host_machine c)) of (first_page, w) \<Rightarrow>
           case umalloc_dma env (ucast PAGE_SIZE) w of (last_page, w) \<Rightarrow>
           if first_page = 0 \<or> last_page = 0 then None
           else do {
             let c = copy_bytes first_page buf (unat PAGE_SIZE) (set_world w c);
             c \<leftarrow> submit_page env path_name i WRITE first_page c;
             let c = set_world (ufree env first_page (world (host_machine c))) c;
             (c, data_offset, i) \<leftarrow> write_through env path_name buf data_len PAGE_SIZE (i + 1) c;
             let c = copy_bytes last_page (buf + ucast data_offset) (unat (data_len - data_offset)) c;
             c \<leftarrow> submit_page env path_name i WRITE last_page c;
             let c = set_world (ufree env last_page (world (host_machine c))) c;
             if esize = 0 then None else Some (c, ucast data_offset div esize) })
        else do {
          (c, data_offset) \<leftarrow> write_pages env path_name buf data_len True 0 i c;
          if esize = 0 then None else Some (c, ucast data_offset div esize) })"

section \<open>Reading\<close>

text \<open>The loop of \<open>uread\<close> over the pages of a request that fits into the cache.\<close>

partial_function (option) read_pages :: "'d env \<Rightarrow> path \<Rightarrow> u64 \<Rightarrow> u32 \<Rightarrow> bool \<Rightarrow> u32 \<Rightarrow> u32 \<Rightarrow> u32 \<Rightarrow> 'd page_cache \<Rightarrow>
    ('d page_cache \<times> u32) option" where
  "read_pages env path_name buf request_byte is_first copy_len buffer_offset i c =
     (if request_byte > buffer_offset then do {
        let copy_len = (if is_first then (if request_byte \<le> PAGE_SIZE then request_byte else PAGE_SIZE)
                        else if request_byte - copy_len \<le> PAGE_SIZE then request_byte - copy_len
                        else PAGE_SIZE);
        target_entry \<leftarrow> hash_table_lookup (lists c) path_name i;
        c \<leftarrow> (if target_entry \<noteq> 0 then do {
                e \<leftarrow> hash_heap (lists c) target_entry;
                let c = c\<lparr>lists := move_to_lru_head (he_page e) (lists c)\<rparr>;
                Some (copy_bytes (buf + ucast buffer_offset) (page_data c (he_page e)) (unat copy_len) c) }
              else do {
                (c, target_page) \<leftarrow> alloc_page env c;
                let c = c\<lparr>lists := upd_page target_page (\<lambda>p. p\<lparr>pg_flag := pg_flag p OR PG_lru, pg_index := i, pg_path := Some path_name\<rparr>) (lists c)\<rparr>;
                c \<leftarrow> read_pio env target_page c;
                l \<leftarrow> add_to_lru_head (malloc_entry env) target_page (lists c);
                let c = c\<lparr>lists := l\<rparr>;
                Some (copy_bytes (buf + ucast buffer_offset) (page_data c target_page) (unat copy_len) c) });
        read_pages env path_name buf request_byte False copy_len (buffer_offset + copy_len) (i + 1) c }
      else Some (c, buffer_offset))"

text \<open>The middle pages of a request that is larger than the cache.\<close>

partial_function (option) read_through :: "'d env \<Rightarrow> path \<Rightarrow> u64 \<Rightarrow> u32 \<Rightarrow> u32 \<Rightarrow> u32 \<Rightarrow> 'd page_cache \<Rightarrow>
    ('d page_cache \<times> u32 \<times> u32 \<times> u32) option" where
  "read_through env path_name buf request_byte buffer_offset i c =
     (if request_byte \<ge> PAGE_SIZE then do {
        c \<leftarrow> submit_page env path_name i READ (buf + ucast buffer_offset) c;
        read_through env path_name buf (request_byte - PAGE_SIZE) (buffer_offset + PAGE_SIZE) (i + 1) c }
      else Some (c, request_byte, buffer_offset, i))"

definition uread :: "'d env \<Rightarrow> u64 \<Rightarrow> u64 \<Rightarrow> u64 \<Rightarrow> uFILE \<Rightarrow> 'd page_cache \<Rightarrow> ('d page_cache \<times> u64) option" where
  "uread env buf esize count stream c =
     (let request_byte = ucast (esize * count);
          path_name = u_path stream;
          i = ucast (drop_bit 12 (io_offset stream)) :: u32
      in if data_pages request_byte > of_nat CACHE_SIZE then
        (case umalloc_dma env (ucast PAGE_SIZE) (world (host_machine c)) of (first_page, w) \<Rightarrow>
         if first_page = 0 then None
         else do {
           c \<leftarrow> submit_page env path_name i READ first_page (set_world w c);
           let c = copy_bytes buf first_page (unat PAGE_SIZE) c;
           let c = set_world (ufree env first_page (world (host_machine c))) c;
           (c, request_byte, buffer_offset, i) \<leftarrow>
              read_through env path_name buf (request_byte - PAGE_SIZE) PAGE_SIZE (i + 1) c;
           (c, buffer_offset) \<leftarrow>
             (if request_byte \<noteq> 0 then
                (case umalloc_dma env (ucast PAGE_SIZE) (world (host_machine c)) of (last_page, w) \<Rightarrow>
                 if last_page = 0 then None
                 else do {
                   c \<leftarrow> submit_page env path_name i READ last_page (set_world w c);
                   let c = copy_bytes (buf + ucast buffer_offset) last_page (unat request_byte) c;
                   let c = set_world (ufree env last_page (world (host_machine c))) c;
                   Some (c, buffer_offset + request_byte) })
              else Some (c, buffer_offset));
           if esize = 0 then None else Some (c, ucast buffer_offset div esize) })
      else do {
        (c, buffer_offset) \<leftarrow> read_pages env path_name buf request_byte (indeterminate_first env) 0 0 i c;
        if esize = 0 then None else Some (c, ucast buffer_offset div esize) })"

end
