(* ===== verification/UPageProps.thy ===== *)
theory UPageProps
  imports UPage LruProps
begin

text \<open>
  What the page cache does to the pages and to the bytes: allocation and setting up, the layout of written
  data, reading pages that are in the cache, and both together.
\<close>

section \<open>Addresses\<close>

lemma unat_of_nat_diff:
  assumes "a < 2 ^ 64" and "b < 2 ^ 64"
  shows "unat (of_nat a - of_nat b :: u64) = (if b \<le> a then a - b else 2 ^ 64 + a - b)"
proof (cases "b \<le> a")
  case True
  then have diff: "of_nat a - of_nat b = (of_nat (a - b) :: u64)" by (simp add: of_nat_diff)
  show ?thesis unfolding diff unat_of_nat using True assms by simp
next
  case False
  have "unat (of_nat (2 ^ 64) :: u64) = unat (0 :: u64)" unfolding unat_of_nat by simp
  then have "(of_nat (2 ^ 64) :: u64) = 0" by (simp only: word_unat_eq_iff)
  moreover have "of_nat (2 ^ 64 + a - b) + of_nat b = (of_nat (2 ^ 64) + of_nat a :: u64)"
  proof -
    have "2 ^ 64 + a - b + b = 2 ^ 64 + a" using assms(2) by simp
    then show ?thesis by (metis of_nat_add)
  qed
  ultimately have diff: "of_nat a - of_nat b = (of_nat (2 ^ 64 + a - b) :: u64)"
    by (metis add_0 add_diff_cancel_right')
  show ?thesis unfolding diff unat_of_nat using False assms by simp
qed

text \<open>Whether an address of one range is in another one, by offsets from a common base.\<close>

lemma in_range_iff:
  assumes "a < 2 ^ 63" and "b < 2 ^ 63" and "n < 2 ^ 63"
  shows "unat ((base + of_nat a) - (base + of_nat b) :: u64) < n \<longleftrightarrow> b \<le> a \<and> a < b + n"
proof -
  have "(base + of_nat a) - (base + of_nat b) = (of_nat a - of_nat b :: u64)" by simp
  with assms show ?thesis by (auto simp: unat_of_nat_diff)
qed

text \<open>The bytes from an address on.\<close>

definition area :: "u64 \<Rightarrow> nat \<Rightarrow> u64 set" where
  "area a n = (\<lambda>k. a + of_nat k) ` {..<n}"

lemma areaI: "k < n \<Longrightarrow> a + of_nat k \<in> area a n"
  by (simp add: area_def)

lemma in_area: "n \<le> 2 ^ 63 \<Longrightarrow> b \<in> area a n \<longleftrightarrow> unat (b - a) < n"
proof
  assume n: "n \<le> 2 ^ 63" and "b \<in> area a n"
  then obtain k where "b = a + of_nat k" "k < n" by (auto simp: area_def)
  with n show "unat (b - a) < n" by (simp add: unat_of_nat)
next
  assume "unat (b - a) < n"
  then have "a + of_nat (unat (b - a)) \<in> area a n" by (rule areaI)
  then show "b \<in> area a n" by simp
qed

lemma memcpy_outside: "n \<le> 2 ^ 63 \<Longrightarrow> b \<notin> area dst n \<Longrightarrow> memcpy dst src n m b = m b"
  by (simp add: memcpy_def in_area)

lemma memcpy_inside: "n \<le> 2 ^ 63 \<Longrightarrow> k < n \<Longrightarrow> memcpy dst src n m (dst + of_nat k) = m (src + of_nat k)"
  by (simp add: memcpy_def unat_of_nat)

lemma area_mono: "n \<le> n' \<Longrightarrow> area a n \<subseteq> area a n'"
  by (auto simp: area_def)

lemma area_shift: "area (a + of_nat i) n \<subseteq> area a (i + n)"
  unfolding area_def by (force simp: add.assoc simp flip: of_nat_add)

lemma area_apart: "i + n \<le> j \<Longrightarrow> j + n' \<le> 2 ^ 63 \<Longrightarrow> area (a + of_nat i) n \<inter> area (a + of_nat j) n' = {}"
  by (auto simp: area_def in_range_iff dest!: arg_cong [of _ _ "\<lambda>b. unat (b - a)"]) (simp_all add: unat_of_nat flip: of_nat_add)

abbreviation frame_size :: nat where
  "frame_size \<equiv> 4096"

lemma unat_PAGE_SIZE: "unat PAGE_SIZE = frame_size"
  by (simp add: config_eqs)

lemma page_data_offset: "page_data c q = phys_base c + of_nat (frame_size * q)"
  by (simp add: page_data_def config_eqs)

lemma frames_apart:
  assumes "q \<noteq> q'" and "q < CACHE_SIZE" and "q' < CACHE_SIZE"
  shows "area (page_data c q) frame_size \<inter> area (page_data c q') frame_size = {}"
proof (cases "q < q'")
  case True
  with assms(3) show ?thesis unfolding page_data_offset by (intro area_apart) (simp_all add: CACHE_SIZE_def)
next
  case False
  with assms have "q' < q" by simp
  with assms(2) have "area (page_data c q') frame_size \<inter> area (page_data c q) frame_size = {}"
    unfolding page_data_offset by (intro area_apart) (simp_all add: CACHE_SIZE_def)
  then show ?thesis by blast
qed

text \<open>The memory of all pages.\<close>

definition page_memory :: "'d page_cache \<Rightarrow> u64 set" where
  "page_memory c = area (phys_base c) (frame_size * CACHE_SIZE)"

lemma frame_in_memory: "q < CACHE_SIZE \<Longrightarrow> area (page_data c q) frame_size \<subseteq> page_memory c"
proof -
  assume "q < CACHE_SIZE"
  then have "frame_size * q + frame_size \<le> frame_size * CACHE_SIZE" by (simp add: CACHE_SIZE_def)
  from order_trans [OF area_shift area_mono [OF this]] show ?thesis
    unfolding page_data_offset page_memory_def .
qed

section \<open>Taking and giving back pages\<close>

definition take_free :: "nat \<Rightarrow> page_lists \<Rightarrow> page_lists" where
  "take_free f l = upd_page f (\<lambda>_. blank_page)
     (l\<lparr>free_head := pg_next (mem_map l f), nr_free := nr_free l - 1\<rparr>)"

lemma alloc_page_free:
  assumes "pool (lists c) ps (f # fs)"
  shows "alloc_page env c = Some (c\<lparr>lists := take_free f (lists c)\<rparr>, f)"
proof -
  have "nr_free (lists c) \<noteq> 0" "free_head (lists c) = Some f" using assms by (simp_all add: pool_def)
  then show ?thesis by (simp add: alloc_page_def take_free_def blank_page_def upd_page_def)
qed

lemma take_free_fields [frames]:
  "mem_map (take_free f l) = (mem_map l)(f := blank_page)" "lru_head (take_free f l) = lru_head l"
  "lru_tail (take_free f l) = lru_tail l" "hash_tbl (take_free f l) = hash_tbl l" "hash_heap (take_free f l) = hash_heap l"
  "free_head (take_free f l) = pg_next (mem_map l f)" "nr_free (take_free f l) = nr_free l - 1"
  by (simp_all add: take_free_def)

text \<open>A change of a page that is on neither list keeps the pool.\<close>

lemma pool_other_page:
  assumes pool: "pool l ps fs" and f: "f \<notin> set (ps @ fs)"
    and same: "lru_head l' = lru_head l" "lru_tail l' = lru_tail l" "hash_tbl l' = hash_tbl l" "hash_heap l' = hash_heap l"
      "free_head l' = free_head l" "nr_free l' = nr_free l" "\<And>p. p \<noteq> f \<Longrightarrow> mem_map l' p = mem_map l p"
  shows "pool l' ps fs"
proof -
  have mem: "mem_map l' p = mem_map l p" if "p \<in> set (ps @ fs)" for p using f that same(7) [of p] by blast
  then have keys: "page_key l' p = page_key l p" if "p \<in> set ps" for p using that by (simp add: page_key_def)
  have "lru_list l' ps"
    using pool mem same(1,2) by (auto simp: pool_def lru_list_def elim!: dseg_cong)
  moreover have "nexts (mem_map l') (free_head l') fs"
    using pool mem same(5) by (auto simp: pool_def elim!: nexts_cong)
  moreover have "table_maps l' (\<lambda>k. filter (\<lambda>p. page_key l' p = k) ps)"
  proof -
    have "(\<lambda>k. filter (\<lambda>p. page_key l' p = k) ps) = (\<lambda>k. filter (\<lambda>p. page_key l p = k) ps)"
      using keys by (intro ext filter_cong) auto
    then show ?thesis using pool same(3,4) by (auto simp: pool_def intro: table_maps_cong)
  qed
  moreover have "distinct (map (page_key l') ps)"
  proof -
    have "map (page_key l') ps = map (page_key l) ps" using keys by (intro map_cong) auto
    moreover have "distinct (map (page_key l) ps)" using pool by (simp add: pool_def)
    ultimately show ?thesis by (simp only:)
  qed
  ultimately show ?thesis using pool mem same(6) by (auto simp: pool_def)
qed

lemma pool_new_free:
  assumes pool: "pool l ps fs"
    and same: "mem_map l' = mem_map l" "lru_head l' = lru_head l" "lru_tail l' = lru_tail l" "hash_tbl l' = hash_tbl l"
      "hash_heap l' = hash_heap l"
    and free: "nexts (mem_map l') (free_head l') fs'" "nr_free l' = int (length fs')" "distinct (ps @ fs')"
  shows "pool l' ps fs'"
proof -
  have "page_key l' = page_key l" by (simp add: page_key_def same(1) fun_eq_iff)
  then show ?thesis
    using pool free same by (simp add: pool_def lru_list_def) (rule table_maps_cong [of l], simp_all)
qed

lemma pool_take_free:
  assumes pool: "pool l ps (f # fs)"
  shows "pool (take_free f l) ps fs" and "f \<notin> set (ps @ fs)"
proof -
  show f: "f \<notin> set (ps @ fs)" using pool by (auto simp: pool_def)
  have "pool (l\<lparr>free_head := pg_next (mem_map l f), nr_free := nr_free l - 1\<rparr>) ps fs"
    by (rule pool_new_free [OF pool]) (use pool in \<open>simp_all add: pool_def\<close>)
  then show "pool (take_free f l) ps fs"
    by (rule pool_other_page [OF _ f]) (simp_all add: take_free_def)
qed

lemma free_page_put: "free_page f l = put_free f l"
  by (simp add: free_page_def put_free_def)

lemma pool_free_page:
  assumes pool: "pool l ps fs" and f: "f \<notin> set (ps @ fs)"
  shows "pool (free_page f l) ps (f # fs)"
proof -
  let ?l = "l\<lparr>mem_map := mem_map (put_free f l)\<rparr>"
  have "pool ?l ps fs" by (rule pool_other_page [OF pool f]) (simp_all add: put_free_mem)
  then show ?thesis unfolding free_page_put
    by (rule pool_new_free) (use f \<open>pool ?l ps fs\<close> in \<open>simp_all add: pool_def put_free_mem\<close>)
qed

lemma insert_heap_card:
  assumes "hash_table_insert malloc pg l = Some l'"
  shows "card (dom (hash_heap l')) \<le> Suc (card (dom (hash_heap l)))"
proof -
  have "dom (hash_heap l') = insert (malloc (hash_heap l)) (dom (hash_heap l))"
    using assms by (auto simp: hash_table_insert_def Let_def bind_eq_Some_conv split: if_splits)
  then show ?thesis by (simp add: card_insert_if)
qed

text \<open>A free page becomes the first page in use, with a new key.\<close>

lemma place_page:
  assumes pool: "pool l ps (f # fs)" and key: "(name, i) \<notin> page_key l ` set ps"
    and malloc: "allocates malloc" "card (dom (hash_heap l)) < 2 ^ 64 - 1"
  obtains l' where
    "add_to_lru_head malloc f (upd_page f (\<lambda>p. p\<lparr>pg_flag := pg_flag p OR flags, pg_index := i, pg_path := Some name\<rparr>) (take_free f l)) = Some l'"
    "pool l' (f # ps) fs" "page_key l' f = (name, i)" "\<And>p. p \<in> set ps \<Longrightarrow> page_key l' p = page_key l p"
    "card (dom (hash_heap l')) \<le> Suc (card (dom (hash_heap l)))"
proof -
  let ?l = "upd_page f (\<lambda>p. p\<lparr>pg_flag := pg_flag p OR flags, pg_index := i, pg_path := Some name\<rparr>) (take_free f l)"
  have f: "f \<notin> set (ps @ fs)" and pool1: "pool ?l ps fs"
    using pool_take_free [OF pool] by (auto intro: pool_other_page)
  have keys: "page_key ?l p = page_key l p" if "p \<in> set ps" for p
  proof -
    have "p \<noteq> f" using that f by auto
    then show ?thesis by (simp add: page_key_def frames)
  qed
  have own: "pg_path (mem_map ?l f) = Some name" "pg_prev (mem_map ?l f) = None" "page_key ?l f = (name, i)"
    by (simp_all add: page_key_def frames blank_page_def)
  have new: "page_key ?l f \<notin> page_key ?l ` set ps" using key keys own(3) by (auto simp: image_iff)
  have heap: "hash_heap ?l = hash_heap l" by (simp add: frames)
  note room = allocates_room [OF malloc, folded heap]
  obtain h t where add: "add_to_lru_head malloc f ?l = Some ((link_head f ?l)\<lparr>hash_heap := h, hash_tbl := t\<rparr>)"
    "pool ((link_head f ?l)\<lparr>hash_heap := h, hash_tbl := t\<rparr>) (f # ps) fs"
    by (rule pool_add [where malloc = malloc, OF pool1 f own(1,2) new room])
  let ?l' = "(link_head f ?l)\<lparr>hash_heap := h, hash_tbl := t\<rparr>"
  have "page_key ?l' p = page_key ?l p" for p by (simp add: page_key_def frames)
  moreover have "card (dom (hash_heap ?l')) \<le> Suc (card (dom (hash_heap l)))"
    using insert_heap_card [OF add(1) [unfolded add_to_lru_head_link]] by (simp add: frames)
  ultimately show ?thesis using that [OF add] keys own(3) by simp
qed

section \<open>Bytes\<close>

lemma copy_bytes_fields [simp]:
  "lists (copy_bytes dst src n c) = lists c" "phys_base (copy_bytes dst src n c) = phys_base c"
  "process (copy_bytes dst src n c) = process c" "pio_nodes (copy_bytes dst src n c) = pio_nodes c"
  "mem (copy_bytes dst src n c) = memcpy dst src n (mem c)"
  "copy_bytes dst src n (c\<lparr>lists := l\<rparr>) = (copy_bytes dst src n c)\<lparr>lists := l\<rparr>"
  by (simp_all add: copy_bytes_def mem_def)

lemma lists_update_fields [simp]:
  "mem (c\<lparr>lists := l\<rparr>) = mem c" "page_data (c\<lparr>lists := l\<rparr>) q = page_data c q"
  "page_data (copy_bytes dst src n c) q = page_data c q" "page_memory (c\<lparr>lists := l\<rparr>) = page_memory c"
  "page_memory (copy_bytes dst src n c) = page_memory c"
  by (simp_all add: mem_def page_data_def page_memory_def)

lemma chunk_words:
  assumes "n \<le> unat (len :: u32)"
  shows "unat (len - of_nat n) = unat len - n" and "(ucast (of_nat n :: u32) :: u64) = of_nat n"
    and "len - of_nat n \<le> PAGE_SIZE \<longleftrightarrow> unat len - n \<le> frame_size"
    and "of_nat n + (len - of_nat n) = of_nat (n + (unat len - n))"
proof -
  have small: "n < 2 ^ 32" using assms unsigned_less [of len, where 'a = nat] by simp
  then have n: "unat (of_nat n :: u32) = n" by (simp add: unat_of_nat_u32)
  have le: "of_nat n \<le> len" using assms n by (simp add: word_le_nat_alt)
  show diff: "unat (len - of_nat n) = unat len - n" using le n by (simp add: unat_sub)
  show "(ucast (of_nat n :: u32) :: u64) = of_nat n" using n by (metis of_nat_unat)
  show "len - of_nat n \<le> PAGE_SIZE \<longleftrightarrow> unat len - n \<le> frame_size"
    using diff by (simp add: word_le_nat_alt config_eqs)
  have "n + (unat len - n) = unat len" using assms by simp
  then show "of_nat n + (len - of_nat n) = of_nat (n + (unat len - n))" by simp
qed

lemma write_pages_first: "write_pages env name buf len True 0 i c = write_pages env name buf len False 0 i c"
proof -
  have "len - PAGE_SIZE \<noteq> 0" if "\<not> len \<le> PAGE_SIZE" using that by auto
  then show ?thesis
    by (subst (1 2) write_pages.simps) (simp add: Let_def cong: if_cong)
qed

lemma write_pages_step:
  assumes pool: "pool (lists c) ps (f # fs)" and key: "(name, i) \<notin> page_key (lists c) ` set ps"
    and malloc: "allocates (malloc_entry env)" "card (dom (hash_heap (lists c))) < 2 ^ 64 - 1"
    and n: "n < unat len"
  obtains l' where
    "write_pages env name buf len False (of_nat n) i c =
      (let c' = (copy_bytes (page_data c f) (buf + of_nat n) (min (unat len - n) frame_size) c)\<lparr>lists := l'\<rparr>
       in if unat len - n \<le> frame_size then Some (c', len) else write_pages env name buf len False (of_nat (n + frame_size)) (i + 1) c')"
    "pool l' (f # ps) fs" "page_key l' f = (name, i)" "\<And>p. p \<in> set ps \<Longrightarrow> page_key l' p = page_key (lists c) p"
    "card (dom (hash_heap l')) \<le> Suc (card (dom (hash_heap (lists c))))"
proof -
  note words = chunk_words [OF less_imp_le [OF n]]
  obtain l' where l': "add_to_lru_head (malloc_entry env) f
      (upd_page f (\<lambda>p. p\<lparr>pg_flag := pg_flag p OR PG_dirty, pg_index := i, pg_path := Some name\<rparr>) (take_free f (lists c))) = Some l'"
    "pool l' (f # ps) fs" "page_key l' f = (name, i)" "\<And>p. p \<in> set ps \<Longrightarrow> page_key l' p = page_key (lists c) p"
    "card (dom (hash_heap l')) \<le> Suc (card (dom (hash_heap (lists c))))"
    using place_page [OF pool key malloc, of PG_dirty] by blast
  have page: "of_nat n + PAGE_SIZE = (of_nat (n + frame_size) :: u32)" by (simp add: PAGE_SIZE_eq)
  have "of_nat (n + (unat len - n)) = len" using n by simp
  then have "write_pages env name buf len False (of_nat n) i c =
      (let c' = (copy_bytes (page_data c f) (buf + of_nat n) (min (unat len - n) frame_size) c)\<lparr>lists := l'\<rparr>
       in if unat len - n \<le> frame_size then Some (c', len) else write_pages env name buf len False (of_nat (n + frame_size)) (i + 1) c')"
    using l'(1) words page
    by (subst write_pages.simps) (simp add: alloc_page_free [OF pool] Let_def unat_PAGE_SIZE min_def del: of_nat_add)
  from that [OF this l'(2-)] show ?thesis .
qed

text \<open>What is in the pages \<open>qs\<close> after the bytes from \<open>n\<close> on of a buffer have been written to them.\<close>

definition holds_bytes :: "memory \<Rightarrow> (nat \<Rightarrow> u64) \<Rightarrow> nat list \<Rightarrow> memory \<Rightarrow> u64 \<Rightarrow> nat \<Rightarrow> nat \<Rightarrow> bool" where
  "holds_bytes m' addr qs m buf n len \<longleftrightarrow>
     (\<forall>j < length qs. \<forall>k < frame_size. n + frame_size * j + k < len \<longrightarrow>
        m' (addr (qs ! j) + of_nat k) = m (buf + of_nat (n + frame_size * j + k)))"

lemma holds_bytes_Cons:
  assumes "\<And>k. k < frame_size \<Longrightarrow> n + k < len \<Longrightarrow> m' (addr f + of_nat k) = m (buf + of_nat (n + k))"
    and "holds_bytes m' addr qs m1 buf (n + frame_size) len"
    and "\<And>k. k < len \<Longrightarrow> m1 (buf + of_nat k) = m (buf + of_nat k)"
  shows "holds_bytes m' addr (f # qs) m buf n len"
  unfolding holds_bytes_def
proof (intro allI impI)
  fix j k
  assume jk: "j < length (f # qs)" "k < frame_size" "n + frame_size * j + k < len"
  show "m' (addr ((f # qs) ! j) + of_nat k) = m (buf + of_nat (n + frame_size * j + k))"
  proof (cases j)
    case 0
    with assms(1) jk show ?thesis by simp
  next
    case (Suc j')
    have eq: "n + frame_size + frame_size * j' + k = n + frame_size * j + k" using Suc by simp
    from assms(2) Suc jk have "m' (addr (qs ! j') + of_nat k) = m1 (buf + of_nat (n + frame_size + frame_size * j' + k))"
      by (simp add: holds_bytes_def)
    with Suc assms(3) [OF jk(3)] show ?thesis unfolding eq by simp
  qed
qed

lemma next_index:
  assumes "Suc j < 2 ^ 32"
  shows "(i :: u32) + 1 + of_nat j \<noteq> i"
proof
  assume "i + 1 + of_nat j = i"
  then have "of_nat (Suc j) = (0 :: u32)" by (simp add: algebra_simps)
  then have "unat (of_nat (Suc j) :: u32) = 0" by simp
  with assms show False by (simp add: unat_of_nat del: of_nat_Suc)
qed

lemma write_pages_all:
  assumes "pool (lists c) ps (qs @ fs)" and "qs \<noteq> []" and "n < unat len" and "unat len < 2 ^ 62"
    and "length qs = (unat len - n + 4095) div frame_size"
    and "\<And>j. j < length qs \<Longrightarrow> (name, i + of_nat j) \<notin> page_key (lists c) ` set ps" and "length qs < 2 ^ 32"
    and "set qs \<subseteq> {..<CACHE_SIZE}" and "area buf (unat len) \<inter> page_memory c = {}"
    and "allocates (malloc_entry env)" and "card (dom (hash_heap (lists c))) + length qs < 2 ^ 64"
  shows "\<exists>c'. write_pages env name buf len False (of_nat n) i c = Some (c', len)
    \<and> pool (lists c') (rev qs @ ps) fs \<and> phys_base c' = phys_base c
    \<and> (\<forall>j < length qs. page_key (lists c') (qs ! j) = (name, i + of_nat j))
    \<and> (\<forall>p \<in> set ps. page_key (lists c') p = page_key (lists c) p)
    \<and> holds_bytes (mem c') (page_data c) qs (mem c) buf n (unat len)
    \<and> (\<forall>a. a \<notin> (\<Union>q \<in> set qs. area (page_data c q) frame_size) \<longrightarrow> mem c' a = mem c a)"
  using assms
proof (induction qs arbitrary: c ps n i)
  case (Cons f qs)
  note prems = Cons.prems
  let ?R = "unat len - n"
  have pool: "pool (lists c) ps (f # (qs @ fs))" using prems(1) by simp
  have key: "(name, i) \<notin> page_key (lists c) ` set ps" using prems(6) [of 0] by simp
  have room: "card (dom (hash_heap (lists c))) < 2 ^ 64 - 1" using prems(11) by simp
  obtain l' where step: "write_pages env name buf len False (of_nat n) i c =
      (let c' = (copy_bytes (page_data c f) (buf + of_nat n) (min ?R frame_size) c)\<lparr>lists := l'\<rparr>
       in if ?R \<le> frame_size then Some (c', len) else write_pages env name buf len False (of_nat (n + frame_size)) (i + 1) c')"
    and l': "pool l' (f # ps) (qs @ fs)" "page_key l' f = (name, i)" "\<And>p. p \<in> set ps \<Longrightarrow> page_key l' p = page_key (lists c) p"
      "card (dom (hash_heap l')) \<le> Suc (card (dom (hash_heap (lists c))))"
    by (rule write_pages_step [OF pool key prems(10) room prems(3)]) blast
  let ?c = "(copy_bytes (page_data c f) (buf + of_nat n) (min ?R frame_size) c)\<lparr>lists := l'\<rparr>"
  have small: "min ?R frame_size \<le> 2 ^ 63" by simp
  have f: "f < CACHE_SIZE" "f \<notin> set qs" using prems(1,8) by (auto simp: pool_def)
  have copied: "mem ?c (page_data c f + of_nat k) = mem c (buf + of_nat (n + k))" if "k < frame_size" "n + k < unat len" for k
    using memcpy_inside [OF small, of k "page_data c f" "buf + of_nat n" "mem c"] that by (simp add: add.assoc)
  have outside: "mem ?c a = mem c a" if "a \<notin> area (page_data c f) frame_size" for a
    using memcpy_outside [OF small, of a "page_data c f"] that area_mono [of "min ?R frame_size" frame_size "page_data c f"] by auto
  have buffer: "mem ?c (buf + of_nat k) = mem c (buf + of_nat k)" if "k < unat len" for k
    using outside [of "buf + of_nat k"] areaI [OF that, of buf] prems(9) frame_in_memory [OF f(1)] by blast
  show ?case
  proof (cases "?R \<le> frame_size")
    case True
    then have "length (f # qs) \<le> 8191 div frame_size" unfolding prems(5) by (intro div_le_mono) simp
    then have "length qs = 0" by simp
    with step True l' copied outside prems(3) show ?thesis
      by (intro exI [of _ ?c]) (auto simp: holds_bytes_def Let_def)
  next
    case False
    have more: "qs \<noteq> []" "n + frame_size < unat len" "length qs = (unat len - (n + frame_size) + 4095) div frame_size"
      using False prems(5) by auto
    have keys: "(name, (i + 1) + of_nat j) \<notin> page_key (lists ?c) ` set (f # ps)" if "j < length qs" for j
    proof -
      have "(name, i + of_nat (Suc j)) \<notin> page_key (lists c) ` set ps" using prems(6) [of "Suc j"] that by simp
      moreover have "i + 1 + of_nat j \<noteq> i" using next_index [of j i] that prems(7) by simp
      ultimately show ?thesis using l'(2,3) by (auto simp: add.assoc image_iff)
    qed
    have hyps: "length qs < 2 ^ 32" "set qs \<subseteq> {..<CACHE_SIZE}" "area buf (unat len) \<inter> page_memory ?c = {}"
      "card (dom (hash_heap (lists ?c))) + length qs < 2 ^ 64" "pool (lists ?c) (f # ps) (qs @ fs)"
      using prems(7,8,9,11) l'(1,4) by auto
    from Cons.IH [OF hyps(5) more(1,2) prems(4) more(3) keys hyps(1-3) prems(10) hyps(4)] obtain c' where
      IH: "write_pages env name buf len False (of_nat (n + frame_size)) (i + 1) ?c = Some (c', len)"
        "pool (lists c') (rev qs @ f # ps) fs" "phys_base c' = phys_base ?c"
        "\<forall>j < length qs. page_key (lists c') (qs ! j) = (name, i + 1 + of_nat j)"
        "\<forall>p \<in> set (f # ps). page_key (lists c') p = page_key (lists ?c) p"
        "holds_bytes (mem c') (page_data ?c) qs (mem ?c) buf (n + frame_size) (unat len)"
        "\<forall>a. a \<notin> (\<Union>q \<in> set qs. area (page_data ?c q) frame_size) \<longrightarrow> mem c' a = mem ?c a"
      by blast
    have addr: "page_data ?c = page_data c" by (simp add: page_data_def fun_eq_iff)
    have apart: "page_data c f + of_nat k \<notin> (\<Union>q \<in> set qs. area (page_data c q) frame_size)" if "k < frame_size" for k
      using frames_apart [of f _ c] f prems(8) areaI [OF that, of "page_data c f"] by fastforce
    have "holds_bytes (mem c') (page_data c) (f # qs) (mem c) buf n (unat len)"
    proof (rule holds_bytes_Cons [where m' = "mem c'" and ?m1.0 = "mem ?c" and m = "mem c"])
      show "mem c' (page_data c f + of_nat k) = mem c (buf + of_nat (n + k))" if "k < frame_size" "n + k < unat len" for k
        using IH(7) apart [OF that(1)] copied [OF that] unfolding addr by metis
      show "holds_bytes (mem c') (page_data c) qs (mem ?c) buf (n + frame_size) (unat len)"
        using IH(6) unfolding addr .
    qed (rule buffer)
    moreover have "mem c' a = mem c a" if "a \<notin> (\<Union>q \<in> set (f # qs). area (page_data c q) frame_size)" for a
      using IH(7) outside [of a] that unfolding addr by auto
    moreover have "page_key (lists c') ((f # qs) ! j) = (name, i + of_nat j)" if "j < length (f # qs)" for j
      using IH(4,5) that l'(2) by (cases j) (simp_all add: add.assoc)
    moreover have "\<forall>p \<in> set ps. page_key (lists c') p = page_key (lists c) p" using IH(5) l'(3) by simp
    ultimately show ?thesis
      using step False IH(1-3) by (intro exI [of _ c']) (simp add: Let_def)
  qed
qed simp

section \<open>Reading cached pages\<close>

definition finds :: "page_lists \<Rightarrow> path \<Rightarrow> u32 \<Rightarrow> nat \<Rightarrow> bool" where
  "finds l name i p \<longleftrightarrow> (\<exists>entry e. hash_table_lookup l name i = Some entry \<and> entry \<noteq> 0
     \<and> hash_heap l entry = Some e \<and> he_page e = p)"

lemma finds_move [simp]: "finds (move_to_lru_head q l) name i p = finds l name i p"
proof -
  have "hash_heap (move_to_lru_head q l) = hash_heap l" "hash_tbl (move_to_lru_head q l) = hash_tbl l"
    by (simp_all add: move_to_lru_head_def Let_def split: option.split)
  then show ?thesis by (simp add: finds_def hash_table_lookup_def)
qed

lemma pool_finds:
  assumes pool: "pool l ps fs" and p: "p \<in> set ps" and key: "page_key l p = (name, i)"
  shows "finds l name i p"
proof -
  have "(name, i) \<in> page_key l ` set ps" using p key by force
  with pool_lookup [OF pool, of name i] obtain entry e q where
    q: "hash_table_lookup l name i = Some entry" "entry \<noteq> 0" "hash_heap l entry = Some e" "he_page e = q"
      "q \<in> set ps" "page_key l q = (name, i)"
    by auto
  have "inj_on (page_key l) (set ps)" using pool by (simp add: pool_def distinct_map)
  then have "q = p" using q(5,6) p key by (metis inj_onD)
  with q show ?thesis by (auto simp: finds_def)
qed

text \<open>Reading one cached page.\<close>

definition read_hit :: "u64 \<Rightarrow> nat \<Rightarrow> nat \<Rightarrow> 'd page_cache \<Rightarrow> 'd page_cache" where
  "read_hit dst p n c = (copy_bytes dst (page_data c p) n c)\<lparr>lists := move_to_lru_head p (lists c)\<rparr>"

lemma read_hit_fields [simp]:
  "mem (read_hit dst p n c) = memcpy dst (page_data c p) n (mem c)" "phys_base (read_hit dst p n c) = phys_base c"
  "page_data (read_hit dst p n c) = page_data c" "page_memory (read_hit dst p n c) = page_memory c"
  "finds (lists (read_hit dst p n c)) = finds (lists c)"
  by (simp_all add: read_hit_def page_data_def page_memory_def fun_eq_iff)

lemma read_pages_hit:
  assumes hit: "finds (lists c) name i p" and n: "n < unat req"
    and len: "ck = (if is_first then (if req \<le> PAGE_SIZE then req else PAGE_SIZE)
        else if req - cl \<le> PAGE_SIZE then req - cl else PAGE_SIZE)"
  shows "read_pages env name buf req is_first cl (of_nat n) i c
    = read_pages env name buf req False ck (of_nat n + ck) (i + 1) (read_hit (buf + of_nat n) p (unat ck) c)"
proof -
  have "unat (of_nat n :: u32) = n" using n unsigned_less [of req, where 'a = nat] by (simp add: unat_of_nat_u32)
  then have "of_nat n < req" using n by (simp add: word_less_nat_alt)
  moreover have "(ucast (of_nat n :: u32) :: u64) = of_nat n" using chunk_words(2) [of n req] n by simp
  moreover obtain entry e where "hash_table_lookup (lists c) name i = Some entry" "entry \<noteq> 0"
    "hash_heap (lists c) entry = Some e" "he_page e = p" using hit by (auto simp: finds_def)
  ultimately show ?thesis
    unfolding read_hit_def by (subst read_pages.simps) (simp add: len [symmetric] Let_def)
qed

lemma read_pages_end:
  "unat req \<le> n \<Longrightarrow> n < 2 ^ 32 \<Longrightarrow> read_pages env name buf req is_first cl (of_nat n) i c = Some (c, of_nat n)"
  by (subst read_pages.simps) (simp add: word_less_nat_alt unat_of_nat_u32)

definition reads_bytes :: "memory \<Rightarrow> u64 \<Rightarrow> nat \<Rightarrow> (nat \<Rightarrow> u64) \<Rightarrow> nat list \<Rightarrow> memory \<Rightarrow> bool" where
  "reads_bytes m' buf n addr qs m \<longleftrightarrow> (\<forall>j < length qs. \<forall>k < frame_size.
     m' (buf + of_nat (n + frame_size * j + k)) = m (addr (qs ! j) + of_nat k))"

lemma reads_bytes_Cons:
  assumes "\<And>k. k < frame_size \<Longrightarrow> m' (buf + of_nat (n + k)) = m (addr p + of_nat k)"
    and "reads_bytes m' buf (n + frame_size) addr qs m1"
    and "\<And>q k. q \<in> set qs \<Longrightarrow> k < frame_size \<Longrightarrow> m1 (addr q + of_nat k) = m (addr q + of_nat k)"
  shows "reads_bytes m' buf n addr (p # qs) m"
  unfolding reads_bytes_def
proof (intro allI impI)
  fix j k
  assume jk: "j < length (p # qs)" "k < frame_size"
  show "m' (buf + of_nat (n + frame_size * j + k)) = m (addr ((p # qs) ! j) + of_nat k)"
  proof (cases j)
    case 0
    with assms(1) jk show ?thesis by simp
  next
    case (Suc j')
    have eq: "n + frame_size + frame_size * j' + k = n + frame_size * j + k" using Suc by simp
    have "j' < length qs" using Suc jk by simp
    with assms(2) jk have "m' (buf + of_nat (n + frame_size + frame_size * j' + k)) = m1 (addr (qs ! j') + of_nat k)"
      by (simp add: reads_bytes_def)
    with Suc assms(3) [of "qs ! j'" k] \<open>j' < length qs\<close> jk show ?thesis unfolding eq by simp
  qed
qed

lemma chunks_Suc:
  assumes "0 < (r :: nat)"
  shows "(r + 4095) div frame_size = Suc ((r - frame_size + 4095) div frame_size)"
proof (cases "frame_size \<le> r")
  case True
  then obtain d where "r = frame_size + d" using le_Suc_ex by blast
  then show ?thesis by simp
next
  case False
  with assms have "(r + 4095) div frame_size = 1" by (intro div_nat_eqI) simp_all
  with False show ?thesis by simp
qed

text \<open>The rest of a long request, after its first page: whole pages, the last one included.\<close>

lemma read_pages_long:
  assumes "8192 < unat req" and "length qs = (unat req - n + 4095) div frame_size"
    and "n + frame_size * length qs < 2 ^ 32" and "\<And>j. j < length qs \<Longrightarrow> finds (lists c) name (i + of_nat j) (qs ! j)"
    and "set qs \<subseteq> {..<CACHE_SIZE}" and "area buf (n + frame_size * length qs) \<inter> page_memory c = {}"
  shows "\<exists>c'. read_pages env name buf req False PAGE_SIZE (of_nat n) i c = Some (c', of_nat (n + frame_size * length qs))
    \<and> reads_bytes (mem c') buf n (page_data c) qs (mem c)
    \<and> (\<forall>a. a \<notin> area (buf + of_nat n) (frame_size * length qs) \<longrightarrow> mem c' a = mem c a)"
  using assms
proof (induction qs arbitrary: c n i)
  case Nil
  then have "unat req \<le> n" by simp
  with Nil show ?case by (simp add: read_pages_end reads_bytes_def)
next
  case (Cons p qs)
  note prems = Cons.prems
  have n: "n < unat req" using prems(2) by (cases "n < unat req") simp_all
  have "\<not> req - PAGE_SIZE \<le> PAGE_SIZE"
    using chunk_words(3) [of frame_size req] prems(1) by (simp add: PAGE_SIZE_eq)
  then have ck: "PAGE_SIZE = (if False then (if req \<le> PAGE_SIZE then req else PAGE_SIZE)
      else if req - PAGE_SIZE \<le> PAGE_SIZE then req - PAGE_SIZE else PAGE_SIZE)" by simp
  have hit: "finds (lists c) name i p" using prems(4) [of 0] by simp
  let ?c = "read_hit (buf + of_nat n) p frame_size c"
  have "of_nat n + PAGE_SIZE = (of_nat (n + frame_size) :: u32)" by (simp add: PAGE_SIZE_eq)
  then have step: "read_pages env name buf req False PAGE_SIZE (of_nat n) i c
      = read_pages env name buf req False PAGE_SIZE (of_nat (n + frame_size)) (i + 1) ?c"
    using read_pages_hit [OF hit n ck] by (simp add: unat_PAGE_SIZE del: of_nat_add)
  have len: "length qs = (unat req - (n + frame_size) + 4095) div frame_size" 
    using prems(2) chunks_Suc [of "unat req - n"] n by simp
  have total: "n + frame_size + frame_size * length qs = n + frame_size * length (p # qs)" by simp
  have hits: "finds (lists ?c) name (i + 1 + of_nat j) (qs ! j)" if "j < length qs" for j
    using prems(4) [of "Suc j"] that by (simp add: add.assoc)
  have hyps: "n + frame_size + frame_size * length qs < 2 ^ 32" "set qs \<subseteq> {..<CACHE_SIZE}"
    "area buf (n + frame_size + frame_size * length qs) \<inter> page_memory ?c = {}"
    using prems(3,5,6) unfolding total by auto
  from Cons.IH [OF prems(1) len hyps(1) hits hyps(2,3)] obtain c' where
    IH: "read_pages env name buf req False PAGE_SIZE (of_nat (n + frame_size)) (i + 1) ?c
        = Some (c', of_nat (n + frame_size + frame_size * length qs))"
      "reads_bytes (mem c') buf (n + frame_size) (page_data c) qs (mem ?c)"
      "\<forall>a. a \<notin> area (buf + of_nat (n + frame_size)) (frame_size * length qs) \<longrightarrow> mem c' a = mem ?c a"
    by auto
  have kept: "mem ?c a = mem c a" if "a \<notin> area (buf + of_nat n) frame_size" for a
    using that by (simp add: memcpy_outside)
  have frames: "mem ?c (page_data c q + of_nat k) = mem c (page_data c q + of_nat k)" if "q \<in> set qs" "k < frame_size" for q k
  proof -
    have "q < CACHE_SIZE" using prems(5) that(1) by auto
    then have "page_data c q + of_nat k \<in> page_memory c" using frame_in_memory areaI [OF that(2)] by blast
    moreover have "area (buf + of_nat n) frame_size \<subseteq> area buf (n + frame_size * length (p # qs))"
      using area_shift [of buf n frame_size] area_mono [of "n + frame_size" "n + frame_size * length (p # qs)" buf] by simp
    ultimately show ?thesis using prems(6) by (intro kept) blast
  qed
  have first: "mem c' (buf + of_nat (n + k)) = mem c (page_data c p + of_nat k)" if "k < frame_size" for k
  proof -
    have "area (buf + of_nat n) frame_size \<inter> area (buf + of_nat (n + frame_size)) (frame_size * length qs) = {}"
      using prems(3) by (intro area_apart) simp_all
    moreover have "buf + of_nat (n + k) \<in> area (buf + of_nat n) frame_size"
      using areaI [OF that, of "buf + of_nat n"] by (simp add: add.assoc)
    ultimately have "mem c' (buf + of_nat (n + k)) = mem ?c (buf + of_nat (n + k))" using IH(3) by blast
    also have "\<dots> = mem c (page_data c p + of_nat k)"
      using memcpy_inside [of frame_size k "buf + of_nat n"] that by (simp add: add.assoc)
    finally show ?thesis .
  qed
  have "reads_bytes (mem c') buf n (page_data c) (p # qs) (mem c)"
    by (rule reads_bytes_Cons [OF first IH(2) frames])
  moreover have "mem c' a = mem c a" if a: "a \<notin> area (buf + of_nat n) (frame_size * length (p # qs))" for a
  proof -
    have sub1: "area (buf + of_nat n) frame_size \<subseteq> area (buf + of_nat n) (frame_size * length (p # qs))"
      by (rule area_mono) simp
    have sub2: "area (buf + of_nat (n + frame_size)) (frame_size * length qs) \<subseteq> area (buf + of_nat n) (frame_size * length (p # qs))"
      using area_shift [of "buf + of_nat n" frame_size "frame_size * length qs"] by (simp add: add.assoc)
    have "mem c' a = mem ?c a" by (rule IH(3) [rule_format, OF contra_subsetD [OF sub2 a]])
    also have "\<dots> = mem c a" by (rule kept [OF contra_subsetD [OF sub1 a]])
    finally show ?thesis .
  qed
  ultimately show ?case using step IH(1) total by (intro exI [of _ c']) simp
qed

text \<open>How many bytes a request copies: whole pages once it is longer than two of them.\<close>

definition read_total :: "nat \<Rightarrow> nat" where
  "read_total n = (if n \<le> 8192 then n else frame_size * ((n + 4095) div frame_size))"

lemma read_pages_first:
  assumes "finds (lists c) name i p" and "0 < unat req"
  shows "read_pages env name buf req is_first 0 0 i c
    = read_pages env name buf req False (of_nat (min (unat req) frame_size)) (of_nat (min (unat req) frame_size)) (i + 1)
        (read_hit buf p (min (unat req) frame_size) c)"
proof -
  have le: "req \<le> PAGE_SIZE \<longleftrightarrow> unat req \<le> frame_size" by (simp add: word_le_nat_alt config_eqs)
  have ck: "of_nat (min (unat req) frame_size) = (if is_first then (if req \<le> PAGE_SIZE then req else PAGE_SIZE)
      else if req - 0 \<le> PAGE_SIZE then req - 0 else PAGE_SIZE)"
    using le by (auto simp: min_def PAGE_SIZE_eq)
  have "unat (of_nat (min (unat req) frame_size) :: u32) = min (unat req) frame_size"
    by (rule unat_of_nat_u32) simp
  then show ?thesis using read_pages_hit [of c name i p 0 req, OF assms ck, of env buf] by simp
qed

text \<open>One read page, when the buffer is apart from the pages.\<close>

lemma read_hit_bytes:
  assumes "n \<le> frame_size"
  shows "k < n \<Longrightarrow> mem (read_hit dst p n c) (dst + of_nat k) = mem c (page_data c p + of_nat k)"
    and "a \<notin> area dst n \<Longrightarrow> mem (read_hit dst p n c) a = mem c a"
  using assms by (simp_all add: memcpy_inside memcpy_outside)

lemma read_pages_two:
  assumes req: "frame_size < unat req" "unat req \<le> 8192"
    and hits: "finds (lists c) name i p" "finds (lists c) name (i + 1) q" and q: "q < CACHE_SIZE"
    and apart: "area buf (unat req) \<inter> page_memory c = {}"
  shows "\<exists>c'. read_pages env name buf req is_first 0 0 i c = Some (c', req)
    \<and> (\<forall>k < frame_size. mem c' (buf + of_nat k) = mem c (page_data c p + of_nat k))
    \<and> (\<forall>k < unat req - frame_size. mem c' (buf + of_nat (frame_size + k)) = mem c (page_data c q + of_nat k))
    \<and> (\<forall>a. a \<notin> area buf (unat req) \<longrightarrow> mem c' a = mem c a)"
proof -
  let ?c = "read_hit buf p frame_size c"
  let ?n = "unat req - frame_size"
  let ?c' = "read_hit (buf + of_nat frame_size) q ?n ?c"
  have first: "read_pages env name buf req is_first 0 0 i c
      = read_pages env name buf req False PAGE_SIZE (of_nat frame_size) (i + 1) ?c"
    using read_pages_first [OF hits(1), of req env buf is_first] req by (simp add: min_def PAGE_SIZE_eq)
  have le: "req - PAGE_SIZE \<le> PAGE_SIZE" and sub: "unat (req - PAGE_SIZE) = ?n"
    using chunk_words(1,3) [of frame_size req] req by (simp_all add: PAGE_SIZE_eq)
  have ck: "req - PAGE_SIZE = (if False then (if req \<le> PAGE_SIZE then req else PAGE_SIZE)
      else if req - PAGE_SIZE \<le> PAGE_SIZE then req - PAGE_SIZE else PAGE_SIZE)" using le by simp
  have next_hit: "finds (lists ?c) name (i + 1) q" using hits(2) by simp
  have "of_nat frame_size + (req - PAGE_SIZE) = of_nat (unat req)" by (simp add: PAGE_SIZE_eq)
  then have "read_pages env name buf req False PAGE_SIZE (of_nat frame_size) (i + 1) ?c
      = read_pages env name buf req False (req - PAGE_SIZE) (of_nat (unat req)) (i + 1 + 1) ?c'"
    using read_pages_hit [OF next_hit req(1) ck] sub by (simp only:)
  also have "\<dots> = Some (?c', req)"
    using read_pages_end [of req "unat req"] unsigned_less [of req, where 'a = nat] by simp
  finally have result: "read_pages env name buf req is_first 0 0 i c = Some (?c', req)" using first by (simp only:)
  have n: "?n \<le> frame_size" using req by simp
  have in2: "area (buf + of_nat frame_size) ?n \<subseteq> area buf (unat req)"
    using area_shift [of buf frame_size ?n] req by simp
  have in1: "area buf frame_size \<subseteq> area buf (unat req)" by (rule area_mono) (use req in simp)
  have apart12: "area buf frame_size \<inter> area (buf + of_nat frame_size) ?n = {}"
    using area_apart [of 0 frame_size frame_size ?n buf] req by simp
  have page1: "mem ?c' (buf + of_nat k) = mem c (page_data c p + of_nat k)" if "k < frame_size" for k
  proof -
    have "buf + of_nat k \<notin> area (buf + of_nat frame_size) ?n" using areaI [OF that, of buf] apart12 by blast
    from read_hit_bytes(2) [OF n this] have "mem ?c' (buf + of_nat k) = mem ?c (buf + of_nat k)" .
    with read_hit_bytes(1) [of frame_size k buf p c] that show ?thesis by (simp only: order_refl)
  qed
  have page2: "mem ?c' (buf + of_nat (frame_size + k)) = mem c (page_data c q + of_nat k)" if "k < ?n" for k
  proof -
    have "page_data c q + of_nat k \<in> page_memory c"
      using frame_in_memory [OF q, of c] areaI [of k frame_size "page_data c q"] that req by auto
    then have "page_data c q + of_nat k \<notin> area buf frame_size" using apart in1 by blast
    from read_hit_bytes(2) [OF order_refl this] have "mem ?c (page_data c q + of_nat k) = mem c (page_data c q + of_nat k)" .
    moreover have "mem ?c' (buf + of_nat frame_size + of_nat k) = mem ?c (page_data ?c q + of_nat k)"
      by (rule read_hit_bytes(1) [OF n that])
    ultimately show ?thesis by (simp only: read_hit_fields of_nat_add add.assoc)
  qed
  have other: "mem ?c' a = mem c a" if a: "a \<notin> area buf (unat req)" for a
    by (rule trans [OF read_hit_bytes(2) [OF n contra_subsetD [OF in2 a]]
        read_hit_bytes(2) [OF order_refl contra_subsetD [OF in1 a]]])
  show ?thesis using result page1 page2 other by blast
qed

text \<open>All three shapes of a request: one page, two pages, more.\<close>

definition reads_prefix :: "memory \<Rightarrow> u64 \<Rightarrow> nat \<Rightarrow> (nat \<Rightarrow> u64) \<Rightarrow> nat list \<Rightarrow> memory \<Rightarrow> bool" where
  "reads_prefix m' buf tot addr qs m \<longleftrightarrow> (\<forall>j < length qs. \<forall>k < frame_size. frame_size * j + k < tot \<longrightarrow>
     m' (buf + of_nat (frame_size * j + k)) = m (addr (qs ! j) + of_nat k))"

lemma read_pages_cached:
  assumes req: "0 < unat req" and len: "length qs = (unat req + 4095) div frame_size" and total: "frame_size * length qs < 2 ^ 32"
    and hits: "\<And>j. j < length qs \<Longrightarrow> finds (lists c) name (i + of_nat j) (qs ! j)"
    and qs: "set qs \<subseteq> {..<CACHE_SIZE}" and apart: "area buf (read_total (unat req)) \<inter> page_memory c = {}"
  shows "\<exists>c'. read_pages env name buf req is_first 0 0 i c = Some (c', of_nat (read_total (unat req)))
    \<and> reads_prefix (mem c') buf (read_total (unat req)) (page_data c) qs (mem c)
    \<and> (\<forall>a. a \<notin> area buf (read_total (unat req)) \<longrightarrow> mem c' a = mem c a)"
proof -
  have "length qs = Suc ((unat req - frame_size + 4095) div frame_size)" using len chunks_Suc [OF req] by simp
  then obtain p rest where qs_eq: "qs = p # rest" and rest: "length rest = (unat req - frame_size + 4095) div frame_size"
    by (cases qs) auto
  have hit: "finds (lists c) name i p" using hits [of 0] qs_eq by simp
  consider (one) "unat req \<le> frame_size" | (two) "frame_size < unat req" "unat req \<le> 8192" | (long) "8192 < unat req" by linarith
  then show ?thesis
  proof cases
    case one
    let ?c = "read_hit buf p (unat req) c"
    have rt: "read_total (unat req) = unat req" and "rest = []" using one rest by (simp_all add: read_total_def)
    have "read_pages env name buf req is_first 0 0 i c = Some (?c, req)"
      using read_pages_first [OF hit req, of env buf is_first] read_pages_end [of req "unat req"] one
        unsigned_less [of req, where 'a = nat]
      by (simp add: min_def)
    then show ?thesis
      using read_hit_bytes [OF one, where c = c and p = p and dst = buf] \<open>rest = []\<close> unfolding rt qs_eq reads_prefix_def by (intro exI [of _ ?c]) simp
  next
    case two
    have rt: "read_total (unat req) = unat req" using two by (simp add: read_total_def)
    have "(unat req - frame_size + 4095) div frame_size = 1" using two by (intro div_nat_eqI) auto
    with rest have "length rest = 1" by (simp only:)
    then obtain q where q: "rest = [q]" by (auto simp: length_Suc_conv)
    have hit2: "finds (lists c) name (i + 1) q" using hits [of 1] qs_eq q by simp
    have "q < CACHE_SIZE" using qs qs_eq q by simp
    from read_pages_two [OF two hit hit2 this apart [unfolded rt], of env is_first] obtain c' where
      c': "read_pages env name buf req is_first 0 0 i c = Some (c', req)"
        "\<forall>k < frame_size. mem c' (buf + of_nat k) = mem c (page_data c p + of_nat k)"
        "\<forall>k < unat req - frame_size. mem c' (buf + of_nat (frame_size + k)) = mem c (page_data c q + of_nat k)"
        "\<forall>a. a \<notin> area buf (unat req) \<longrightarrow> mem c' a = mem c a" by blast
    have "reads_prefix (mem c') buf (unat req) (page_data c) qs (mem c)"
      unfolding reads_prefix_def qs_eq q
    proof (intro allI impI)
      fix j k
      assume jk: "j < length [p, q]" "k < frame_size" "frame_size * j + k < unat req"
      then consider "j = 0" | "j = 1" by fastforce
      then show "mem c' (buf + of_nat (frame_size * j + k)) = mem c (page_data c ([p, q] ! j) + of_nat k)"
        by cases (use jk c'(2,3) in \<open>simp_all add: less_diff_conv add.commute\<close>)
    qed
    with c'(1,4) show ?thesis unfolding rt by simp
  next
    case long
    let ?c = "read_hit buf p frame_size c"
    have rt: "read_total (unat req) = frame_size * length qs" using long len by (simp add: read_total_def)
    have step: "read_pages env name buf req is_first 0 0 i c
        = read_pages env name buf req False PAGE_SIZE (of_nat frame_size) (i + 1) ?c"
      using read_pages_first [OF hit req, of env buf is_first] long by (simp add: min_def PAGE_SIZE_eq)
    have sum: "frame_size + frame_size * length rest = frame_size * length qs" by (simp add: qs_eq)
    have rest_hits: "finds (lists ?c) name (i + 1 + of_nat j) (rest ! j)" if "j < length rest" for j
      using hits [of "Suc j"] that by (simp add: qs_eq add.assoc)
    have hyps: "frame_size + frame_size * length rest < 2 ^ 32" "set rest \<subseteq> {..<CACHE_SIZE}"
      "area buf (frame_size + frame_size * length rest) \<inter> page_memory ?c = {}"
      using total qs apart unfolding rt sum by (simp_all add: qs_eq)
    from read_pages_long [OF long rest hyps(1) rest_hits hyps(2,3), of env] obtain c' where
      c': "read_pages env name buf req False PAGE_SIZE (of_nat frame_size) (i + 1) ?c
          = Some (c', of_nat (frame_size + frame_size * length rest))"
        "reads_bytes (mem c') buf frame_size (page_data c) rest (mem ?c)"
        "\<forall>a. a \<notin> area (buf + of_nat frame_size) (frame_size * length rest) \<longrightarrow> mem c' a = mem ?c a"
      by auto
    have in1: "area buf frame_size \<subseteq> area buf (frame_size * length qs)" by (rule area_mono) (simp add: qs_eq)
    have in2: "area (buf + of_nat frame_size) (frame_size * length rest) \<subseteq> area buf (frame_size * length qs)"
      using area_shift [of buf frame_size "frame_size * length rest"] unfolding sum .
    have apart12: "area buf frame_size \<inter> area (buf + of_nat frame_size) (frame_size * length rest) = {}"
      using area_apart [of 0 frame_size frame_size "frame_size * length rest" buf] hyps(1) by simp
    have page1: "mem c' (buf + of_nat (0 + k)) = mem c (page_data c p + of_nat k)" if "k < frame_size" for k
    proof -
      have "buf + of_nat k \<notin> area (buf + of_nat frame_size) (frame_size * length rest)"
        using areaI [OF that, of buf] apart12 by blast
      from c'(3) [rule_format, OF this] read_hit_bytes(1) [OF order_refl that, of buf p c] show ?thesis by simp
    qed
    have frames: "mem ?c (page_data c q + of_nat k) = mem c (page_data c q + of_nat k)" if "q \<in> set rest" "k < frame_size" for q k
    proof -
      have "q < CACHE_SIZE" using hyps(2) that(1) by auto
      then have "page_data c q + of_nat k \<in> page_memory c" using frame_in_memory areaI [OF that(2)] by blast
      then have "page_data c q + of_nat k \<notin> area buf frame_size" using apart in1 unfolding rt by blast
      then show ?thesis by (rule read_hit_bytes(2) [OF order_refl])
    qed
    have "reads_bytes (mem c') buf 0 (page_data c) (p # rest) (mem c)"
    proof (rule reads_bytes_Cons [where m' = "mem c'" and ?m1.0 = "mem ?c" and m = "mem c"])
      show "reads_bytes (mem c') buf (0 + frame_size) (page_data c) rest (mem ?c)" using c'(2) by simp
    qed (fact page1, fact frames)
    then have "reads_prefix (mem c') buf (frame_size * length qs) (page_data c) qs (mem c)"
      by (simp add: reads_bytes_def reads_prefix_def qs_eq)
    moreover have "mem c' a = mem c a" if a: "a \<notin> area buf (frame_size * length qs)" for a
      by (rule trans [OF c'(3) [rule_format, OF contra_subsetD [OF in2 a]]
          read_hit_bytes(2) [OF order_refl contra_subsetD [OF in1 a]]])
    ultimately show ?thesis using step c'(1) unfolding rt sum by simp
  qed
qed

section \<open>Whole requests\<close>

lemma request_words:
  assumes "unat (esize :: u64) * unat count = n" and "n < 2 ^ 32" and "esize \<noteq> 0"
  shows "unat (ucast (esize * count) :: u32) = n" and "(ucast (ucast (esize * count) :: u32) :: u64) div esize = count"
    and "(of_nat n :: u64) div esize = count"
proof -
  have "unat (esize * count) = unat esize * unat count mod 2 ^ 64" by (simp add: unat_word_ariths(2))
  then have prod: "unat (esize * count) = n" using assms(1,2) by simp
  then show n: "unat (ucast (esize * count) :: u32) = n"
    using assms(2) by (simp add: unsigned_ucast_eq take_bit_nat_eq_self)
  have big: "unat (of_nat n :: u64) = n" using assms(2) by (simp add: unat_of_nat)
  have "unat esize \<noteq> 0" using assms(3) by (simp add: unat_eq_zero)
  then have "n div unat esize = unat count" unfolding assms(1) [symmetric] by simp
  then have "unat ((of_nat n :: u64) div esize) = unat count" unfolding unat_div big .
  then show quot: "(of_nat n :: u64) div esize = count" by (simp only: word_unat_eq_iff)
  have "(ucast (ucast (esize * count) :: u32) :: u64) = of_nat n" using n by (metis of_nat_unat)
  with quot show "(ucast (ucast (esize * count) :: u32) :: u64) div esize = count" by simp
qed

lemma data_pages_small:
  assumes "unat len \<le> frame_size * CACHE_SIZE"
  shows "\<not> data_pages len > of_nat CACHE_SIZE"
proof -
  have "unat (len + PAGE_SIZE - 1) = unat len + 4095"
  proof -
    have "len + PAGE_SIZE - 1 = of_nat (unat len + 4095)" by (simp add: PAGE_SIZE_eq algebra_simps)
    then show ?thesis using assms unat_of_nat_u32 [of "unat len + 4095"] by (simp add: CACHE_SIZE_def del: of_nat_add)
  qed
  then have "unat (data_pages len) = (unat len + 4095) div frame_size"
    by (simp add: data_pages_def unat_div unat_PAGE_SIZE)
  also have "\<dots> \<le> (frame_size * CACHE_SIZE + 4095) div frame_size" using assms by (intro div_le_mono) simp
  also have "\<dots> = CACHE_SIZE" by (simp add: CACHE_SIZE_def)
  finally show ?thesis by (simp add: word_less_nat_alt CACHE_SIZE_def)
qed

text \<open>The pages of a file position, found through the table.\<close>

definition file_page :: "uFILE \<Rightarrow> u32" where
  "file_page stream = ucast (drop_bit 12 (io_offset stream))"

lemma uread_cached:
  assumes size: "unat esize * unat count = n" "esize \<noteq> 0" and n: "0 < n" "n \<le> frame_size * CACHE_SIZE"
    and len: "length qs = (n + 4095) div frame_size" and qs: "set qs \<subseteq> {..<CACHE_SIZE}"
    and hits: "\<And>j. j < length qs \<Longrightarrow> finds (lists c) (u_path stream) (file_page stream + of_nat j) (qs ! j)"
    and apart: "area buf (read_total n) \<inter> page_memory c = {}"
  shows "\<exists>c'. uread env buf esize count stream c = Some (c', of_nat (read_total n) div esize)
    \<and> reads_prefix (mem c') buf (read_total n) (page_data c) qs (mem c)
    \<and> (\<forall>a. a \<notin> area buf (read_total n) \<longrightarrow> mem c' a = mem c a)"
proof -
  let ?req = "ucast (esize * count) :: u32"
  have small: "n < 2 ^ 32" using n(2) by (simp add: CACHE_SIZE_def)
  note words = request_words [OF size(1) small size(2)]
  have "(n + 4095) div frame_size \<le> (frame_size * CACHE_SIZE + 4095) div frame_size" using n(2) by (intro div_le_mono) simp
  then have total: "frame_size * length qs \<le> 2 ^ 29" using len by (simp add: CACHE_SIZE_def)
  have req: "0 < unat ?req" "length qs = (unat ?req + 4095) div frame_size" "frame_size * length qs < 2 ^ 32"
      "area buf (read_total (unat ?req)) \<inter> page_memory c = {}"
    using n len total apart words(1) by simp_all
  from read_pages_cached [OF req(1-3) hits qs req(4), of env "indeterminate_first env"] obtain c' where
    c': "read_pages env (u_path stream) buf ?req (indeterminate_first env) 0 0 (file_page stream) c
        = Some (c', of_nat (read_total n))"
      "reads_prefix (mem c') buf (read_total n) (page_data c) qs (mem c)"
      "\<forall>a. a \<notin> area buf (read_total n) \<longrightarrow> mem c' a = mem c a"
    unfolding words(1) by blast
  have rt: "read_total n < 2 ^ 32" using total small len by (auto simp: read_total_def)
  then have "unat (of_nat (read_total n) :: u32) = read_total n" by (simp add: unat_of_nat_u32)
  then have "(ucast (of_nat (read_total n) :: u32) :: u64) = of_nat (read_total n)" by (metis of_nat_unat)
  moreover have "\<not> data_pages ?req > of_nat CACHE_SIZE" by (rule data_pages_small) (use words(1) n in simp)
  ultimately have "uread env buf esize count stream c = Some (c', of_nat (read_total n) div esize)"
    using c'(1) size(2) by (simp add: uread_def Let_def flip: file_page_def)
  with c'(2,3) show ?thesis by blast
qed

lemma uwrite_new:
  assumes pool: "pool (lists c) ps (qs @ fs)" and mode: "u_mode stream AND U_OWRITE \<noteq> 0"
    and size: "unat esize * unat count = n" "esize \<noteq> 0" and n: "0 < n" "n \<le> frame_size * CACHE_SIZE"
    and len: "length qs = (n + 4095) div frame_size" and qs: "set qs \<subseteq> {..<CACHE_SIZE}"
    and new: "\<And>j. j < length qs \<Longrightarrow> (u_path stream, file_page stream + of_nat j) \<notin> page_key (lists c) ` set ps"
    and apart: "area buf n \<inter> page_memory c = {}"
    and malloc: "allocates (malloc_entry env)" "card (dom (hash_heap (lists c))) + length qs < 2 ^ 64"
  shows "\<exists>c'. uwrite env buf esize count stream c = Some (c', count)
    \<and> pool (lists c') (rev qs @ ps) fs \<and> phys_base c' = phys_base c
    \<and> (\<forall>j < length qs. page_key (lists c') (qs ! j) = (u_path stream, file_page stream + of_nat j))
    \<and> (\<forall>p \<in> set ps. page_key (lists c') p = page_key (lists c) p)
    \<and> holds_bytes (mem c') (page_data c) qs (mem c) buf 0 n
    \<and> (\<forall>a. a \<notin> (\<Union>q \<in> set qs. area (page_data c q) frame_size) \<longrightarrow> mem c' a = mem c a)"
proof -
  let ?len = "ucast (esize * count) :: u32"
  have small: "n < 2 ^ 32" using n(2) by (simp add: CACHE_SIZE_def)
  note words = request_words [OF size(1) small size(2)]
  have "(n + 4095) div frame_size \<le> (frame_size * CACHE_SIZE + 4095) div frame_size" using n(2) by (intro div_le_mono) simp
  then have few: "length qs \<le> CACHE_SIZE" using len by (simp add: CACHE_SIZE_def)
  have "qs \<noteq> []" using len chunks_Suc [OF n(1)] by auto
  then have hyps: "qs \<noteq> []" "0 < unat ?len" "unat ?len < 2 ^ 62" "length qs = (unat ?len - 0 + 4095) div frame_size"
      "length qs < 2 ^ 32" "area buf (unat ?len) \<inter> page_memory c = {}"
    using n small len few apart words(1) by (simp_all add: CACHE_SIZE_def)
  from write_pages_all [OF pool hyps(1-4) new hyps(5) qs hyps(6) malloc] obtain c' where
    c': "write_pages env (u_path stream) buf ?len False (of_nat 0) (file_page stream) c = Some (c', ?len)"
      "pool (lists c') (rev qs @ ps) fs" "phys_base c' = phys_base c"
      "\<forall>j < length qs. page_key (lists c') (qs ! j) = (u_path stream, file_page stream + of_nat j)"
      "\<forall>p \<in> set ps. page_key (lists c') p = page_key (lists c) p"
      "holds_bytes (mem c') (page_data c) qs (mem c) buf 0 n"
      "\<forall>a. a \<notin> (\<Union>q \<in> set qs. area (page_data c q) frame_size) \<longrightarrow> mem c' a = mem c a"
    unfolding words(1) by blast
  have "\<not> data_pages ?len > of_nat CACHE_SIZE" by (rule data_pages_small) (use words(1) n in simp)
  then have "uwrite env buf esize count stream c = Some (c', count)"
    using c'(1) mode size(2) words(2) by (simp add: uwrite_def Let_def write_pages_first flip: file_page_def)
  with c'(2-) show ?thesis by blast
qed

section \<open>A page cache just set up\<close>

lemma fill_free_pool:
  "pool s [] fs \<Longrightarrow> set fs \<inter> {i..} = {} \<Longrightarrow> pool (fill_free i n s) [] (rev [i..<i + n] @ fs)"
proof (induction n arbitrary: i s fs)
  case (Suc n)
  let ?s1 = "upd_page i (\<lambda>p. p\<lparr>pg_next := free_head s\<rparr>) s"
  let ?s2 = "?s1\<lparr>free_head := Some i, nr_free := nr_free s + 1\<rparr>"
  have i: "i \<notin> set ([] @ fs)" using Suc.prems(2) by auto
  have "pool ?s1 [] fs" by (rule pool_other_page [OF Suc.prems(1) i]) simp_all
  then have "pool ?s2 [] (i # fs)"
    by (rule pool_new_free) (use \<open>pool ?s1 [] fs\<close> i in \<open>simp_all add: pool_def\<close>)
  moreover have "set (i # fs) \<inter> {i + 1..} = {}" using Suc.prems(2) by auto
  ultimately have "pool (fill_free (i + 1) n ?s2) [] (rev [i + 1..<i + 1 + n] @ (i # fs))" by (rule Suc.IH)
  then show ?case by (simp add: Let_def upt_rec [of i "Suc (i + n)"] del: upt_Suc)
qed simp

definition empty_lists :: page_lists where
  "empty_lists = \<lparr>mem_map = (\<lambda>_. blank_page), lru_head = None, lru_tail = None, free_head = None, nr_free = 0,
     hash_tbl = (\<lambda>_. 0), hash_heap = Map.empty\<rparr>"

lemma empty_lists_pool: "pool empty_lists [] []"
proof -
  have "table_rep empty_lists (\<lambda>_. [])" by (simp add: table_rep_def empty_lists_def)
  then have "table_maps empty_lists (\<lambda>_. [])"
    unfolding table_maps_def by (rule exI [of _ "\<lambda>_. []", OF conjI]) (simp add: pages_of_def)
  then show ?thesis by (simp add: pool_def lru_list_def empty_lists_def)
qed

text \<open>All pages are free, the last one of the array is taken first.\<close>

definition new_lists :: page_lists where
  "new_lists = fill_free 0 CACHE_SIZE empty_lists"

lemma new_lists_pool: "pool new_lists [] (rev [0..<CACHE_SIZE])"
  using fill_free_pool [OF empty_lists_pool, of 0 CACHE_SIZE] by (simp add: new_lists_def)

end
