(* ===== verification/UPageSystem.thy ===== *)
theory UPageSystem
  imports UPageProps
begin

text \<open>
  Writing and reading back through the page cache of \<^verbatim>\<open>page-cache/src/upage.c\<close>: \<open>uwrite\<close> into free pages and
  then \<open>uread\<close> of the same pages, from the lemmas \<open>uwrite_new\<close> and \<open>uread_cached\<close> of \<^verbatim>\<open>UPageProps\<close>, and a concrete
  machine on which both are run.
\<close>

section \<open>Both operations\<close>

lemma write_read:
  fixes c :: "'d page_cache"
  assumes pool: "pool (lists c) ps (qs @ fs)" and mode: "u_mode stream AND U_OWRITE \<noteq> 0"
    and size: "unat esize * unat count = n" "esize \<noteq> 0" and n: "0 < n" "n \<le> frame_size * CACHE_SIZE"
    and len: "length qs = (n + 4095) div frame_size" and qs: "set qs \<subseteq> {..<CACHE_SIZE}"
    and new: "\<And>j. j < length qs \<Longrightarrow> (u_path stream, file_page stream + of_nat j) \<notin> page_key (lists c) ` set ps"
    and apart: "area buf n \<inter> page_memory c = {}" "area dest (read_total n) \<inter> page_memory c = {}"
    and malloc: "allocates (malloc_entry env)" "card (dom (hash_heap (lists c))) + length qs < 2 ^ 64"
  obtains c1 c2 where "uwrite env buf esize count stream c = Some (c1, count)"
    "uread env dest esize count stream c1 = Some (c2, of_nat (read_total n) div esize)"
    "holds_bytes (mem c1) (page_data c1) qs (mem c) buf 0 n"
    "reads_prefix (mem c2) dest (read_total n) (page_data c1) qs (mem c1)"
    "\<forall>a. a \<notin> area dest (read_total n) \<union> page_memory c \<longrightarrow> mem c2 a = mem c a"
proof -
  from uwrite_new [OF pool mode size n len qs new apart(1) malloc] obtain c1 where
    c1: "uwrite env buf esize count stream c = Some (c1, count)" "pool (lists c1) (rev qs @ ps) fs"
      "phys_base c1 = phys_base c"
      "\<forall>j < length qs. page_key (lists c1) (qs ! j) = (u_path stream, file_page stream + of_nat j)"
      "holds_bytes (mem c1) (page_data c) qs (mem c) buf 0 n"
      "\<forall>a. a \<notin> (\<Union>q \<in> set qs. area (page_data c q) frame_size) \<longrightarrow> mem c1 a = mem c a" by blast
  have base: "page_data c1 = page_data c" "page_memory c1 = page_memory c"
    using c1(3) by (simp_all add: page_data_def page_memory_def fun_eq_iff)
  have hits: "finds (lists c1) (u_path stream) (file_page stream + of_nat j) (qs ! j)" if j: "j < length qs" for j
    by (rule pool_finds [OF c1(2) _ c1(4) [rule_format, OF j]]) (use j in simp)
  from uread_cached [OF size n len qs hits apart(2) [folded base(2)], of env] obtain c2 where
    c2: "uread env dest esize count stream c1 = Some (c2, of_nat (read_total n) div esize)"
      "reads_prefix (mem c2) dest (read_total n) (page_data c1) qs (mem c1)"
      "\<forall>a. a \<notin> area dest (read_total n) \<longrightarrow> mem c2 a = mem c1 a" by blast
  have "mem c2 a = mem c a" if a: "a \<notin> area dest (read_total n) \<union> page_memory c" for a
  proof -
    have "(\<Union>q \<in> set qs. area (page_data c q) frame_size) \<subseteq> page_memory c"
    proof (rule UN_least)
      fix q assume "q \<in> set qs"
      with qs have "q < CACHE_SIZE" by blast
      then show "area (page_data c q) frame_size \<subseteq> page_memory c" by (rule frame_in_memory)
    qed
    then have "a \<notin> (\<Union>q \<in> set qs. area (page_data c q) frame_size)" by (rule contra_subsetD) (use a in simp)
    with c1(6) have "mem c1 a = mem c a" by blast
    moreover have "mem c2 a = mem c1 a" using c2(3) a by blast
    ultimately show ?thesis by simp
  qed
  then show ?thesis using that [OF c1(1) c2(1) c1(5) [folded base(1)] c2(2)] by blast
qed

lemma chunks_less: "0 < n \<Longrightarrow> (n + 4095) div frame_size = Suc ((n - 1) div frame_size)"
proof -
  assume "0 < n"
  then have "n + 4095 = (n - 1) + frame_size" by simp
  then show ?thesis by (simp only: div_add_self2)
qed

lemma read_total_exact: "n \<le> 8192 \<or> frame_size dvd n \<Longrightarrow> read_total n = n"
proof (cases "n \<le> 8192")
  case False
  assume "n \<le> 8192 \<or> frame_size dvd n"
  with False obtain k where k: "n = frame_size * k" by (auto elim: dvdE)
  have "(frame_size * k + 4095) div frame_size = k" by simp
  with False k show ?thesis by (simp only: read_total_def if_False)
qed (simp add: read_total_def)

lemma next_multiple:
  fixes b :: nat
  assumes "n = b * q + r" and "r < b"
  shows "n < b * Suc q" and "0 < r \<Longrightarrow> b * Suc q < n + b"
  using assms by simp_all

lemma read_total_less:
  assumes "8192 < n" and odd: "\<not> frame_size dvd n"
  shows "read_total n = frame_size * Suc (n div frame_size)" and "n < read_total n" and "read_total n < n + frame_size"
proof -
  have m: "0 < n mod frame_size" using odd by (simp add: dvd_eq_mod_eq_0)
  have n: "n = frame_size * (n div frame_size) + n mod frame_size" by simp
  have "n mod frame_size < frame_size" by simp
  have "(n + 4095) div frame_size = Suc (n div frame_size)"
  proof -
    have "n + 4095 = (n mod frame_size - 1) + frame_size * Suc (n div frame_size)" using m mult_Suc_right [of frame_size "n div frame_size"] n by linarith
    moreover have "(n mod frame_size - 1) div frame_size = 0" by (simp add: less_imp_diff_less)
    ultimately show ?thesis by (simp only: div_mult_self2)
  qed
  then show rt: "read_total n = frame_size * Suc (n div frame_size)" using assms(1) by (simp add: read_total_def)
  show "n < read_total n" "read_total n < n + frame_size"
    unfolding rt using next_multiple [OF n \<open>n mod frame_size < frame_size\<close>] m by simp_all
qed

lemma chunk_of:
  assumes "k < n"
  shows "k div frame_size < (n + 4095) div frame_size"
proof -
  have "k div frame_size \<le> (n - 1) div frame_size" using assms by (intro div_le_mono) simp
  then show ?thesis using chunks_less [of n] assms by simp
qed

lemma prefix_byte:
  assumes "reads_prefix m' buf n addr qs m" and len: "n \<le> frame_size * length qs" and k: "k < n"
  shows "m' (buf + of_nat k) = m (addr (qs ! (k div frame_size)) + of_nat (k mod frame_size))"
proof -
  have "k div frame_size < length qs" using k len by (simp add: less_mult_imp_div_less mult.commute)
  moreover have whole: "frame_size * (k div frame_size) + k mod frame_size = k" by simp
  moreover have "k mod frame_size < frame_size" by simp
  ultimately have "m' (buf + of_nat (frame_size * (k div frame_size) + k mod frame_size))
      = m (addr (qs ! (k div frame_size)) + of_nat (k mod frame_size))"
    using assms(1) k unfolding reads_prefix_def by metis
  then show ?thesis unfolding whole .
qed

lemma held_byte:
  assumes "holds_bytes m' addr qs m buf 0 n" and len: "n \<le> frame_size * length qs" and k: "k < n"
  shows "m' (addr (qs ! (k div frame_size)) + of_nat (k mod frame_size)) = m (buf + of_nat k)"
proof -
  have "k div frame_size < length qs" using k len by (simp add: less_mult_imp_div_less mult.commute)
  moreover have whole: "0 + frame_size * (k div frame_size) + k mod frame_size = k" by simp
  moreover have "k mod frame_size < frame_size" by simp
  ultimately have "m' (addr (qs ! (k div frame_size)) + of_nat (k mod frame_size))
      = m (buf + of_nat (0 + frame_size * (k div frame_size) + k mod frame_size))"
    using assms(1) k unfolding holds_bytes_def by metis
  then show ?thesis unfolding whole .
qed

lemma chunks_cover: "n \<le> frame_size * ((n + 4095) div frame_size)"
proof (cases "n = 0")
  case False
  have "(n - 1) mod frame_size < frame_size" by simp
  moreover have "n - 1 = frame_size * ((n - 1) div frame_size) + (n - 1) mod frame_size" by simp
  ultimately have "n - 1 < frame_size * Suc ((n - 1) div frame_size)" by (rule next_multiple(1) [rotated])
  with False show ?thesis using chunks_less [of n] by simp
qed simp

section \<open>A concrete machine\<close>

text \<open>Every call of the system succeeds without any effect; the memory holds the low byte of each address.\<close>

definition quiet_system :: "'w system" where
  "quiet_system = \<lparr>
     sys_open = (\<lambda>_ _ _ w. (3, w)), sys_close = (\<lambda>_ w. w), sys_pread = (\<lambda>_ _ n _ w. (int (unat n), w)),
     sys_pwrite = (\<lambda>_ _ n _ w. (int (unat n), w)), sys_preadv = (\<lambda>_ _ _ w. (4096, w)), sys_pwritev = (\<lambda>_ _ _ w. (4096, w)),
     env_init = (\<lambda>w. (0, w)), env_fini = (\<lambda>w. w), nvme_probe = (\<lambda>w. ((0, [(NVME_ADDR, 1)]), w)),
     first_active_ns = (\<lambda>_. 1), next_active_ns = (\<lambda>_ _. 0), get_ns = (\<lambda>_ _. 1), ns_is_active = (\<lambda>_. True),
     ns_sector_size = (\<lambda>_. 512), ns_size = (\<lambda>_. 2 ^ 31), alloc_io_qpair = (\<lambda>_ w. (1, w)),
     free_io_qpair = (\<lambda>_ w. w), nvme_detach = (\<lambda>_ w. w), ns_cmd_read = (\<lambda>_ _ _ _ _ w. (0, w)),
     ns_cmd_write = (\<lambda>_ _ _ _ _ w. (0, w)), ns_cmd_deallocate = (\<lambda>_ _ _ _ w. (0, w)),
     ns_cmd_readv = (\<lambda>_ _ _ _ _ _ _ w. (0, w)), ns_cmd_writev = (\<lambda>_ _ _ _ _ _ _ w. (0, w)),
     process_completions = (\<lambda>_ w. (True, w))\<rparr>"

definition quiet_os :: "'w os" where
  "quiet_os = \<lparr>sys_shm_open = (\<lambda>_ w. (3, w)), sys_ftruncate = (\<lambda>_ w. (0, w)), sys_mmap = (\<lambda>_ w. (True, w)),
     sys_munmap = (\<lambda>w. (0, w)), sys_shm_unlink = (\<lambda>w. (0, w)), sys_thread_create = (\<lambda>w. ((0, 77), w)),
     sys_thread_stop = (\<lambda>_ c w. ((0, c), w)), sys_sleep = (\<lambda>c w. (c, w)), sys_testcancel = (\<lambda>w. (True, w)),
     sys_cut = (\<lambda>_. None)\<rparr>"

definition quiet_env :: "unit env" where
  "quiet_env = \<lparr>env_os = quiet_os, env_sys = quiet_system, malloc_entry = first_free, malloc_pio = (\<lambda>_. 1),
     alloc_dma = (\<lambda>_ w. (2 ^ 40, w)), free_dma = (\<lambda>_ w. w), indeterminate_first = True\<rparr>"

definition sample_stream :: uFILE where
  "sample_stream = new_stream ''f'' ''rw''"

definition fresh_page_cache :: "unit page_cache" where
  "fresh_page_cache = \<lparr>lists = new_lists, map_base = 2 ^ 41, phys_base = 2 ^ 40, process = idle_proc,
     host_machine = \<lparr>objects = (\<lambda>_. zeroed_cache), shm_name = None, next_object = 0, world = (\<lambda>a. ucast a, ())\<rparr>,
     pio_nodes = Map.empty\<rparr>"

lemma fill_free_heap: "hash_heap (fill_free i n s) = hash_heap s"
  by (induction n arbitrary: i s) (simp_all add: Let_def)

lemma fresh_pool:
  "pool (lists fresh_page_cache) [] ([131071, 131070, 131069] @ rev [0..<131069])"
  "card (dom (hash_heap (lists fresh_page_cache))) = 0"
proof -
  have step: "rev [0..<Suc (Suc (Suc n))] = [Suc (Suc n), Suc n, n] @ rev [0..<n]" for n by simp
  have size: "Suc 131069 = 131070" "Suc 131070 = 131071" "Suc 131071 = CACHE_SIZE"
    by (simp_all add: CACHE_SIZE_def)
  note free = step [of 131069, unfolded size]
  show "pool (lists fresh_page_cache) [] ([131071, 131070, 131069] @ rev [0..<131069])"
    using new_lists_pool unfolding free by (simp only: fresh_page_cache_def page_cache.simps)
  show "card (dom (hash_heap (lists fresh_page_cache))) = 0"
    by (simp add: fresh_page_cache_def new_lists_def fill_free_heap empty_lists_def)
qed

lemma high_buffers:
  assumes "phys_base c = 2 ^ 40" and "j + n \<le> 2 ^ 40"
  shows "area (of_nat j) n \<inter> page_memory c = {}"
proof -
  have "page_memory c = area (0 + of_nat (2 ^ 40)) (2 ^ 29)" by (simp add: page_memory_def assms(1) CACHE_SIZE_def)
  moreover have "area (0 + of_nat j) n \<inter> area (0 + of_nat (2 ^ 40)) (2 ^ 29) = {}" by (rule area_apart) (use assms(2) in simp_all)
  ultimately show ?thesis by simp
qed

lemma fresh_buffers: "j + n \<le> 2 ^ 40 \<Longrightarrow> area (of_nat j) n \<inter> page_memory fresh_page_cache = {}"
  by (rule high_buffers) (simp_all add: fresh_page_cache_def)

lemma sample_stream_mode: "u_mode sample_stream AND U_OWRITE \<noteq> 0"
  by (simp add: sample_stream_def new_stream_def U_OREAD_def U_OWRITE_def Let_def)

lemma quiet_env_malloc: "allocates (malloc_entry quiet_env)"
  by (simp add: quiet_env_def first_free_allocates)

lemma fresh_mem: "mem fresh_page_cache a = ucast a"
  by (simp add: mem_def fresh_page_cache_def)

section \<open>Writing, then reading\<close>

lemma write_read_exact:
  fixes c :: "'d page_cache"
  assumes pool: "pool (lists c) ps (qs @ fs)" and mode: "u_mode stream AND U_OWRITE \<noteq> 0"
    and size: "unat esize * unat count = n" "esize \<noteq> 0" and n: "0 < n" "n \<le> frame_size * CACHE_SIZE"
    and exact: "n \<le> 8192 \<or> frame_size dvd n"
    and len: "length qs = (n + 4095) div frame_size" and qs: "set qs \<subseteq> {..<CACHE_SIZE}"
    and new: "\<And>j. j < length qs \<Longrightarrow> (u_path stream, file_page stream + of_nat j) \<notin> page_key (lists c) ` set ps"
    and apart: "area buf n \<inter> page_memory c = {}" "area dest n \<inter> page_memory c = {}"
    and malloc: "allocates (malloc_entry env)" "card (dom (hash_heap (lists c))) + length qs < 2 ^ 64"
  shows "\<exists>c1 c2. uwrite env buf esize count stream c = Some (c1, count)
    \<and> uread env dest esize count stream c1 = Some (c2, count)
    \<and> (\<forall>k < n. mem c2 (dest + of_nat k) = mem c (buf + of_nat k))
    \<and> (\<forall>a. a \<notin> area dest n \<union> page_memory c \<longrightarrow> mem c2 a = mem c a)"
proof -
  note rt = read_total_exact [OF exact]
  have dest: "area dest (read_total n) \<inter> page_memory c = {}" unfolding rt by (fact apart(2))
  obtain c1 c2 where c12: "uwrite env buf esize count stream c = Some (c1, count)"
    "uread env dest esize count stream c1 = Some (c2, of_nat n div esize)"
    "holds_bytes (mem c1) (page_data c1) qs (mem c) buf 0 n"
    "reads_prefix (mem c2) dest n (page_data c1) qs (mem c1)"
    "\<forall>a. a \<notin> area dest n \<union> page_memory c \<longrightarrow> mem c2 a = mem c a"
    by (rule write_read [OF pool mode size n len qs new apart(1) dest malloc, unfolded rt]) (assumption, rule that, assumption+)
  have "n < 2 ^ 32" using n(2) by (simp add: CACHE_SIZE_def)
  from request_words(3) [OF size(1) this size(2)] have "of_nat n div esize = count" .
  note read = c12(2) [unfolded this]
  have cover: "n \<le> frame_size * length qs" unfolding len by (rule chunks_cover)
  have "\<forall>k < n. mem c2 (dest + of_nat k) = mem c (buf + of_nat k)"
  proof (intro allI impI)
    fix k assume k: "k < n"
    show "mem c2 (dest + of_nat k) = mem c (buf + of_nat k)"
      unfolding prefix_byte [OF c12(4) cover k] by (rule held_byte [OF c12(3) cover k])
  qed
  with c12(1,5) read show ?thesis by (intro exI conjI)
qed

text \<open>
  C36. What \<open>uwrite\<close> stores in new pages, \<open>uread\<close> at the same position gives back byte for byte, for a request
  of whole pages or of at most 8192 bytes: both return the number of items asked for, and no memory changes
  outside the pages and the destination. The pages fit into the free ones and are not in the page cache before. Longer
  requests that end inside a page are read past their end (next theorem).
\<close>

theorem write_then_read:
  fixes c :: "'d page_cache"
  assumes pool: "pool (lists c) ps (qs @ fs)" and mode: "u_mode stream AND U_OWRITE \<noteq> 0"
    and size: "unat esize * unat count = n" "esize \<noteq> 0" and n: "0 < n" "n \<le> frame_size * CACHE_SIZE"
    and exact: "n \<le> 8192 \<or> frame_size dvd n"
    and len: "length qs = (n + 4095) div frame_size" and qs: "set qs \<subseteq> {..<CACHE_SIZE}"
    and new: "\<And>j. j < length qs \<Longrightarrow> (u_path stream, file_page stream + of_nat j) \<notin> page_key (lists c) ` set ps"
    and apart: "area buf n \<inter> page_memory c = {}" "area dest n \<inter> page_memory c = {}"
    and malloc: "allocates (malloc_entry env)" "card (dom (hash_heap (lists c))) + length qs < 2 ^ 64"
  shows "\<exists>c1 c2. uwrite env buf esize count stream c = Some (c1, count)
    \<and> uread env dest esize count stream c1 = Some (c2, count)
    \<and> (\<forall>k < n. mem c2 (dest + of_nat k) = mem c (buf + of_nat k))
    \<and> (\<forall>a. a \<notin> area dest n \<union> page_memory c \<longrightarrow> mem c2 a = mem c a)"
  by (rule write_read_exact [OF assms])

theorem write_then_read_witness:
  "\<exists>c1 c2. uwrite quiet_env (of_nat (2 ^ 30)) 1 8192 sample_stream fresh_page_cache = Some (c1, 8192)
     \<and> uread quiet_env (of_nat (2 ^ 31)) 1 8192 sample_stream c1 = Some (c2, 8192)
     \<and> (\<forall>k < 8192. mem c2 (of_nat (2 ^ 31) + of_nat k) = ucast (of_nat (2 ^ 30) + of_nat k :: u64))"
proof -
  have pool: "pool (lists fresh_page_cache) [] ([131071, 131070] @ (131069 # rev [0..<131069]))"
    using fresh_pool(1) by simp
  have size: "unat (1 :: u64) * unat (8192 :: u64) = 8192" by simp
  have bounds: "0 < (8192 :: nat)" "(8192 :: nat) \<le> frame_size * CACHE_SIZE" "(8192 :: nat) \<le> 8192 \<or> frame_size dvd 8192"
    "length [131071, 131070 :: nat] = (8192 + 4095) div frame_size" "set [131071, 131070 :: nat] \<subseteq> {..<CACHE_SIZE}"
    by (simp_all add: CACHE_SIZE_def)
  have buffers: "area (of_nat (2 ^ 30)) 8192 \<inter> page_memory fresh_page_cache = {}"
    "area (of_nat (2 ^ 31)) 8192 \<inter> page_memory fresh_page_cache = {}"
    by (rule fresh_buffers; simp)+
  have heap: "card (dom (hash_heap (lists fresh_page_cache))) + length [131071, 131070 :: nat] < 2 ^ 64"
    unfolding fresh_pool(2) by simp
  from write_then_read [OF pool sample_stream_mode size _ bounds _ buffers quiet_env_malloc heap] show ?thesis
    by (simp only: fresh_mem) auto
qed

text \<open>
  C39. For a longer request that does not end on a page boundary, \<open>uread\<close> copies the whole of the last page: it
  writes past the end of the buffer, with whatever the page holds there, and counts these bytes as read.
\<close>

theorem uread_overrun:
  fixes c :: "'d page_cache"
  assumes pool: "pool (lists c) ps (qs @ fs)" and mode: "u_mode stream AND U_OWRITE \<noteq> 0"
    and size: "unat esize * unat count = n" "esize \<noteq> 0" and n: "8192 < n" "n \<le> frame_size * CACHE_SIZE"
    and odd: "\<not> frame_size dvd n"
    and len: "length qs = (n + 4095) div frame_size" and qs: "set qs \<subseteq> {..<CACHE_SIZE}"
    and new: "\<And>j. j < length qs \<Longrightarrow> (u_path stream, file_page stream + of_nat j) \<notin> page_key (lists c) ` set ps"
    and apart: "area buf n \<inter> page_memory c = {}" "area dest (n + frame_size) \<inter> page_memory c = {}"
    and malloc: "allocates (malloc_entry env)" "card (dom (hash_heap (lists c))) + length qs < 2 ^ 64"
  shows "\<exists>c1 c2. uwrite env buf esize count stream c = Some (c1, count)
    \<and> uread env dest esize count stream c1 = Some (c2, of_nat (frame_size * length qs) div esize)
    \<and> n < frame_size * length qs
    \<and> (\<forall>k. n \<le> k \<and> k < frame_size * length qs \<longrightarrow>
        mem c2 (dest + of_nat k) = mem c1 (page_data c1 (last qs) + of_nat (k mod frame_size)))"
proof -
  have rt: "read_total n = frame_size * length qs" using n(1) len by (simp add: read_total_def)
  note bound = read_total_less(2,3) [OF n(1) odd]
  have "area dest (read_total n) \<subseteq> area dest (n + frame_size)" using bound by (intro area_mono) simp
  then have dest: "area dest (read_total n) \<inter> page_memory c = {}" using apart(2) by blast
  have pos: "0 < n" using n(1) by simp
  obtain c1 c2 where c12: "uwrite env buf esize count stream c = Some (c1, count)"
    "uread env dest esize count stream c1 = Some (c2, of_nat (read_total n) div esize)"
    "reads_prefix (mem c2) dest (read_total n) (page_data c1) qs (mem c1)"
    by (rule write_read [OF pool mode size pos n(2) len qs new apart(1) dest malloc]) (assumption, rule that, assumption+)
  have "mem c2 (dest + of_nat k) = mem c1 (page_data c1 (last qs) + of_nat (k mod frame_size))"
    if k: "n \<le> k" "k < frame_size * length qs" for k
  proof -
    have "k div frame_size = length qs - 1"
    proof (rule div_nat_eqI)
      show "frame_size * (length qs - 1) \<le> k" using k(1) bound rt by linarith
      show "k < frame_size * Suc (length qs - 1)" using k(2) by (cases qs) simp_all
    qed
    moreover have qs0: "qs \<noteq> []" using k(2) by auto
    ultimately have lastk: "qs ! (k div frame_size) = last qs" by (simp add: last_conv_nth)
    from prefix_byte [OF c12(3) _ k(2) [folded rt]] show ?thesis unfolding lastk rt by simp
  qed
  with c12(1,2) bound show ?thesis unfolding rt by blast
qed


theorem uread_overrun_witness:
  "\<exists>c1 c2. uwrite quiet_env (of_nat (2 ^ 30)) 1 8193 sample_stream fresh_page_cache = Some (c1, 8193)
     \<and> uread quiet_env (of_nat (2 ^ 31)) 1 8193 sample_stream c1 = Some (c2, 12288)
     \<and> (\<forall>k. 8193 \<le> k \<and> k < 12288 \<longrightarrow>
          mem c2 (of_nat (2 ^ 31) + of_nat k) = mem c1 (page_data c1 131069 + of_nat (k mod frame_size)))"
proof -
  have size: "unat (1 :: u64) * unat (8193 :: u64) = 8193" by simp
  have bounds: "8192 < (8193 :: nat)" "(8193 :: nat) \<le> frame_size * CACHE_SIZE" "\<not> frame_size dvd 8193"
    "length [131071, 131070, 131069 :: nat] = (8193 + 4095) div frame_size"
    "set [131071, 131070, 131069 :: nat] \<subseteq> {..<CACHE_SIZE}"
    by (simp_all add: CACHE_SIZE_def)
  have buffers: "area (of_nat (2 ^ 30)) 8193 \<inter> page_memory fresh_page_cache = {}"
    "area (of_nat (2 ^ 31)) (8193 + frame_size) \<inter> page_memory fresh_page_cache = {}"
    by (rule fresh_buffers; simp)+
  have heap: "card (dom (hash_heap (lists fresh_page_cache))) + length [131071, 131070, 131069 :: nat] < 2 ^ 64"
    unfolding fresh_pool(2) by simp
  from uread_overrun [OF fresh_pool(1) sample_stream_mode size _ bounds _ buffers quiet_env_malloc heap] show ?thesis
    by simp
qed

end
