(* ===== verification/FioEngine.thy ===== *)
theory FioEngine
  imports UPageSystem
begin

text \<open>
  The engines through which \<^verbatim>\<open>fio\<close> drives the library: \<^verbatim>\<open>ssd-cache-manager.c\<close> and \<^verbatim>\<open>ssd-cache-tester.c\<close> (requests
  to the SSD cache), \<^verbatim>\<open>myspdk.c\<close> (the bare device) and \<^verbatim>\<open>page-cache/fio/myfio.c\<close> (the page cache). What \<^verbatim>\<open>fio\<close>
  hands to an engine is the record \<open>io_u\<close>. Messages are left out, and a failed \<^verbatim>\<open>assert\<close> is \<^const>\<open>None\<close>.
\<close>

section \<open>Engines\<close>

datatype ddir = DDIR_READ | DDIR_WRITE | DDIR_OTHER

record io_u =
  io_ddir :: ddir
  file_name :: path
  file_fd :: int
  offset_bytes :: u64
  xfer_buf :: u64
  buflen :: u64

subsection \<open>Requests to the SSD cache\<close>

partial_function (option) append_buffers :: "(pio_heap \<Rightarrow> u64) \<Rightarrow> u64 \<Rightarrow> u64 \<Rightarrow> u64 \<Rightarrow> u64 \<Rightarrow> pio_heap \<Rightarrow> pio_heap option" where
  "append_buffers malloc p buf len offset h =
     (if offset < len then do {
        h \<leftarrow> append_pio malloc h p (buf + offset);
        append_buffers malloc p buf len (offset + ucast PAGE_SIZE) h }
      else Some h)"

definition request_cnt :: "io_u \<Rightarrow> u32" where
  "request_cnt io = (if buflen io = 4096 then 1 else 8)"

definition build_request :: "u64 \<Rightarrow> (pio_heap \<Rightarrow> u64) \<Rightarrow> io_u \<Rightarrow> operate \<Rightarrow> pio_heap \<Rightarrow> (pio_heap \<times> u64) option" where
  "build_request start malloc io op h =
     (case create_pio malloc h (file_name io) (file_fd io) (ucast (drop_bit 12 (offset_bytes io))) op
             (xfer_buf io) (request_cnt io) of (h, p) \<Rightarrow> do {
        h \<leftarrow> append_buffers malloc p (xfer_buf io) (buflen io) start h;
        Some (h, p) })"

definition queue_request :: "u64 \<Rightarrow> 'w system \<Rightarrow> (pio_heap \<Rightarrow> u64) \<Rightarrow> io_u \<Rightarrow> pio_heap \<times> proc \<times> 'w machine \<Rightarrow>
    (pio_heap \<times> proc \<times> 'w machine) option" where
  "queue_request start sys malloc io = (\<lambda>(h, PM).
     if io_ddir io = DDIR_OTHER then None
     else do {
       (h, p) \<leftarrow> build_request start malloc io (if io_ddir io = DDIR_READ then READ else WRITE) h;
       (PM, _) \<leftarrow> submit_pio sys h PM p;
       h \<leftarrow> free_pio h p;
       Some (h, PM) })"

definition tester_start :: u64 where "tester_start = ucast PAGE_SIZE"
definition manager_start :: u64 where "manager_start = 0"

definition tester_queue :: "'w system \<Rightarrow> (pio_heap \<Rightarrow> u64) \<Rightarrow> io_u \<Rightarrow> pio_heap \<times> proc \<times> 'w machine \<Rightarrow>
    (pio_heap \<times> proc \<times> 'w machine) option" where
  "tester_queue = queue_request tester_start"

definition manager_queue :: "'w system \<Rightarrow> (pio_heap \<Rightarrow> u64) \<Rightarrow> io_u \<Rightarrow> pio_heap \<times> proc \<times> 'w machine \<Rightarrow>
    (pio_heap \<times> proc \<times> 'w machine) option" where
  "manager_queue = queue_request manager_start"

definition manager_setup :: "'w os \<Rightarrow> proc \<times> 'w machine \<Rightarrow> (proc \<times> 'w machine) \<times> int" where
  "manager_setup os PM = (force_exit_ssd_cache os PM, 0)"

text \<open>The first component is the static variable \<open>isinit\<close>.\<close>

definition manager_init :: "'w os \<Rightarrow> 'w system \<Rightarrow> bool \<times> proc \<times> 'w machine \<Rightarrow> ((bool \<times> proc \<times> 'w machine) \<times> int) option" where
  "manager_init os sys = (\<lambda>(isinit, PM).
     if \<not> isinit then do { (PM, _) \<leftarrow> init_ssd_cache os sys PM; Some ((True, PM), 0) }
     else Some ((isinit, PM), 0))"

definition tester_init :: "'w os \<Rightarrow> 'w system \<Rightarrow> proc \<times> 'w machine \<Rightarrow> ((proc \<times> 'w machine) \<times> int) option" where
  "tester_init os sys PM = link_ssd_cache os sys PM"

definition tester_cleanup :: "'w os \<Rightarrow> 'w system \<Rightarrow> proc \<times> 'w machine \<Rightarrow> (proc \<times> 'w machine) option" where
  "tester_cleanup os sys PM = do { (PM, _) \<leftarrow> unlink_ssd_cache os sys PM; Some PM }"

subsection \<open>The bare device\<close>

definition myspdk_init :: "'w system \<Rightarrow> target \<times> 'w \<Rightarrow> ((target \<times> 'w) \<times> int) option" where
  "myspdk_init sys tw = do { (tw, _) \<leftarrow> init_spdk sys tw; Some (tw, 0) }"

definition myspdk_queue :: "'w system \<Rightarrow> target \<Rightarrow> io_u \<Rightarrow> 'w \<Rightarrow> 'w option" where
  "myspdk_queue sys t io w =
     (case io_ddir io of
        DDIR_READ \<Rightarrow> do { (_, w) \<leftarrow> read_spdk sys t (xfer_buf io) (drop_bit 9 (offset_bytes io)) 8 IO_QUEUE w; Some w }
      | DDIR_WRITE \<Rightarrow> do { (_, w) \<leftarrow> write_spdk sys t (xfer_buf io) (drop_bit 9 (offset_bytes io)) 8 IO_QUEUE w; Some w }
      | DDIR_OTHER \<Rightarrow> None)"

subsection \<open>The page cache\<close>

definition page_engine_init :: "'d env \<Rightarrow> 'd page_cache \<Rightarrow> ('d page_cache \<times> int) option" where
  "page_engine_init env c = do { (c, rc) \<leftarrow> init_page_cache env c; Some (c, if rc \<noteq> 0 then 1 else 0) }"

definition page_engine_queue :: "'d env \<Rightarrow> io_u \<Rightarrow> 'd page_cache \<Rightarrow> 'd page_cache option" where
  "page_engine_queue env io c =
     (case io_ddir io of
        DDIR_READ \<Rightarrow> do {
          (c, file, stream) \<leftarrow> uopen env (file_name io) ''r'' c;
          let stream = useek stream (offset_bytes io);
          (c, _) \<leftarrow> uread env (xfer_buf io) 1 (buflen io) stream c;
          Some (fst (uclose env file stream c)) }
      | DDIR_WRITE \<Rightarrow> do {
          (c, file, stream) \<leftarrow> uopen env (file_name io) ''w'' c;
          let stream = useek stream (offset_bytes io);
          (c, _) \<leftarrow> uwrite env (xfer_buf io) 1 (buflen io) stream c;
          Some (fst (uclose env file stream c)) }
      | DDIR_OTHER \<Rightarrow> None)"

section \<open>The list an engine builds\<close>

text \<open>The page and the buffer of each node.\<close>

definition node_pages :: "(u64 \<times> pio) list \<Rightarrow> (u32 \<times> u64) list" where
  "node_pages ns = map (\<lambda>(a, node). (page_index node, buffer node)) ns"

lemma page_vector_pages: "page_vector ns = map (\<lambda>(i, b). \<lparr>iov_base = b, iov_len = ucast PAGE_SIZE\<rparr>) (node_pages ns)"
  by (simp add: page_vector_def node_pages_def case_prod_unfold)

lemma node_pages_length: "length (node_pages ns) = length ns"
  by (simp add: node_pages_def)

text \<open>A heap that holds the list and otherwise what it held before.\<close>

definition holds_request :: "pio_heap \<Rightarrow> pio_heap \<Rightarrow> u64 \<Rightarrow> (u64 \<times> pio) list \<Rightarrow> bool" where
  "holds_request h0 h p ns \<longleftrightarrow> pio_list h p ns \<and> (\<lambda>a. if a \<in> fst ` set ns then None else h a) = h0
     \<and> h 0 = None \<and> card (dom h) \<le> card (dom h0) + length ns"

lemma append_request:
  assumes rep: "holds_request h0 h p ns" and ns: "ns \<noteq> []"
    and malloc: "allocates malloc" "card (dom h0) + length ns < 2 ^ 64 - 1"
  shows "\<exists>h' ns'. append_pio malloc h p b = Some h' \<and> holds_request h0 h' p ns'
    \<and> node_pages ns' = node_pages ns @ [(fst (last (node_pages ns)) + 1, b)]"
proof -
  obtain as a node where split: "ns = as @ [(a, node)]" using ns by (cases ns rule: rev_cases) auto
  have list: "pio_list h p (as @ [(a, node)])" and card: "card (dom h) \<le> card (dom h0) + length ns" and null: "h 0 = None"
    using rep by (simp_all add: holds_request_def split)
  have rest: "h0 x = (if x \<in> fst ` set ns then None else h x)" for x
  proof -
    have "(\<lambda>a. if a \<in> fst ` set ns then None else h a) = h0" using rep by (simp only: holds_request_def)
    from fun_cong [OF this, of x] show ?thesis by (rule sym)
  qed
  note room = allocates_room [OF malloc(1), of h]
  have new: "malloc h \<noteq> 0" "h (malloc h) = None" using room card malloc(2) by simp_all
  let ?new = "node\<lparr>page_index := page_index node + 1, buffer := b, pio_next := 0\<rparr>"
  let ?h = "h(malloc h \<mapsto> ?new, a \<mapsto> node\<lparr>pio_next := malloc h\<rparr>)"
  let ?ns = "as @ [(a, node\<lparr>pio_next := malloc h\<rparr>), (malloc h, ?new)]"
  note append = append_pio_list [where malloc = malloc, OF list new, where buf = b]
  have a: "h a = Some node" using pio_list_dom [OF list, of a node] by simp
  then have "a \<noteq> 0" using null by auto
  have "(\<lambda>x. if x \<in> fst ` set ?ns then None else ?h x) = h0"
    using new(2) by (auto simp: fun_eq_iff rest split)
  moreover have "card (dom ?h) \<le> card (dom h0) + length ?ns"
  proof -
    have "dom ?h = insert (malloc h) (dom h)" using a by auto
    then show ?thesis using card by (simp add: card_insert_if split)
  qed
  ultimately have "holds_request h0 ?h p ?ns"
    using append(2) null new(1) \<open>a \<noteq> 0\<close> by (simp add: holds_request_def)
  moreover have "node_pages ?ns = node_pages ns @ [(fst (last (node_pages ns)) + 1, b)]"
    by (simp add: node_pages_def split)
  ultimately show ?thesis using append(1) by blast
qed

text \<open>The loop: page \<open>first + j\<close> is at \<open>g j\<close>.\<close>

lemma append_buffers_request:
  assumes "holds_request h0 h p ns" and "ns \<noteq> []"
    and "node_pages ns = map (\<lambda>j. (first_page + of_nat j, g j)) [0..<length ns]"
    and "\<And>j. j < k \<Longrightarrow> g (length ns + j) = buf + of_nat (4096 * (i + j))"
    and "allocates malloc" and "card (dom h0) + length ns + k < 2 ^ 64 - 1" and "4096 * (i + k) < 2 ^ 63"
  shows "\<exists>h' ns'. append_buffers malloc p buf (of_nat (4096 * (i + k))) (of_nat (4096 * i)) h = Some h'
    \<and> holds_request h0 h' p ns' \<and> node_pages ns' = map (\<lambda>j. (first_page + of_nat j, g j)) [0..<length ns + k]"
  using assms
proof (induction k arbitrary: h ns i)
  case 0
  then show ?case by (subst append_buffers.simps) auto
next
  case (Suc k)
  have less: "(of_nat (4096 * i) :: u64) < of_nat (4096 * (i + Suc k))"
    using Suc.prems(7) by (simp add: word_less_nat_alt unat_of_nat del: of_nat_mult of_nat_add of_nat_Suc)
  have g0: "g (length ns) = buf + of_nat (4096 * i)" using Suc.prems(4) [of 0] by simp
  have "fst (last (node_pages ns)) + 1 = first_page + of_nat (length ns)"
    using Suc.prems(2) unfolding Suc.prems(3) by (cases "length ns") (simp_all add: algebra_simps)
  with append_request [OF Suc.prems(1,2,5), of "buf + of_nat (4096 * i)"] Suc.prems(6) obtain h1 ns1 where
    step: "append_pio malloc h p (buf + of_nat (4096 * i)) = Some h1" "holds_request h0 h1 p ns1"
      "node_pages ns1 = node_pages ns @ [(first_page + of_nat (length ns), buf + of_nat (4096 * i))]"
    by auto
  have len: "length ns1 = Suc (length ns)" using step(3) by (metis length_append_singleton node_pages_length)
  have pages: "node_pages ns1 = map (\<lambda>j. (first_page + of_nat j, g j)) [0..<length ns1]"
    unfolding step(3) len Suc.prems(3) by (simp add: g0)
  have "ns1 \<noteq> []" using len by auto
  have g: "g (length ns1 + j) = buf + of_nat (4096 * (Suc i + j))" if "j < k" for j
    using Suc.prems(4) [of "Suc j"] that by (simp add: len)
  have room: "card (dom h0) + length ns1 + k < 2 ^ 64 - 1" "4096 * (Suc i + k) < 2 ^ 63"
    using Suc.prems(6,7) len by simp_all
  from Suc.IH [OF step(2) \<open>ns1 \<noteq> []\<close> pages g Suc.prems(5) room] obtain h' ns' where
    "append_buffers malloc p buf (of_nat (4096 * (Suc i + k))) (of_nat (4096 * Suc i)) h1 = Some h'"
    "holds_request h0 h' p ns'" "node_pages ns' = map (\<lambda>j. (first_page + of_nat j, g j)) [0..<length ns1 + k]"
    by blast
  moreover have "of_nat (4096 * i) + ucast PAGE_SIZE = (of_nat (4096 * Suc i) :: u64)" by (simp add: PAGE_SIZE_eq)
  moreover have "Suc i + k = i + Suc k" "length ns1 + k = length ns + Suc k" using len by simp_all
  ultimately show ?case
    using less step(1) by (subst append_buffers.simps)
      (simp only: if_True bind_eq_Some_conv option.inject ex_simps simp_thms, blast)
qed

lemma build_request_list:
  assumes len: "buflen io = of_nat (4096 * m)" "0 < m" "4096 * m < 2 ^ 63" and i: "i \<le> 1"
    and malloc: "allocates malloc" and h: "h 0 = None" "card (dom h) + m + 1 < 2 ^ 64 - 1"
  obtains h' p ns where "build_request (of_nat (4096 * i)) malloc io op h = Some (h', p)" "holds_request h h' p ns"
    "node_pages ns = map (\<lambda>j. (ucast (drop_bit 12 (offset_bytes io)) + of_nat j, xfer_buf io + of_nat (4096 * (i + j - 1)))) [0..<1 + (m - i)]"
proof -
  let ?index = "ucast (drop_bit 12 (offset_bytes io)) :: u32" and ?p = "malloc h"
  let ?g = "\<lambda>j. xfer_buf io + of_nat (4096 * (i + j - 1)) :: u64"
  let ?node = "\<lparr>pio_path = file_name io, pio_fd = file_fd io, page_index = ?index, operation = op,
    buffer = xfer_buf io, pio_cnt = request_cnt io, pio_next = 0\<rparr>"
  have room: "?p \<noteq> 0" "h ?p = None" using allocates_room [OF malloc, of h] h(2) by simp_all
  let ?h = "h(?p \<mapsto> ?node)"
  have "(\<lambda>a. if a \<in> fst ` set [(?p, ?node)] then None else ?h a) = h" using room(2) by (auto simp: fun_eq_iff)
  moreover have "card (dom ?h) \<le> card (dom h) + 1" using room(2) by (simp add: card_insert_if)
  ultimately have start: "holds_request h ?h ?p [(?p, ?node)]" using room h(1) by (simp add: holds_request_def)
  have "4096 * (i - 1) = 0" using i by simp
  then have pages: "node_pages [(?p, ?node)] = map (\<lambda>j. (?index + of_nat j, ?g j)) [0..<length [(?p, ?node)]]"
    by (simp add: node_pages_def)
  have whole: "i + (m - i) = m" using i len(2) by simp
  have g: "?g (length [(?p, ?node)] + j) = xfer_buf io + of_nat (4096 * (i + j))" for j by simp
  have bounds: "card (dom h) + length [(?p, ?node)] + (m - i) < 2 ^ 64 - 1" "4096 * (i + (m - i)) < 2 ^ 63"
    using h(2) len(3) whole by simp_all
  from append_buffers_request [OF start _ pages g malloc bounds] obtain h' ns where
    "append_buffers malloc ?p (xfer_buf io) (of_nat (4096 * m)) (of_nat (4096 * i)) ?h = Some h'"
    "holds_request h h' ?p ns" "node_pages ns = map (\<lambda>j. (?index + of_nat j, ?g j)) [0..<1 + (m - i)]"
    unfolding whole by auto
  moreover have "create_pio malloc h (file_name io) (file_fd io) ?index op (xfer_buf io) (request_cnt io) = (?h, ?p)"
    using room(1) by (simp add: create_pio_def Let_def)
  ultimately show ?thesis using that [of h' ?p ns] by (simp add: build_request_def len(1))
qed

lemma request_vector_list:
  assumes "holds_request h0 h p ns" and "node_pages ns = map (\<lambda>j. (index j, base j)) [0..<length ns]"
  shows "free_pio h p = Some h0"
    and "pio_to_iovec h p n =
      (if n \<le> length ns then Some (map (\<lambda>j. \<lparr>iov_base = base j, iov_len = ucast PAGE_SIZE\<rparr>) [0..<n]) else None)"
proof -
  have list: "pio_list h p ns" and null: "h 0 = None" and rest: "(\<lambda>a. if a \<in> fst ` set ns then None else h a) = h0"
    using assms(1) unfolding holds_request_def by blast+
  show "free_pio h p = Some h0" using free_pio_list [OF list] unfolding rest .
  have "page_vector (take n ns) = map (\<lambda>j. \<lparr>iov_base = base j, iov_len = ucast PAGE_SIZE\<rparr>) [0..<n]" if "n \<le> length ns"
  proof -
    have "node_pages (take n ns) = map (\<lambda>j. (index j, base j)) (take n [0..<length ns])"
      unfolding node_pages_def take_map [symmetric] using assms(2) by (simp add: node_pages_def take_map)
    with that show ?thesis unfolding page_vector_pages by simp
  qed
  then show "pio_to_iovec h p n =
      (if n \<le> length ns then Some (map (\<lambda>j. \<lparr>iov_base = base j, iov_len = ucast PAGE_SIZE\<rparr>) [0..<n]) else None)"
    using pio_to_iovec_take [OF list, of n] pio_to_iovec_short [OF list null, of n] by auto
qed

section \<open>Writing and reading back through the page cache engine\<close>

lemma uread_stream:
  "u_path s = u_path t \<Longrightarrow> io_offset s = io_offset t \<Longrightarrow> uread env buf esize count s c = uread env buf esize count t c"
  by (simp add: uread_def)

text \<open>When the memory for the open file can be had and leaves the machine as it is.\<close>

definition dma_calm :: "'d env \<Rightarrow> bool" where
  "dma_calm env \<longleftrightarrow> (\<forall>n w. fst (alloc_dma env n w) \<noteq> 0 \<and> snd (alloc_dma env n w) = w) \<and> (\<forall>a w. free_dma env a w = w)"

lemma dma_calm_files:
  assumes "dma_calm env"
  shows "\<exists>file. uopen env name mode c = Some (c, file, new_stream name mode)" and "fst (uclose env file stream c) = c"
proof -
  have same: "set_world (world (host_machine c)) c = c" by (simp add: set_world_def)
  show "\<exists>file. uopen env name mode c = Some (c, file, new_stream name mode)"
    using assms same by (simp add: uopen_def dma_calm_def case_prod_unfold del: split_paired_All)
  show "fst (uclose env file stream c) = c"
    using assms same by (simp add: uclose_def dma_calm_def del: split_paired_All)
qed

lemma page_engine_write_read:
  assumes calm: "dma_calm env" and "pool (lists c) ps (qs @ fs)"
    and n: "unat (buflen io) = n" "0 < n" "n \<le> frame_size * CACHE_SIZE" "n \<le> 8192 \<or> frame_size dvd n"
    and "length qs = (n + 4095) div frame_size" and "set qs \<subseteq> {..<CACHE_SIZE}"
    and new: "\<And>j. j < length qs \<Longrightarrow> (file_name io, ucast (drop_bit 12 (offset_bytes io)) + of_nat j) \<notin> page_key (lists c) ` set ps"
    and "area (xfer_buf io) n \<inter> page_memory c = {}" and "area dest n \<inter> page_memory c = {}"
    and "allocates (malloc_entry env)" and "card (dom (hash_heap (lists c))) + length qs < 2 ^ 64"
  shows "\<exists>c1 c2. page_engine_queue env (io\<lparr>io_ddir := DDIR_WRITE\<rparr>) c = Some c1
    \<and> page_engine_queue env (io\<lparr>io_ddir := DDIR_READ, xfer_buf := dest\<rparr>) c1 = Some c2
    \<and> (\<forall>k < n. mem c2 (dest + of_nat k) = mem c (xfer_buf io + of_nat k))"
proof -
  let ?w = "useek (new_stream (file_name io) ''w'') (offset_bytes io)" and ?r = "useek (new_stream (file_name io) ''r'') (offset_bytes io)"
  have w: "u_path ?w = file_name io" "io_offset ?w = offset_bytes io" "u_mode ?w AND U_OWRITE \<noteq> 0"
    by (simp_all add: useek_def new_stream_def U_OWRITE_def Let_def)
  have r: "uread env dest 1 (buflen io) ?r c' = uread env dest 1 (buflen io) ?w c'" for c'
    by (rule uread_stream) (simp_all add: useek_def new_stream_def Let_def)
  have size: "unat (1 :: u64) * unat (buflen io) = n" using n(1) by simp
  have new': "\<And>j. j < length qs \<Longrightarrow> (u_path ?w, file_page ?w + of_nat j) \<notin> page_key (lists c) ` set ps"
    unfolding file_page_def w(1,2) by (rule new)
  obtain c1 c2 where "uwrite env (xfer_buf io) 1 (buflen io) ?w c = Some (c1, buflen io)"
    "uread env dest 1 (buflen io) ?w c1 = Some (c2, buflen io)"
    "\<forall>k < n. mem c2 (dest + of_nat k) = mem c (xfer_buf io + of_nat k)"
    using write_read_exact [OF assms(2) w(3) size one_neq_zero n(2-4) assms(7,8) new' assms(10-)] by blast
  moreover obtain f where "uopen env (file_name io) ''w'' c = Some (c, f, new_stream (file_name io) ''w'')"
    using dma_calm_files(1) [OF calm] by blast
  moreover obtain g where "uopen env (file_name io) ''r'' c1 = Some (c1, g, new_stream (file_name io) ''r'')"
    using dma_calm_files(1) [OF calm] by blast
  ultimately show ?thesis using r by (simp add: page_engine_queue_def Let_def dma_calm_files(2) [OF calm])
qed

section \<open>Property\<close>

text \<open>
  C40. For a transfer of \<open>m\<close> pages, both engines build a list of requests that they free again whole. From
  it the request takes one buffer per page: in the tester's list page \<open>j\<close> has the bytes from \<open>4096 * j\<close> on, as
  it should; in the manager's list the first buffer comes twice, so that every later page is transferred
  to or from the place of the page before it. Transfers of other sizes than one page ask for 8 pages
  whatever their size: a shorter list is followed past its end, a longer one is cut off.
\<close>

theorem fio_requests:
  assumes "buflen io = of_nat (4096 * m)" and "0 < m" and "4096 * m < 2 ^ 63"
    and "allocates malloc" and "h 0 = None" and "card (dom h) + m + 1 < 2 ^ 64 - 1"
  shows "(\<exists>h' p. build_request tester_start malloc io op h = Some (h', p) \<and> free_pio h' p = Some h
      \<and> pio_to_iovec h' p (unat (request_cnt io)) =
          (if m = 1 \<or> 8 \<le> m
           then Some (map (\<lambda>j. \<lparr>iov_base = xfer_buf io + of_nat (4096 * j), iov_len = 4096\<rparr>) [0..<unat (request_cnt io)])
           else None))
    \<and> (\<exists>h' p. build_request manager_start malloc io op h = Some (h', p) \<and> free_pio h' p = Some h
      \<and> pio_to_iovec h' p (unat (request_cnt io)) =
          (if m = 1 \<or> 7 \<le> m
           then Some (map (\<lambda>j. \<lparr>iov_base = xfer_buf io + of_nat (4096 * (j - 1)), iov_len = 4096\<rparr>) [0..<unat (request_cnt io)])
           else None))"
proof -
  have "m = 1" if "(of_nat (4096 * m) :: u64) = 4096"
  proof -
    have "unat (of_nat (4096 * m) :: u64) = 4096 * m" using assms(3) by (simp add: unat_of_nat del: of_nat_mult)
    with that show ?thesis by simp
  qed
  then have "buflen io = 4096 \<longleftrightarrow> m = 1" unfolding assms(1) by auto
  then have cnt: "unat (request_cnt io) = (if m = 1 then 1 else 8)" by (simp add: request_cnt_def)
  have page: "ucast PAGE_SIZE = (4096 :: u64)" by (simp add: PAGE_SIZE_eq)
  have starts: "tester_start = of_nat (4096 * 1)" "manager_start = of_nat (4096 * 0)"
    by (simp_all add: tester_start_def manager_start_def PAGE_SIZE_eq)
  obtain h1 p1 ns1 where tester: "build_request tester_start malloc io op h = Some (h1, p1)" "holds_request h h1 p1 ns1"
    "node_pages ns1 = map (\<lambda>j. (ucast (drop_bit 12 (offset_bytes io)) + of_nat j, xfer_buf io + of_nat (4096 * (1 + j - 1)))) [0..<1 + (m - 1)]"
    unfolding starts(1) by (rule build_request_list [OF assms(1-3) order_refl assms(4-6)])
  obtain h2 p2 ns2 where manager: "build_request manager_start malloc io op h = Some (h2, p2)" "holds_request h h2 p2 ns2"
    "node_pages ns2 = map (\<lambda>j. (ucast (drop_bit 12 (offset_bytes io)) + of_nat j, xfer_buf io + of_nat (4096 * (0 + j - 1)))) [0..<1 + (m - 0)]"
    unfolding starts(2) by (rule build_request_list [OF assms(1-3) zero_le_one assms(4-6)])
  have lens: "length ns1 = 1 + (m - 1)" "length ns2 = 1 + (m - 0)"
    using arg_cong [OF tester(3), of length] arg_cong [OF manager(3), of length] by (simp_all add: node_pages_length)
  note list1 = request_vector_list [OF tester(2) tester(3) [folded lens(1)]]
  note list2 = request_vector_list [OF manager(2) manager(3) [folded lens(2)]]
  have "length ns1 = m" "unat (request_cnt io) \<le> m \<longleftrightarrow> m = 1 \<or> 8 \<le> m" using lens(1) assms(2) cnt by auto
  with list1(2) [of "unat (request_cnt io)"] have "pio_to_iovec h1 p1 (unat (request_cnt io)) =
      (if m = 1 \<or> 8 \<le> m
       then Some (map (\<lambda>j. \<lparr>iov_base = xfer_buf io + of_nat (4096 * j), iov_len = 4096\<rparr>) [0..<unat (request_cnt io)]) else None)"
    unfolding page add_diff_cancel_left' by simp
  moreover have "unat (request_cnt io) \<le> length ns2 \<longleftrightarrow> m = 1 \<or> 7 \<le> m" using lens(2) assms(2) cnt by auto
  with list2(2) [of "unat (request_cnt io)"] have "pio_to_iovec h2 p2 (unat (request_cnt io)) =
      (if m = 1 \<or> 7 \<le> m
       then Some (map (\<lambda>j. \<lparr>iov_base = xfer_buf io + of_nat (4096 * (j - 1)), iov_len = 4096\<rparr>) [0..<unat (request_cnt io)])
       else None)"
    unfolding page add_0 by simp
  ultimately show ?thesis using tester(1) list1(1) manager(1) list2(1) by blast
qed

definition eight_pages :: io_u where
  "eight_pages = \<lparr>io_ddir = DDIR_WRITE, file_name = ''f'', file_fd = 3, offset_bytes = 0, xfer_buf = 1048576, buflen = 32768\<rparr>"

theorem fio_requests_witness:
  "(\<exists>h p. build_request tester_start first_free eight_pages WRITE Map.empty = Some (h, p)
      \<and> pio_to_iovec h p 8 = Some (map (\<lambda>j. \<lparr>iov_base = 1048576 + of_nat (4096 * j), iov_len = 4096\<rparr>) [0..<8]))
   \<and> (\<exists>h p. build_request manager_start first_free eight_pages WRITE Map.empty = Some (h, p)
      \<and> pio_to_iovec h p 8 = Some (map (\<lambda>j. \<lparr>iov_base = 1048576 + of_nat (4096 * (j - 1)), iov_len = 4096\<rparr>) [0..<8]))"
proof -
  have io: "buflen eight_pages = of_nat (4096 * 8)" "xfer_buf eight_pages = 1048576" "unat (request_cnt eight_pages) = 8"
    by (simp_all add: eight_pages_def request_cnt_def)
  show ?thesis
    using fio_requests [OF io(1) _ _ first_free_allocates, of Map.empty WRITE] unfolding io(2,3) by (simp del: upt_rec_numeral upt_Suc) blast
qed

end
