(* ===== verification/BlockStore.thy ===== *)
theory BlockStore
  imports Prelude
begin

text \<open>
  What a cache in front of files holds, as bytes: a page table, the bytes of the cache device and those of
  the files together stand for one content per file. A cache block has 32 KB and holds the 32 KB of its
  file at its index. A block that is not marked has the same bytes as its file. The lemmas say what
  writing, inserting, promoting, demoting and writing back do to the content.
\<close>

section \<open>Ranges of bytes\<close>

type_synonym store = "path \<Rightarrow> nat \<Rightarrow> byte"

abbreviation cblock_bytes :: nat where
  "cblock_bytes \<equiv> 32768"

definition overwrite :: "nat \<Rightarrow> byte list \<Rightarrow> (nat \<Rightarrow> byte) \<Rightarrow> nat \<Rightarrow> byte" where
  "overwrite lo bs f = (\<lambda>a. if lo \<le> a \<and> a < lo + length bs then bs ! (a - lo) else f a)"

definition bytes_at :: "(nat \<Rightarrow> byte) \<Rightarrow> nat \<Rightarrow> nat \<Rightarrow> byte list" where
  "bytes_at f lo n = map (\<lambda>i. f (lo + i)) [0..<n]"

lemma length_bytes_at [simp]: "length (bytes_at f lo n) = n"
  by (simp add: bytes_at_def)

lemma overwrite_apply:
  "lo \<le> a \<Longrightarrow> a < lo + length bs \<Longrightarrow> overwrite lo bs f a = bs ! (a - lo)"
  "a < lo \<or> lo + length bs \<le> a \<Longrightarrow> overwrite lo bs f a = f a"
  by (auto simp: overwrite_def)

lemma overwrite_same: "overwrite lo (bytes_at f lo n) f = f"
  by (auto simp: overwrite_def bytes_at_def fun_eq_iff nth_map)

lemma overwrite_bytes_at: "x < n \<Longrightarrow> overwrite 0 (bytes_at f lo n) g x = f (lo + x)"
  by (simp add: overwrite_def bytes_at_def)

section \<open>Blocks\<close>

text \<open>The place of byte \<open>a\<close> of a file: its block and the offset in it.\<close>

lemma block_split:
  assumes "a < 2 ^ 32"
  shows "unat (of_nat (a div cblock_bytes) :: u32) = a div cblock_bytes" and "a div cblock_bytes < 2 ^ 17"
    and "cblock_bytes * (a div cblock_bytes) + a mod cblock_bytes = a" and "a mod cblock_bytes < cblock_bytes"
proof -
  show small: "a div cblock_bytes < 2 ^ 17" using assms by (simp add: less_mult_imp_div_less)
  then show "unat (of_nat (a div cblock_bytes) :: u32) = a div cblock_bytes" by (simp add: unat_of_nat_u32)
  show "cblock_bytes * (a div cblock_bytes) + a mod cblock_bytes = a" "a mod cblock_bytes < cblock_bytes" by simp_all
qed

lemma block_join:
  assumes "x < cblock_bytes" and "y < cblock_bytes" and "cblock_bytes * m + x = cblock_bytes * n + y"
  shows "m = n" and "x = y"
proof -
  have "(cblock_bytes * m + x) div cblock_bytes = m" "(cblock_bytes * n + y) div cblock_bytes = n"
    using assms(1,2) by simp_all
  with assms(3) show "m = n" by (simp only:)
  with assms(3) show "x = y" by simp
qed

text \<open>Overwriting inside one block, seen from a byte given by its block and offset.\<close>

lemma overwrite_block:
  assumes "lo + length bs \<le> cblock_bytes" and "x < cblock_bytes"
  shows "overwrite (cblock_bytes * m + lo) bs f (cblock_bytes * n + x) =
    (if n = m then overwrite lo bs (\<lambda>y. f (cblock_bytes * m + y)) x else f (cblock_bytes * n + x))"
proof (cases "n = m")
  case True
  then show ?thesis by (simp add: overwrite_def)
next
  case False
  have "\<not> (cblock_bytes * m + lo \<le> cblock_bytes * n + x \<and> cblock_bytes * n + x < cblock_bytes * m + lo + length bs)"
  proof
    assume *: "cblock_bytes * m + lo \<le> cblock_bytes * n + x \<and> cblock_bytes * n + x < cblock_bytes * m + lo + length bs"
    then obtain d where d: "cblock_bytes * n + x = cblock_bytes * m + (lo + d)" "d < length bs"
      using le_Suc_ex by (metis add.assoc nat_add_left_cancel_less)
    then have "lo + d < cblock_bytes" using assms(1) by linarith
    from block_join(1) [OF assms(2) this d(1)] False show False by simp
  qed
  with False show ?thesis by (auto simp: overwrite_def)
qed

section \<open>The content of the files\<close>

definition content :: "(key \<Rightarrow> u32 option) \<Rightarrow> (nat \<Rightarrow> byte) \<Rightarrow> store \<Rightarrow> store" where
  "content pt fl dk = (\<lambda>p a. case pt (p, of_nat (a div cblock_bytes)) of
     Some e \<Rightarrow> fl (cblock_bytes * unat e + a mod cblock_bytes) | None \<Rightarrow> dk p a)"

text \<open>Files up to 4 GB, where the offsets of the code end.\<close>

definition same_store :: "store \<Rightarrow> store \<Rightarrow> bool" where
  "same_store st st' \<longleftrightarrow> (\<forall>p a. a < 2 ^ 32 \<longrightarrow> st p a = st' p a)"

lemma same_store_refl [simp]: "same_store st st"
  by (simp add: same_store_def)

lemma same_store_trans [trans]: "same_store a b \<Longrightarrow> same_store b c \<Longrightarrow> same_store a c"
  by (simp add: same_store_def)

definition injective :: "(key \<Rightarrow> u32 option) \<Rightarrow> bool" where
  "injective pt \<longleftrightarrow> (\<forall>k k' e. pt k = Some e \<longrightarrow> pt k' = Some e \<longrightarrow> k = k')"

definition clean_blocks :: "(key \<Rightarrow> u32 option) \<Rightarrow> u32 set \<Rightarrow> (nat \<Rightarrow> byte) \<Rightarrow> store \<Rightarrow> bool" where
  "clean_blocks pt mk fl dk \<longleftrightarrow> (\<forall>p c e. pt (p, c) = Some e \<longrightarrow> e \<notin> mk \<longrightarrow>
     (\<forall>x < cblock_bytes. fl (cblock_bytes * unat e + x) = dk p (cblock_bytes * unat c + x)))"

text \<open>A store with some bytes of one block of a file replaced.\<close>

definition store_write :: "path \<Rightarrow> nat \<Rightarrow> byte list \<Rightarrow> store \<Rightarrow> store" where
  "store_write p lo bs st = st(p := overwrite lo bs (st p))"

lemma store_write_block:
  assumes "lo + length bs \<le> cblock_bytes" and "x < cblock_bytes"
  shows "store_write p (cblock_bytes * m + lo) bs st q (cblock_bytes * n + x) =
    (if q = p \<and> n = m then overwrite lo bs (\<lambda>y. st p (cblock_bytes * m + y)) x else st q (cblock_bytes * n + x))"
  using overwrite_block [OF assms] by (simp add: store_write_def)

lemma same_storeI:
  assumes "\<And>p n x. n < 2 ^ 17 \<Longrightarrow> x < cblock_bytes \<Longrightarrow> st p (cblock_bytes * n + x) = st' p (cblock_bytes * n + x)"
  shows "same_store st st'"
  unfolding same_store_def
proof (intro allI impI)
  fix p and a :: nat
  assume a: "a < 2 ^ 32"
  from assms [OF block_split(2,4) [OF a], of p] show "st p a = st' p a" unfolding block_split(3) [OF a] .
qed

lemma content_block:
  assumes "n < 2 ^ 17" and "x < cblock_bytes"
  shows "content pt fl dk p (cblock_bytes * n + x) =
    (case pt (p, of_nat n) of Some e \<Rightarrow> fl (cblock_bytes * unat e + x) | None \<Rightarrow> dk p (cblock_bytes * n + x))"
proof -
  have "(cblock_bytes * n + x) div cblock_bytes = n" "(cblock_bytes * n + x) mod cblock_bytes = x" using assms(2) by simp_all
  then show ?thesis unfolding content_def by (simp only:)
qed

lemma of_nat_block: "n < 2 ^ 17 \<Longrightarrow> (of_nat n :: u32) = c \<longleftrightarrow> n = unat c"
  by (auto simp: unat_of_nat_u32)

section \<open>What the operations do to it\<close>

lemma content_flash_write:
  assumes inj: "injective pt" and hit: "pt (p, c) = Some e" and c: "unat c < 2 ^ 17" and lo: "lo + length bs \<le> cblock_bytes"
  shows "same_store (content pt (overwrite (cblock_bytes * unat e + lo) bs fl) dk)
    (store_write p (cblock_bytes * unat c + lo) bs (content pt fl dk))"
proof (rule same_storeI)
  fix q and n x :: nat
  assume n: "n < 2 ^ 17" and x: "x < cblock_bytes"
  have key: "(q, of_nat n) = (p, c) \<longleftrightarrow> q = p \<and> n = unat c" using of_nat_block [OF n, of c] by simp
  show "content pt (overwrite (cblock_bytes * unat e + lo) bs fl) dk q (cblock_bytes * n + x) =
    store_write p (cblock_bytes * unat c + lo) bs (content pt fl dk) q (cblock_bytes * n + x)"
  proof (cases "q = p \<and> n = unat c")
    case True
    with hit key have "pt (q, of_nat n) = Some e" by simp
    moreover have "overwrite lo bs (\<lambda>y. fl (cblock_bytes * unat e + y)) x =
        overwrite lo bs (\<lambda>y. content pt fl dk p (cblock_bytes * unat c + y)) x"
      using hit by (simp add: overwrite_def content_block [OF c x])
    ultimately show ?thesis using True
      by (simp only: content_block [OF n x] content_block [OF c x] of_nat_unat hit option.case overwrite_block [OF lo x] store_write_block [OF lo x] simp_thms if_True)
  next
    case False
    have "unat e' \<noteq> unat e" if "pt (q, of_nat n) = Some e'" for e'
      using that False hit key inj unfolding injective_def by (metis word_unat_eq_iff)
    then show ?thesis unfolding store_write_block [OF lo x] if_not_P [OF False]
      by (cases "pt (q, of_nat n)") (simp_all add: content_block [OF n x] overwrite_block [OF lo x])
  qed
qed

lemma content_disk_write:
  assumes miss: "pt (p, c) = None" and c: "unat c < 2 ^ 17" and lo: "lo + length bs \<le> cblock_bytes"
  shows "same_store (content pt fl (store_write p (cblock_bytes * unat c + lo) bs dk))
    (store_write p (cblock_bytes * unat c + lo) bs (content pt fl dk))"
proof (rule same_storeI)
  fix q and n x :: nat
  assume n: "n < 2 ^ 17" and x: "x < cblock_bytes"
  have key: "(q, of_nat n) = (p, c) \<longleftrightarrow> q = p \<and> n = unat c" using of_nat_block [OF n, of c] by simp
  show "content pt fl (store_write p (cblock_bytes * unat c + lo) bs dk) q (cblock_bytes * n + x) =
    store_write p (cblock_bytes * unat c + lo) bs (content pt fl dk) q (cblock_bytes * n + x)"
  proof (cases "q = p \<and> n = unat c")
    case True
    with miss key have "pt (q, of_nat n) = None" by simp
    moreover have "overwrite lo bs (\<lambda>y. dk p (cblock_bytes * unat c + y)) x =
        overwrite lo bs (\<lambda>y. content pt fl dk p (cblock_bytes * unat c + y)) x"
      using miss by (simp add: overwrite_def content_block [OF c x])
    ultimately show ?thesis using True
      by (simp only: content_block [OF n x] content_block [OF c x] of_nat_unat miss option.case store_write_block [OF lo x] simp_thms if_True)
  next
    case False
    then show ?thesis unfolding store_write_block [OF lo x] if_not_P [OF False] content_block [OF n x]
      by (cases "pt (q, of_nat n)") simp_all
  qed
qed

text \<open>A new block takes the place of the file's bytes.\<close>

lemma content_insert:
  assumes miss: "pt (p, c) = None" and e: "e \<notin> ran pt" and c: "unat c < 2 ^ 17" and bs: "length bs = cblock_bytes"
  shows "same_store (content (pt((p, c) \<mapsto> e)) (overwrite (cblock_bytes * unat e) bs fl) dk)
    (store_write p (cblock_bytes * unat c) bs (content pt fl dk))"
proof (rule same_storeI)
  fix q and n x :: nat
  assume n: "n < 2 ^ 17" and x: "x < cblock_bytes"
  have key: "(q, of_nat n) = (p, c) \<longleftrightarrow> q = p \<and> n = unat c" using of_nat_block [OF n, of c] by simp
  have lo: "0 + length bs \<le> cblock_bytes" using bs by simp
  note blocks = overwrite_block [OF lo x, unfolded add_0_right] store_write_block [OF lo x, unfolded add_0_right]
  show "content (pt((p, c) \<mapsto> e)) (overwrite (cblock_bytes * unat e) bs fl) dk q (cblock_bytes * n + x) =
    store_write p (cblock_bytes * unat c) bs (content pt fl dk) q (cblock_bytes * n + x)"
  proof (cases "q = p \<and> n = unat c")
    case True
    with key have "(pt((p, c) \<mapsto> e)) (q, of_nat n) = Some e" by simp
    moreover have "overwrite 0 bs f x = overwrite 0 bs g x" for f g using x bs by (simp add: overwrite_def)
    ultimately show ?thesis using True
      by (simp only: content_block [OF n x] content_block [OF c x] of_nat_unat option.case blocks simp_thms if_True)
  next
    case False
    with key have same: "(pt((p, c) \<mapsto> e)) (q, of_nat n) = pt (q, of_nat n)" by auto
    have "unat e' \<noteq> unat e" if "pt (q, of_nat n) = Some e'" for e'
      using that e by (metis ranI word_unat_eq_iff)
    with False same show ?thesis by (auto simp: content_block [OF n x] blocks split: option.split)
  qed
qed

lemma store_write_same: "store_write p lo (bytes_at (st p) lo n) st = st"
  by (simp add: store_write_def overwrite_same)

lemma content_promote:
  assumes miss: "pt (p, c) = None" and e: "e \<notin> ran pt" and c: "unat c < 2 ^ 17"
  shows "same_store (content (pt((p, c) \<mapsto> e))
      (overwrite (cblock_bytes * unat e) (bytes_at (dk p) (cblock_bytes * unat c) cblock_bytes) fl) dk) (content pt fl dk)"
proof -
  have "content pt fl dk p (cblock_bytes * unat c + x) = dk p (cblock_bytes * unat c + x)" if "x < cblock_bytes" for x
    using that c miss by (simp add: content_block)
  then have "bytes_at (dk p) (cblock_bytes * unat c) cblock_bytes = bytes_at (content pt fl dk p) (cblock_bytes * unat c) cblock_bytes"
    unfolding bytes_at_def by (intro map_cong) simp_all
  then show ?thesis
    using content_insert [OF miss e c, of "bytes_at (dk p) (cblock_bytes * unat c) cblock_bytes" fl dk]
      store_write_same [of p "cblock_bytes * unat c" "content pt fl dk"] by simp
qed

lemma content_demote:
  assumes hit: "pt (p, c) = Some e" and c: "unat c < 2 ^ 17" and clean: "clean_blocks pt mk fl dk" and "e \<notin> mk"
  shows "same_store (content (pt((p, c) := None)) fl dk) (content pt fl dk)"
proof (rule same_storeI)
  fix q and n x :: nat
  assume n: "n < 2 ^ 17" and x: "x < cblock_bytes"
  have key: "(q, of_nat n) = (p, c) \<longleftrightarrow> q = p \<and> n = unat c" using of_nat_block [OF n, of c] by simp
  have "fl (cblock_bytes * unat e + x) = dk p (cblock_bytes * unat c + x)"
    using clean hit assms(4) x unfolding clean_blocks_def by blast
  with hit key show "content (pt((p, c) := None)) fl dk q (cblock_bytes * n + x) = content pt fl dk q (cblock_bytes * n + x)"
    unfolding content_block [OF n x] by (cases "(q, of_nat n :: u32) = (p, c)") auto
qed

lemma content_writeback:
  assumes hit: "pt (p, c) = Some e" and c: "unat c < 2 ^ 17"
  shows "same_store (content pt fl (store_write p (cblock_bytes * unat c) (bytes_at fl (cblock_bytes * unat e) cblock_bytes) dk))
    (content pt fl dk)"
proof (rule same_storeI)
  fix q and n x :: nat
  assume n: "n < 2 ^ 17" and x: "x < cblock_bytes"
  have key: "(q, of_nat n) = (p, c) \<longleftrightarrow> q = p \<and> n = unat c" using of_nat_block [OF n, of c] by simp
  have lo: "0 + length (bytes_at fl (cblock_bytes * unat e) cblock_bytes) \<le> cblock_bytes" by simp
  show "content pt fl (store_write p (cblock_bytes * unat c) (bytes_at fl (cblock_bytes * unat e) cblock_bytes) dk) q (cblock_bytes * n + x)
      = content pt fl dk q (cblock_bytes * n + x)"
    unfolding content_block [OF n x] store_write_block [OF lo x, unfolded add_0_right]
    using hit key by (cases "(q, of_nat n :: u32) = (p, c)") (auto split: option.split)
qed

section \<open>Clean blocks stay equal to their files\<close>

lemma clean_mark: "clean_blocks pt mk fl dk \<Longrightarrow> mk \<subseteq> mk' \<Longrightarrow> clean_blocks pt mk' fl dk"
  by (auto simp: clean_blocks_def)

lemma clean_unmap: "clean_blocks pt mk fl dk \<Longrightarrow> clean_blocks (pt(k := None)) mk fl dk"
  by (auto simp: clean_blocks_def)

lemma clean_flash_write:
  assumes "clean_blocks pt mk fl dk" and "e \<in> mk" and lo: "lo + length bs \<le> cblock_bytes"
  shows "clean_blocks pt mk (overwrite (cblock_bytes * unat e + lo) bs fl) dk"
  unfolding clean_blocks_def
proof (intro allI impI)
  fix p c e' and x :: nat
  assume hit: "pt (p, c) = Some e'" "e' \<notin> mk" and x: "x < cblock_bytes"
  have "unat e' \<noteq> unat e" using hit(2) assms(2) by (metis word_unat_eq_iff)
  then show "overwrite (cblock_bytes * unat e + lo) bs fl (cblock_bytes * unat e' + x) = dk p (cblock_bytes * unat c + x)"
    using assms(1) hit x by (simp add: overwrite_block [OF lo x] clean_blocks_def)
qed

lemma clean_disk_write:
  assumes clean: "clean_blocks pt mk fl dk" and miss: "pt (p, c) = None" and lo: "lo + length bs \<le> cblock_bytes"
  shows "clean_blocks pt mk fl (store_write p (cblock_bytes * unat c + lo) bs dk)"
  unfolding clean_blocks_def
proof (intro allI impI)
  fix q c' e and x :: nat
  assume hit: "pt (q, c') = Some e" "e \<notin> mk" and x: "x < cblock_bytes"
  have "\<not> (q = p \<and> unat c' = unat c)" using hit(1) miss by (auto simp: word_unat_eq_iff [symmetric])
  then show "fl (cblock_bytes * unat e + x) = store_write p (cblock_bytes * unat c + lo) bs dk q (cblock_bytes * unat c' + x)"
    unfolding store_write_block [OF lo x] if_not_P [OF \<open>\<not> (q = p \<and> unat c' = unat c)\<close>]
    using clean hit x by (simp add: clean_blocks_def)
qed

lemma clean_promote:
  assumes clean: "clean_blocks pt mk fl dk" and e: "e \<notin> ran pt"
  shows "clean_blocks (pt((p, c) \<mapsto> e)) mk
    (overwrite (cblock_bytes * unat e) (bytes_at (dk p) (cblock_bytes * unat c) cblock_bytes) fl) dk"
  unfolding clean_blocks_def
proof (intro allI impI)
  fix q c' e' and x :: nat
  assume hit: "(pt((p, c) \<mapsto> e)) (q, c') = Some e'" "e' \<notin> mk" and x: "x < cblock_bytes"
  have lo: "0 + length (bytes_at (dk p) (cblock_bytes * unat c) cblock_bytes) \<le> cblock_bytes" by simp
  show "overwrite (cblock_bytes * unat e) (bytes_at (dk p) (cblock_bytes * unat c) cblock_bytes) fl (cblock_bytes * unat e' + x)
      = dk q (cblock_bytes * unat c' + x)"
  proof (cases "(q, c') = (p, c)")
    case True
    with hit(1) have "e' = e" by simp
    with True x show ?thesis
      by (simp only: overwrite_block [OF lo x, unfolded add_0_right] prod.inject simp_thms if_True overwrite_bytes_at)
  next
    case False
    with hit(1) have old: "pt (q, c') = Some e'" by auto
    then have "unat e' \<noteq> unat e" using e by (metis ranI word_unat_eq_iff)
    with old hit(2) clean x show ?thesis
      by (simp add: overwrite_block [OF lo x, unfolded add_0_right] clean_blocks_def)
  qed
qed

lemma clean_writeback:
  assumes clean: "clean_blocks pt mk fl dk" and inj: "injective pt" and hit: "pt (p, c) = Some e"
  shows "clean_blocks pt (mk - {e}) fl
    (store_write p (cblock_bytes * unat c) (bytes_at fl (cblock_bytes * unat e) cblock_bytes) dk)"
  unfolding clean_blocks_def
proof (intro allI impI)
  fix q c' e' and x :: nat
  assume hit': "pt (q, c') = Some e'" "e' \<notin> mk - {e}" and x: "x < cblock_bytes"
  have lo: "0 + length (bytes_at fl (cblock_bytes * unat e) cblock_bytes) \<le> cblock_bytes" by simp
  note blocks = store_write_block [OF lo x, unfolded add_0_right]
  show "fl (cblock_bytes * unat e' + x) =
    store_write p (cblock_bytes * unat c) (bytes_at fl (cblock_bytes * unat e) cblock_bytes) dk q (cblock_bytes * unat c' + x)"
  proof (cases "(q, c') = (p, c)")
    case True
    with hit hit'(1) have "e' = e" by simp
    with True x show ?thesis by (simp only: blocks prod.inject simp_thms if_True overwrite_bytes_at)
  next
    case False
    then have other: "\<not> (q = p \<and> unat c' = unat c)" by (auto simp: word_unat_eq_iff [symmetric])
    have "e' \<noteq> e" using False hit hit'(1) inj unfolding injective_def by blast
    then show ?thesis unfolding blocks if_not_P [OF other] using hit' clean x by (simp add: clean_blocks_def)
  qed
qed

section \<open>A block on its way in\<close>

text \<open>A block without a page can be written, and can take the place of a page whose bytes it has.\<close>

definition block_copy :: "(nat \<Rightarrow> byte) \<Rightarrow> store \<Rightarrow> u32 \<Rightarrow> key \<Rightarrow> bool" where
  "block_copy fl dk e k \<longleftrightarrow>
     (\<forall>x < cblock_bytes. fl (cblock_bytes * unat e + x) = dk (fst k) (cblock_bytes * unat (snd k) + x))"

lemma block_copy_made: "block_copy (overwrite (cblock_bytes * unat e) (bytes_at (dk p) (cblock_bytes * unat c) cblock_bytes) fl) dk e (p, c)"
proof -
  have lo: "0 + length (bytes_at (dk p) (cblock_bytes * unat c) cblock_bytes) \<le> cblock_bytes" by simp
  show ?thesis unfolding block_copy_def
    by (simp add: overwrite_block [OF lo, unfolded add_0_right] overwrite_bytes_at)
qed

lemma unmapped_flash_write:
  assumes e: "e \<notin> ran pt" and lo: "length bs \<le> cblock_bytes"
  shows "same_store (content pt (overwrite (cblock_bytes * unat e) bs fl) dk) (content pt fl dk)"
    and "clean_blocks pt mk fl dk \<Longrightarrow> clean_blocks pt mk (overwrite (cblock_bytes * unat e) bs fl) dk"
proof -
  have other: "overwrite (cblock_bytes * unat e) bs fl (cblock_bytes * unat e' + x) = fl (cblock_bytes * unat e' + x)"
    if "pt k = Some e'" "x < cblock_bytes" for k e' x
  proof -
    have "unat e' \<noteq> unat e" using that(1) e by (metis ranI word_unat_eq_iff)
    with overwrite_block [of 0 bs x "unat e" fl "unat e'"] lo that(2) show ?thesis by simp
  qed
  show "same_store (content pt (overwrite (cblock_bytes * unat e) bs fl) dk) (content pt fl dk)"
    by (rule same_storeI) (auto simp: content_block other split: option.split)
  show "clean_blocks pt mk (overwrite (cblock_bytes * unat e) bs fl) dk" if "clean_blocks pt mk fl dk"
    using that unfolding clean_blocks_def by (metis other)
qed

lemma content_enter:
  assumes "pt k = None" and copy: "block_copy fl dk e k"
  shows "same_store (content (pt(k \<mapsto> e)) fl dk) (content pt fl dk)"
    and "clean_blocks pt mk fl dk \<Longrightarrow> clean_blocks (pt(k \<mapsto> e)) mk fl dk"
proof -
  show "same_store (content (pt(k \<mapsto> e)) fl dk) (content pt fl dk)"
  proof (rule same_storeI)
    fix q and n x :: nat
    assume n: "n < 2 ^ 17" and x: "x < cblock_bytes"
    show "content (pt(k \<mapsto> e)) fl dk q (cblock_bytes * n + x) = content pt fl dk q (cblock_bytes * n + x)"
    proof (cases "(q, of_nat n) = k")
      case True
      then have "unat (snd k) = n" "fst k = q" using of_nat_block [OF n, of "snd k"] by auto
      with assms True x show ?thesis by (auto simp: content_block [OF n x] block_copy_def)
    qed (simp add: content_block [OF n x])
  qed
  show "clean_blocks (pt(k \<mapsto> e)) mk fl dk" if "clean_blocks pt mk fl dk"
    using that copy by (auto simp: clean_blocks_def block_copy_def)
qed

text \<open>A write to a file at a page that has a block is hidden by the block.\<close>

lemma content_hidden_write:
  assumes hit: "pt (p, c) = Some e" and lo: "lo + length bs \<le> cblock_bytes"
  shows "same_store (content pt fl (store_write p (cblock_bytes * unat c + lo) bs dk)) (content pt fl dk)"
proof (rule same_storeI)
  fix q and n x :: nat
  assume n: "n < 2 ^ 17" and x: "x < cblock_bytes"
  have key: "(q, of_nat n) = (p, c) \<longleftrightarrow> q = p \<and> n = unat c" using of_nat_block [OF n, of c] by simp
  show "content pt fl (store_write p (cblock_bytes * unat c + lo) bs dk) q (cblock_bytes * n + x)
      = content pt fl dk q (cblock_bytes * n + x)"
    unfolding content_block [OF n x] store_write_block [OF lo x]
    using hit key by (cases "(q, of_nat n :: u32) = (p, c)") (auto split: option.split)
qed

end
