(* ===== verification/Coherence.thy ===== *)
theory Coherence
  imports Target MappingSystem BlockStore
begin

text \<open>
  Storage that does what it is documented to do. On it, \<^verbatim>\<open>PlainFiles\<close> shows, the requests of
  \<^verbatim>\<open>ssd_cache_target.c\<close> and the work of the migration thread, one after the other, behave like plain files.
  The bytes on the device and in the files and the page table of the mapping together are the content of
  \<^verbatim>\<open>BlockStore\<close>.
\<close>

section \<open>Storage\<close>

text \<open>
  What can be observed of the machine: its memory, the bytes of the cache device, the bytes of the files, and
  which file a descriptor stands for.
\<close>

record 'w storage =
  ram :: "'w \<Rightarrow> u64 \<Rightarrow> byte"
  flash :: "'w \<Rightarrow> nat \<Rightarrow> byte"
  disk :: "'w \<Rightarrow> store"
  opened :: "'w \<Rightarrow> int \<Rightarrow> path option"

definition put_ram :: "u64 list \<Rightarrow> byte list \<Rightarrow> (u64 \<Rightarrow> byte) \<Rightarrow> u64 \<Rightarrow> byte" where
  "put_ram as bs m = fold (\<lambda>(a, b) m. m(a := b)) (zip as bs) m"

definition unchanged :: "'w storage \<Rightarrow> 'w \<Rightarrow> 'w \<Rightarrow> bool" where
  "unchanged S w w' \<longleftrightarrow> ram S w' = ram S w \<and> flash S w' = flash S w \<and> disk S w' = disk S w"

text \<open>The storage changes: bytes put into memory, on the device, into a file.\<close>

definition to_ram :: "'w storage \<Rightarrow> u64 list \<Rightarrow> byte list \<Rightarrow> 'w \<Rightarrow> 'w \<Rightarrow> bool" where
  "to_ram S as bs w w' \<longleftrightarrow> ram S w' = put_ram as bs (ram S w) \<and> flash S w' = flash S w \<and> disk S w' = disk S w"

definition to_flash :: "'w storage \<Rightarrow> nat \<Rightarrow> byte list \<Rightarrow> 'w \<Rightarrow> 'w \<Rightarrow> bool" where
  "to_flash S lo bs w w' \<longleftrightarrow> ram S w' = ram S w \<and> flash S w' = overwrite lo bs (flash S w) \<and> disk S w' = disk S w"

definition to_disk :: "'w storage \<Rightarrow> path \<Rightarrow> nat \<Rightarrow> byte list \<Rightarrow> 'w \<Rightarrow> 'w \<Rightarrow> bool" where
  "to_disk S p lo bs w w' \<longleftrightarrow> ram S w' = ram S w \<and> flash S w' = flash S w \<and> disk S w' = store_write p lo bs (disk S w)"

lemmas storage_changes = unchanged_def to_ram_def to_flash_def to_disk_def

text \<open>A command that is accepted and completes.\<close>

definition completes :: "'w system \<Rightarrow> u64 \<Rightarrow> int \<times> 'w \<Rightarrow> 'w \<Rightarrow> bool" where
  "completes sys qp r w' \<longleftrightarrow> fst r = 0 \<and> wait_completed sys qp (snd r) = Some w'"

text \<open>The addresses the callbacks of a vectored command give the library for \<open>need\<close> bytes.\<close>

definition gives :: "io_req \<Rightarrow> nat \<Rightarrow> u64 list \<Rightarrow> bool" where
  "gives req need as \<longleftrightarrow> length as = need
     \<and> (\<exists>r n. n \<le> need \<and> reset_sgl_fn req 0 = Some r \<and> segments n r = Some as)"

text \<open>
  The device library as documented: every command is accepted, completes and moves the bytes between the
  buffers and the blocks of \<open>bs\<close> bytes each. A trim changes nothing outside the blocks it names; what these
  blocks read as afterwards is left open.
\<close>

definition reads_blocks :: "'w system \<Rightarrow> target \<Rightarrow> 'w storage \<Rightarrow> nat \<Rightarrow> bool" where
  "reads_blocks sys t S bs \<longleftrightarrow> (\<forall>q buf lba num w. \<exists>w'.
     completes sys (t_qpair t q) (ns_cmd_read sys (t_ns t) (t_qpair t q) buf lba num w) w'
     \<and> to_ram S (span buf (unat num * bs)) (bytes_at (flash S w) (unat lba * bs) (unat num * bs)) w w')"

definition writes_blocks :: "'w system \<Rightarrow> target \<Rightarrow> 'w storage \<Rightarrow> nat \<Rightarrow> bool" where
  "writes_blocks sys t S bs \<longleftrightarrow> (\<forall>q buf lba num w. \<exists>w'.
     completes sys (t_qpair t q) (ns_cmd_write sys (t_ns t) (t_qpair t q) buf lba num w) w'
     \<and> to_flash S (unat lba * bs) (map (ram S w) (span buf (unat num * bs))) w w')"

definition reads_vectors :: "'w system \<Rightarrow> target \<Rightarrow> 'w storage \<Rightarrow> nat \<Rightarrow> bool" where
  "reads_vectors sys t S bs \<longleftrightarrow> (\<forall>q req as lba num w. gives req (unat num * bs) as \<longrightarrow> (\<exists>w'.
     completes sys (t_qpair t q) (ns_cmd_readv sys (t_ns t) (t_qpair t q) lba num reset_sgl_fn next_sge_fn req w) w'
     \<and> to_ram S as (bytes_at (flash S w) (unat lba * bs) (unat num * bs)) w w'))"

definition writes_vectors :: "'w system \<Rightarrow> target \<Rightarrow> 'w storage \<Rightarrow> nat \<Rightarrow> bool" where
  "writes_vectors sys t S bs \<longleftrightarrow> (\<forall>q req as lba num w. gives req (unat num * bs) as \<longrightarrow> (\<exists>w'.
     completes sys (t_qpair t q) (ns_cmd_writev sys (t_ns t) (t_qpair t q) lba num reset_sgl_fn next_sge_fn req w) w'
     \<and> to_flash S (unat lba * bs) (map (ram S w) as) w w'))"

definition trims_stay_inside :: "'w system \<Rightarrow> target \<Rightarrow> 'w storage \<Rightarrow> nat \<Rightarrow> bool" where
  "trims_stay_inside sys t S bs \<longleftrightarrow> (\<forall>q lba num w w'. w' = snd (ns_cmd_deallocate sys (t_ns t) (t_qpair t q) lba num w) \<longrightarrow>
     ram S w' = ram S w \<and> disk S w' = disk S w
     \<and> (\<forall>a. a < unat lba * bs \<or> unat lba * bs + unat num * bs \<le> a \<longrightarrow> flash S w' a = flash S w a))"

text \<open>A device whose trimmed blocks read as before. No theorem rests on it; it is one of the devices in the examples.\<close>

definition trims_keep_bytes :: "'w system \<Rightarrow> target \<Rightarrow> 'w storage \<Rightarrow> bool" where
  "trims_keep_bytes sys t S \<longleftrightarrow>
     (\<forall>q lba num w. unchanged S w (snd (ns_cmd_deallocate sys (t_ns t) (t_qpair t q) lba num w)))"

text \<open>
  The system calls on files as documented, for files that exist, may be opened and are long enough: an open gives a
  descriptor, which is not negative, and a transfer moves all the bytes asked for. What the code does when a call fails is
  in \<^verbatim>\<open>Target\<close> and \<^verbatim>\<open>Migration\<close>, without this hypothesis.
\<close>

definition opens_files :: "'w system \<Rightarrow> 'w storage \<Rightarrow> bool" where
  "opens_files sys S \<longleftrightarrow> (\<forall>p mode create w. \<exists>fd w'. sys_open sys p mode create w = (fd, w') \<and> 0 \<le> fd
     \<and> opened S w' fd = Some p \<and> unchanged S w w') \<and> (\<forall>fd w. unchanged S w (sys_close sys fd w))"

definition reads_files :: "'w system \<Rightarrow> 'w storage \<Rightarrow> bool" where
  "reads_files sys S \<longleftrightarrow>
     (\<forall>fd p buf n off w. opened S w fd = Some p \<longrightarrow> (\<exists>w'. sys_pread sys fd buf n off w = (int (unat n), w')
        \<and> to_ram S (span buf (unat n)) (bytes_at (disk S w p) (unat off) (unat n)) w w'))
   \<and> (\<forall>fd p v off w. opened S w fd = Some p \<longrightarrow> (\<exists>w'. sys_preadv sys fd v off w = (int (length (iov_bytes v)), w')
        \<and> to_ram S (iov_bytes v) (bytes_at (disk S w p) (unat off) (length (iov_bytes v))) w w'))"

definition writes_files :: "'w system \<Rightarrow> 'w storage \<Rightarrow> bool" where
  "writes_files sys S \<longleftrightarrow>
     (\<forall>fd p buf n off w. opened S w fd = Some p \<longrightarrow> (\<exists>w'. sys_pwrite sys fd buf n off w = (int (unat n), w')
        \<and> to_disk S p (unat off) (map (ram S w) (span buf (unat n))) w w'))
   \<and> (\<forall>fd p v off w. opened S w fd = Some p \<longrightarrow> (\<exists>w'. sys_pwritev sys fd v off w = (int (length (iov_bytes v)), w')
        \<and> to_disk S p (unat off) (map (ram S w) (iov_bytes v)) w w'))"

definition reliable :: "'w system \<Rightarrow> target \<Rightarrow> 'w storage \<Rightarrow> nat \<Rightarrow> bool" where
  "reliable sys t S bs \<longleftrightarrow> reads_blocks sys t S bs \<and> writes_blocks sys t S bs \<and> reads_vectors sys t S bs
     \<and> writes_vectors sys t S bs \<and> trims_stay_inside sys t S bs \<and> opens_files sys S \<and> reads_files sys S \<and> writes_files sys S"

lemma reliableD:
  assumes "reliable sys t S bs"
  shows "reads_blocks sys t S bs" "writes_blocks sys t S bs" "reads_vectors sys t S bs" "writes_vectors sys t S bs"
    "trims_stay_inside sys t S bs" "opens_files sys S" "reads_files sys S" "writes_files sys S"
  using assms by (simp_all add: reliable_def)

section \<open>Commands\<close>

lemma put_ram_outside: "a \<notin> set as \<Longrightarrow> put_ram as bs m a = m a"
proof (induction as arbitrary: bs m)
  case (Cons x as)
  then show ?case by (cases bs) (simp_all add: put_ram_def)
qed (simp add: put_ram_def)

lemma map_put_ram: "distinct as \<Longrightarrow> length bs = length as \<Longrightarrow> map (put_ram as bs m) as = bs"
proof (induction as arbitrary: bs m)
  case (Cons x as)
  then obtain b bs' where bs: "bs = b # bs'" "length bs' = length as" by (cases bs) auto
  have step: "put_ram (x # as) bs m = put_ram as bs' (m(x := b))" by (simp add: put_ram_def bs)
  have "put_ram as bs' (m(x := b)) x = b" using Cons.prems(1) by (simp add: put_ram_outside)
  moreover have "map (put_ram as bs' (m(x := b))) as = bs'" by (rule Cons.IH) (use Cons.prems(1) bs in simp_all)
  ultimately show ?case unfolding step by (simp add: bs)
qed (simp add: put_ram_def)

lemma of_nat_injective: "i < 2 ^ 64 \<Longrightarrow> j < 2 ^ 64 \<Longrightarrow> (of_nat i :: u64) = of_nat j \<Longrightarrow> i = j"
  by (drule arg_cong [where f = unat]) (simp only: unat_of_nat, simp)

lemma distinct_span: "n \<le> 2 ^ 64 \<Longrightarrow> distinct (span a n)"
proof -
  assume n: "n \<le> 2 ^ 64"
  have "inj_on (\<lambda>i. a + of_nat i) {..<n}"
  proof (rule inj_onI)
    fix i j
    assume ij: "i \<in> {..<n}" "j \<in> {..<n}" "a + of_nat i = a + of_nat j"
    show "i = j"
    proof (rule of_nat_injective)
      show "i < 2 ^ 64" "j < 2 ^ 64" using ij(1,2) n by (simp_all only: lessThan_iff)
      show "(of_nat i :: u64) = of_nat j" using ij(3) by (rule add_left_imp_eq)
    qed
  qed
  then show ?thesis by (simp add: span_def distinct_map atLeast0LessThan)
qed

lemma vector_gives:
  assumes "small_iovs v" and "length v \<le> length (iov_bytes v)"
  shows "gives (init_req v (length v)) (length (iov_bytes v)) (iov_bytes v)"
proof -
  obtain r where r: "reset_sgl_fn (init_req v (length v)) 0 = Some r" "segments (length v - iov_pos r) r = Some (iov_bytes v)"
    using vector_segments [OF assms(1), of 0] by auto
  have "length v - iov_pos r \<le> length (iov_bytes v)" using assms(2) by simp
  with r show ?thesis unfolding gives_def by blast
qed

lemma completes_returns:
  "completes sys qp r w' \<Longrightarrow>
    (case r of (rc, w) \<Rightarrow> if rc \<noteq> 0 then Some (rc, w) else do { w \<leftarrow> wait_completed sys qp w; Some (0, w) }) = Some (0, w')"
  by (auto simp: completes_def case_prod_unfold)

lemma reliable_read:
  assumes "reliable sys t S bs"
  obtains w' where "read_spdk sys t buf lba num q w = Some (0, w')"
    "to_ram S (span buf (unat num * bs)) (bytes_at (flash S w) (unat lba * bs) (unat num * bs)) w w'"
proof -
  from reliableD(1) [OF assms, unfolded reads_blocks_def, rule_format, of q buf lba num w] obtain w' where
    w': "completes sys (t_qpair t q) (ns_cmd_read sys (t_ns t) (t_qpair t q) buf lba num w) w'"
    "to_ram S (span buf (unat num * bs)) (bytes_at (flash S w) (unat lba * bs) (unat num * bs)) w w'" by blast
  with completes_returns [OF w'(1)] that show ?thesis by (simp add: read_spdk_def)
qed

lemma reliable_write:
  assumes "reliable sys t S bs"
  obtains w' where "write_spdk sys t buf lba num q w = Some (0, w')"
    "to_flash S (unat lba * bs) (map (ram S w) (span buf (unat num * bs))) w w'"
proof -
  from reliableD(2) [OF assms, unfolded writes_blocks_def, rule_format, of q buf lba num w] obtain w' where
    w': "completes sys (t_qpair t q) (ns_cmd_write sys (t_ns t) (t_qpair t q) buf lba num w) w'"
    "to_flash S (unat lba * bs) (map (ram S w) (span buf (unat num * bs))) w w'" by blast
  with completes_returns [OF w'(1)] that show ?thesis by (simp add: write_spdk_def)
qed

lemma reliable_readv:
  assumes "reliable sys t S bs" and v: "small_iovs v" "length v \<le> length (iov_bytes v)" "length (iov_bytes v) = unat num * bs"
  obtains w' where "readv_spdk sys t v (length v) lba num q w = Some (0, w')"
    "to_ram S (iov_bytes v) (bytes_at (flash S w) (unat lba * bs) (length (iov_bytes v))) w w'"
proof -
  have gives: "gives (init_req v (length v)) (unat num * bs) (iov_bytes v)" using vector_gives [OF v(1,2)] v(3) by simp
  from reliableD(3) [OF assms(1), unfolded reads_vectors_def, rule_format, OF gives, of q lba w] obtain w' where
    w': "completes sys (t_qpair t q)
      (ns_cmd_readv sys (t_ns t) (t_qpair t q) lba num reset_sgl_fn next_sge_fn (init_req v (length v)) w) w'"
    "to_ram S (iov_bytes v) (bytes_at (flash S w) (unat lba * bs) (unat num * bs)) w w'" by blast
  with completes_returns [OF w'(1)] that v(3) show ?thesis by (simp add: readv_spdk_def Let_def)
qed

lemma reliable_writev:
  assumes "reliable sys t S bs" and v: "small_iovs v" "length v \<le> length (iov_bytes v)" "length (iov_bytes v) = unat num * bs"
  obtains w' where "writev_spdk sys t v (length v) lba num q w = Some (0, w')"
    "to_flash S (unat lba * bs) (map (ram S w) (iov_bytes v)) w w'"
proof -
  have gives: "gives (init_req v (length v)) (unat num * bs) (iov_bytes v)" using vector_gives [OF v(1,2)] v(3) by simp
  from reliableD(4) [OF assms(1), unfolded writes_vectors_def, rule_format, OF gives, of q lba w] obtain w' where
    w': "completes sys (t_qpair t q)
      (ns_cmd_writev sys (t_ns t) (t_qpair t q) lba num reset_sgl_fn next_sge_fn (init_req v (length v)) w) w'"
    "to_flash S (unat lba * bs) (map (ram S w) (iov_bytes v)) w w'" by blast
  with completes_returns [OF w'(1)] that v(3) show ?thesis by (simp add: writev_spdk_def Let_def)
qed

lemma reliable_open:
  assumes "reliable sys t S bs"
  obtains fd w' where "sys_open sys p mode create w = (fd, w')" "0 \<le> fd" "opened S w' fd = Some p" "unchanged S w w'"
  using reliableD(6) [OF assms] unfolding opens_files_def by blast

lemma reliable_close:
  assumes "reliable sys t S bs"
  shows "ram S (sys_close sys fd w) = ram S w" "flash S (sys_close sys fd w) = flash S w" "disk S (sys_close sys fd w) = disk S w"
  using reliableD(6) [OF assms] unfolding opens_files_def unchanged_def by blast+

end
