(* ===== verification/Transparency.thy ===== *)
theory Transparency
  imports Coherence
begin

text \<open>
  Requests and migrations, one after the other, on storage that is \<open>reliable\<close>: whatever blocks the cache
  takes, marks, demotes and writes back, the requests read and write the bytes they would read and write in
  plain files.
\<close>

section \<open>Usable states\<close>

text \<open>Keys of files up to 4 GB, where the byte offsets of the code end.\<close>

definition key_ok :: "key \<Rightarrow> bool" where
  "key_ok k \<longleftrightarrow> length (fst k) < MAX_PATH_SIZE \<and> unat (snd k) < 2 ^ 17"

definition keys_ok :: "cache_view \<Rightarrow> bool" where
  "keys_ok v \<longleftrightarrow> (\<forall>k \<in> set (work_list v) \<union> dom (page_table v). key_ok k)"

text \<open>
  The mapping is consistent, and every cached block that is not marked dirty has the bytes of its file. The
  blocks of \<open>L\<close> are left out, for the block that is being written back.
\<close>

definition usable :: "'w storage \<Rightarrow> nat \<Rightarrow> u32 set \<Rightarrow> cache \<Rightarrow> cache_view \<Rightarrow> 'w \<Rightarrow> bool" where
  "usable S ps L c v w \<longleftrightarrow> mrep (cache_map c) v \<and> device_ok c ps \<and> keys_ok v
     \<and> clean_blocks (page_table v) (marked v \<union> L) (flash S w) (disk S w)"

lemma usableD:
  assumes "usable S ps L c v w"
  shows "mrep (cache_map c) v" "device_ok c ps" "keys_ok v" "clean_blocks (page_table v) (marked v \<union> L) (flash S w) (disk S w)"
  using assms by (simp_all add: usable_def)

text \<open>The files as the users see them.\<close>

abbreviation stored :: "'w storage \<Rightarrow> cache_view \<Rightarrow> 'w \<Rightarrow> store" where
  "stored S v w \<equiv> content (page_table v) (flash S w) (disk S w)"

lemma mrep_injective: "mrep m v \<Longrightarrow> injective (page_table v)"
  using mrep_fields(6) [of m v] unfolding injective_def by (metis keyedD)

lemma keys_ok_mapped: "keys_ok v \<Longrightarrow> page_table v k = Some e \<Longrightarrow> key_ok k"
  by (auto simp: keys_ok_def)

section \<open>Accesses of a request\<close>

definition request_key :: "pio \<Rightarrow> key" where
  "request_key node = (pio_path node, to_cache_page_index (page_index node))"

definition same_table :: "cache_view \<Rightarrow> cache_view \<Rightarrow> bool" where
  "same_table v v' \<longleftrightarrow> page_table v' = page_table v \<and> marked v' = marked v \<and> moving v' = moving v"

lemma same_table_refl [simp]: "same_table v v"
  by (simp add: same_table_def)

lemma same_table_hit: "same_table v (v_hit e v)" "work_list (v_hit e v) = work_list v"
  by (simp_all add: same_table_def v_hit_def v_enqueue_tail_def v_dequeue_def)

lemma same_table_add_work:
  "same_table v (v_add_work k v)" "work_list (v_add_work k v) = work_list v \<or> work_list (v_add_work k v) = work_list v @ [k]"
  by (simp_all add: same_table_def v_add_work_def)

text \<open>The three results of an access: the page has a block, it gets one, it has none.\<close>

lemma v_access_cases:
  assumes "v_access node v = (v', x)"
  obtains (hit) e where "x = Some e" "page_table v (request_key node) = Some e" "same_table v v'" "work_list v' = work_list v"
  | (inserted) e where "x = Some e" "optimizable node" "page_table v (request_key node) = None" "e \<in> set (free_q v)"
      "request_key node \<notin> set (work_list v)" "page_table v' = (page_table v)(request_key node \<mapsto> e)"
      "marked v' = insert e (marked v)" "moving v' = moving v" "work_list v' = work_list v"
  | (miss) "x = None" "page_table v (request_key node) = None" "same_table v v'"
      "work_list v' = work_list v \<or> work_list v' = work_list v @ [request_key node]"
proof -
  let ?k = "request_key node"
  have hit: thesis if "page_table v ?k = Some e" "v' = v_hit e v" "x = Some e" for e
    using that same_table_hit by (intro hit) simp_all
  have miss: thesis if "page_table v ?k = None" "v' = v \<or> v' = v_add_work ?k v" "x = None"
  proof (rule miss)
    show "same_table v v'" using that(2) by (elim disjE) (simp_all add: same_table_add_work(1))
    show "work_list v' = work_list v \<or> work_list v' = work_list v @ [?k]"
      using that(2) same_table_add_work(2) [of ?k v] by (elim disjE) simp_all
  qed (use that in simp_all)
  show thesis
  proof (cases "optimizable node")
    case False
    then have "v_lookup ?k v = (v', x)" using assms by (simp add: v_access_def request_key_def Let_def)
    with hit miss show thesis by (auto simp: v_lookup_def split: option.splits)
  next
    case True
    then have ins: "v_insert ?k v = (v', x)" using assms by (simp add: v_access_def request_key_def Let_def)
    show thesis
    proof (cases "page_table v ?k = None \<and> \<not> v_queued (fst ?k) (snd ?k) v \<and> free_q v \<noteq> []")
      case False
      with ins hit miss show thesis by (auto simp: v_insert_def split: option.splits if_splits)
    next
      case free: True
      then obtain e F where e: "free_q v = e # F" by (cases "free_q v") auto
      have "?k \<notin> set (work_list v)" using free unfolding v_queued_def by fastforce
      with ins free e True show thesis by (intro inserted [of e]) (auto simp: v_insert_def)
    qed
  qed
qed


lemma keys_access:
  assumes keys: "keys_ok v" and access: "v_access node v = (v', x)" and key: "key_ok (request_key node)"
  shows "keys_ok v'"
  using access
proof (cases node v v' x rule: v_access_cases)
  case hit
  with keys show ?thesis by (simp add: keys_ok_def same_table_def)
next
  case inserted
  with keys key show ?thesis by (auto simp: keys_ok_def)
next
  case miss
  with keys key show ?thesis by (auto simp: keys_ok_def same_table_def)
qed

lemma access_user_change:
  assumes "mrep m v" and "v_access node v = (v', x)" and "length (fst (request_key node)) < MAX_PATH_SIZE"
  shows "user_change v v'"
  using assms insert_user_change [OF assms(1,3)] lookup_user_change [OF assms(3), of v]
  by (auto simp: v_access_def request_key_def Let_def split: if_splits)

lemma set_dirty_table:
  "page_table (v_set_dirty e v) = page_table v" "moving (v_set_dirty e v) = moving v" "work_list (v_set_dirty e v) = work_list v"
  "e \<notin> set (free_q v) \<Longrightarrow> marked (v_set_dirty e v) = insert e (marked v)"
  by (simp_all add: v_set_dirty_def v_mark_def v_enqueue_tail_def v_dequeue_def)

lemma keys_set_dirty: "keys_ok (v_set_dirty e v) = keys_ok v"
  by (simp add: keys_ok_def set_dirty_table)

section \<open>The place of a request\<close>

lemma length_page_bytes: "length (iov_bytes (page_vector ns)) = 4096 * length ns"
  by (induction ns) (simp_all add: page_vector_def config_eqs case_prod_unfold)

lemma small_page_vector: "small_iovs (page_vector ns)"
  by (auto simp: small_iovs_def page_vector_def config_eqs)

text \<open>The first byte of a request in its cache block.\<close>

definition page_offset :: "pio \<Rightarrow> nat" where
  "page_offset node = 4096 * (unat (page_index node) mod 8)"

lemma request_place:
  "cblock_bytes * unat (snd (request_key node)) + page_offset node = 4096 * unat (page_index node)"
proof -
  have "unat (snd (request_key node)) = unat (page_index node) div 8"
    by (simp add: request_key_def to_cache_page_index_def drop_bit_eq_div unat_div)
  moreover have "8 * (unat (page_index node) div 8) + unat (page_index node) mod 8 = unat (page_index node)" by simp
  ultimately show ?thesis unfolding page_offset_def by linarith
qed

lemma request_fits:
  assumes "check_pio node" and "unat (pio_cnt node) = length ns"
  shows "page_offset node + length (iov_bytes (page_vector ns)) \<le> cblock_bytes"
  using assms by (simp add: check_pio_iff page_offset_def length_page_bytes)

lemma target_byte:
  assumes dev: "device_ok c ps" and bs: "bs * 2 ^ ps = 4096" and e: "e < CACHE_BLOCK_NUMBER"
  shows "unat (ucast (target_block c node e) :: u64) * bs = cblock_bytes * unat e + page_offset node"
proof -
  have "unat (ucast (target_block c node e) :: u64) * bs = (unat e * 8 + unat (page_index node) mod 8) * (bs * 2 ^ ps)"
    using target_block_value [OF dev e, of node] by (simp add: algebra_simps)
  then show ?thesis unfolding bs page_offset_def by simp
qed

lemma num_bytes:
  assumes dev: "device_ok c ps" and bs: "bs * 2 ^ ps = 4096" and "check_pio node" and "unat (pio_cnt node) = length ns"
  shows "length (iov_bytes (page_vector ns)) = unat (num_blocks c node) * bs"
proof -
  have "unat (num_blocks c node) * bs = unat (pio_cnt node) * (bs * 2 ^ ps)"
    using num_blocks_value [OF dev assms(3)] by (simp add: algebra_simps)
  then show ?thesis unfolding bs by (simp add: length_page_bytes assms(4))
qed

lemma cache_commands:
  assumes rel: "reliable sys t S bs" and dev: "device_ok c ps" and bs: "bs * 2 ^ ps = 4096" and e: "e < CACHE_BLOCK_NUMBER"
    and check: "check_pio node" and cnt: "unat (pio_cnt node) = length ns"
  obtains w1 w2 where
    "readv_spdk sys t (page_vector ns) (length ns) (ucast (target_block c node e)) (num_blocks c node) IO_QUEUE w = Some (0, w1)"
    "to_ram S (iov_bytes (page_vector ns))
      (bytes_at (flash S w) (cblock_bytes * unat e + page_offset node) (length (iov_bytes (page_vector ns)))) w w1"
    "writev_spdk sys t (page_vector ns) (length ns) (ucast (target_block c node e)) (num_blocks c node) IO_QUEUE w = Some (0, w2)"
    "to_flash S (cblock_bytes * unat e + page_offset node) (map (ram S w) (iov_bytes (page_vector ns))) w w2"
proof -
  let ?v = "page_vector ns"
  have len: "length ?v = length ns" by (simp add: page_vector_def)
  have v: "small_iovs ?v" "length ?v \<le> length (iov_bytes ?v)" "length (iov_bytes ?v) = unat (num_blocks c node) * bs"
    using num_bytes [OF dev bs check cnt] by (simp_all add: small_page_vector len length_page_bytes)
  note byte = target_byte [OF dev bs e, of node]
  obtain w1 where w1: "readv_spdk sys t ?v (length ?v) (ucast (target_block c node e)) (num_blocks c node) IO_QUEUE w = Some (0, w1)"
    "to_ram S (iov_bytes ?v) (bytes_at (flash S w) (unat (ucast (target_block c node e) :: u64) * bs) (length (iov_bytes ?v))) w w1"
    by (rule reliable_readv [OF rel v])
  obtain w2 where w2: "writev_spdk sys t ?v (length ?v) (ucast (target_block c node e)) (num_blocks c node) IO_QUEUE w = Some (0, w2)"
    "to_flash S (unat (ucast (target_block c node e) :: u64) * bs) (map (ram S w) (iov_bytes ?v)) w w2"
    by (rule reliable_writev [OF rel v])
  show thesis using that w1 w2 unfolding byte len .
qed


lemma origin_offset:
  assumes "key_ok (request_key node)"
  shows "unat (push_bit 12 (page_index node)) = 4096 * unat (page_index node)"
proof -
  have "unat (page_index node) div 8 < 2 ^ 17"
    using assms by (simp add: key_ok_def request_key_def to_cache_page_index_def drop_bit_eq_div unat_div)
  then have "unat (page_index node) * 2 ^ 12 < 2 ^ 32" by simp
  from unat_push_bit_small [OF this] show ?thesis by simp
qed

lemma origin_io:
  assumes rel: "reliable sys t S bs" and node: "h p = Some node"
    and v: "pio_to_iovec h p (unat (pio_cnt node)) = Some v" and key: "key_ok (request_key node)" and fd: "pio_fd node = 0"
    and off: "off = 4096 * unat (page_index node)"
  obtains w' rc where "map_to_origin sys h c p w = Some ((c, w'), rc)"
    "if operation node = READ then to_ram S (iov_bytes v) (bytes_at (disk S w (pio_path node)) off (length (iov_bytes v))) w w'
     else to_disk S (pio_path node) off (map (ram S w) (iov_bytes v)) w w'"
proof (cases "operation node = READ")
  case True
  obtain d w1 where open_eq: "sys_open sys (pio_path node) O_RDONLY True w = (d, w1)" "0 \<le> d"
    "opened S w1 d = Some (pio_path node)" "unchanged S w w1" by (rule reliable_open [OF rel])
  obtain w2 where w2: "sys_preadv sys d v (ucast (push_bit 12 (page_index node))) w1 = (int (length (iov_bytes v)), w2)"
    "to_ram S (iov_bytes v) (bytes_at (disk S w1 (pio_path node)) (unat (ucast (push_bit 12 (page_index node)) :: u64)) (length (iov_bytes v))) w1 w2"
    using reliableD(7) [OF rel] open_eq(3) unfolding reads_files_def by meson
  from that [of "sys_close sys d w2"] show ?thesis
    using w2 open_eq True reliable_close [OF rel, of d w2]
    by (simp add: map_to_origin_def read_origin_def node v fd off origin_offset [OF key] storage_changes Let_def)
next
  case False
  obtain d w1 where open_eq: "sys_open sys (pio_path node) O_WRONLY True w = (d, w1)" "0 \<le> d"
    "opened S w1 d = Some (pio_path node)" "unchanged S w w1" by (rule reliable_open [OF rel])
  obtain w2 where w2: "sys_pwritev sys d v (ucast (push_bit 12 (page_index node))) w1 = (int (length (iov_bytes v)), w2)"
    "to_disk S (pio_path node) (unat (ucast (push_bit 12 (page_index node)) :: u64)) (map (ram S w1) (iov_bytes v)) w1 w2"
    using reliableD(8) [OF rel] open_eq(3) unfolding writes_files_def by meson
  from that [of "sys_close sys d w2"] show ?thesis
    using w2 open_eq False reliable_close [OF rel, of d w2]
    by (simp add: map_to_origin_def write_origin_def node v fd off origin_offset [OF key] storage_changes Let_def)
qed

section \<open>A request\<close>

text \<open>What a request does to plain files and memory.\<close>

definition plain_request :: "pio \<Rightarrow> u64 list \<Rightarrow> store \<times> (u64 \<Rightarrow> byte) \<Rightarrow> store \<times> (u64 \<Rightarrow> byte)" where
  "plain_request node as = (\<lambda>(st, m).
     if operation node = READ
     then (st, put_ram as (bytes_at (st (pio_path node)) (4096 * unat (page_index node)) (length as)) m)
     else (store_write (pio_path node) (4096 * unat (page_index node)) (map m as) st, m))"

lemma content_bytes:
  assumes "unat c < 2 ^ 17" and "lo + n \<le> cblock_bytes"
  shows "bytes_at (content pt fl dk p) (cblock_bytes * unat c + lo) n =
    (case pt (p, c) of Some e \<Rightarrow> bytes_at fl (cblock_bytes * unat e + lo) n
     | None \<Rightarrow> bytes_at (dk p) (cblock_bytes * unat c + lo) n)"
proof -
  have "content pt fl dk p (cblock_bytes * unat c + (lo + i)) = (case pt (p, c) of
      Some e \<Rightarrow> fl (cblock_bytes * unat e + (lo + i)) | None \<Rightarrow> dk p (cblock_bytes * unat c + (lo + i)))" if "i < n" for i
    using content_block [OF assms(1), of "lo + i" pt fl dk p] that assms(2) by simp
  then show ?thesis by (auto simp: bytes_at_def add.assoc split: option.split)
qed

lemma clean_insert: "clean_blocks pt mk fl dk \<Longrightarrow> clean_blocks (pt(k \<mapsto> e)) (insert e mk) fl dk"
  by (auto simp: clean_blocks_def)

text \<open>
  What a request leaves alone: blocks without a page; files at other pages, at pages with a block, and, for a read,
  altogether; only a write marks blocks, and only the block of its page.
\<close>

definition untouched_flash :: "'w storage \<Rightarrow> cache_view \<Rightarrow> 'w \<Rightarrow> 'w \<Rightarrow> bool" where
  "untouched_flash S v' w w' \<longleftrightarrow> (\<forall>e. e \<notin> ran (page_table v') \<longrightarrow>
     (\<forall>x < cblock_bytes. flash S w' (cblock_bytes * unat e + x) = flash S w (cblock_bytes * unat e + x)))"

definition untouched_disk :: "'w storage \<Rightarrow> pio \<Rightarrow> cache_view \<Rightarrow> 'w \<Rightarrow> 'w \<Rightarrow> bool" where
  "untouched_disk S node v' w w' \<longleftrightarrow>
     (\<forall>p c. operation node = READ \<or> (p, c) \<noteq> request_key node \<or> (p, c) \<in> dom (page_table v') \<longrightarrow>
     (\<forall>x < cblock_bytes. disk S w' p (cblock_bytes * unat c + x) = disk S w p (cblock_bytes * unat c + x)))"

definition marks_own :: "pio \<Rightarrow> cache_view \<Rightarrow> cache_view \<Rightarrow> bool" where
  "marks_own node v v' \<longleftrightarrow> marked v \<subseteq> marked v' \<and>
     (\<forall>e \<in> marked v' - marked v. operation node \<noteq> READ \<and> page_table v' (request_key node) = Some e)"

definition keeps_others :: "'w storage \<Rightarrow> pio \<Rightarrow> cache_view \<Rightarrow> 'w \<Rightarrow> cache_view \<Rightarrow> 'w \<Rightarrow> bool" where
  "keeps_others S node v w v' w' \<longleftrightarrow>
     untouched_flash S v' w w' \<and> untouched_disk S node v' w w' \<and> marks_own node v v'
     \<and> (\<forall>ph. phase_inv ph v \<longrightarrow> phase_inv ph v') \<and> (\<forall>e \<in> moving v. key_of v' e = key_of v e)"

lemma unchanged_untouched: "flash S w' = flash S w \<Longrightarrow> untouched_flash S v' w w'" "disk S w' = disk S w \<Longrightarrow> untouched_disk S node v' w w'"
  by (simp_all add: untouched_flash_def untouched_disk_def)

lemma marks_own_same: "same_table v v' \<Longrightarrow> marks_own node v v'"
  by (simp add: marks_own_def same_table_def)

lemma flash_write_untouched:
  assumes lo: "lo + length bs \<le> cblock_bytes" and e: "e \<in> ran (page_table v')"
    and w': "flash S w' = overwrite (cblock_bytes * unat e + lo) bs (flash S w)"
  shows "untouched_flash S v' w w'"
  unfolding untouched_flash_def w'
proof (intro allI impI)
  fix e' and x :: nat
  assume "e' \<notin> ran (page_table v')" and x: "x < cblock_bytes"
  then have "unat e' \<noteq> unat e" using e by (metis word_unat_eq_iff)
  then show "overwrite (cblock_bytes * unat e + lo) bs (flash S w) (cblock_bytes * unat e' + x) = flash S w (cblock_bytes * unat e' + x)"
    by (simp add: overwrite_block [OF lo x])
qed

lemma disk_write_untouched:
  assumes lo: "lo + length bs \<le> cblock_bytes" and op: "operation node \<noteq> READ" and miss: "page_table v' (request_key node) = None"
    and w': "disk S w' = store_write (pio_path node) (cblock_bytes * unat (snd (request_key node)) + lo) bs (disk S w)"
  shows "untouched_disk S node v' w w'"
  unfolding untouched_disk_def w'
proof (intro allI impI)
  fix p c and x :: nat
  assume other: "operation node = READ \<or> (p, c) \<noteq> request_key node \<or> (p, c) \<in> dom (page_table v')" and x: "x < cblock_bytes"
  have "\<not> (p = pio_path node \<and> unat c = unat (snd (request_key node)))"
    using other op miss by (auto simp: request_key_def word_unat_eq_iff [symmetric])
  then show "store_write (pio_path node) (cblock_bytes * unat (snd (request_key node)) + lo) bs (disk S w) p (cblock_bytes * unat c + x)
      = disk S w p (cblock_bytes * unat c + x)"
    by (simp only: store_write_block [OF lo x] if_False)
qed

text \<open>The whole request, from the state it finds to the state it leaves.\<close>

definition request_done :: "'w storage \<Rightarrow> nat \<Rightarrow> u32 set \<Rightarrow> pio \<Rightarrow> u64 list \<Rightarrow> cache_view \<Rightarrow> 'w \<Rightarrow> ((cache \<times> 'w) \<times> int) option \<Rightarrow> bool" where
  "request_done S ps L node as v w r \<longleftrightarrow> (\<exists>c' v' w' rc. r = Some ((c', w'), rc) \<and> usable S ps L c' v' w'
     \<and> same_store (stored S v' w') (fst (plain_request node as (stored S v w, ram S w)))
     \<and> ram S w' = snd (plain_request node as (stored S v w, ram S w)) \<and> keeps_others S node v w v' w'
     \<and> (page_table v (request_key node) \<noteq> None \<or> page_table v' (request_key node) \<noteq> None \<longrightarrow> rc = 0))"

lemma request_doneI:
  assumes "r = Some ((c', w'), rc)" and "usable S ps L c' v' w'"
    and "same_store (stored S v' w') (fst (plain_request node as (stored S v w, ram S w)))"
    and "ram S w' = snd (plain_request node as (stored S v w, ram S w))" and "keeps_others S node v w v' w'"
    and "page_table v (request_key node) \<noteq> None \<or> page_table v' (request_key node) \<noteq> None \<Longrightarrow> rc = 0"
  shows "request_done S ps L node as v w r"
  using assms unfolding request_done_def by blast

lemma keeps_othersI:
  assumes "untouched_flash S v' w w'" and "untouched_disk S node v' w w'" and "marks_own node v v'"
    and "user_change v v1" and "user_change v1 v'"
  shows "keeps_others S node v w v' w'"
proof -
  have "\<forall>e \<in> moving v. key_of v' e = key_of v e" using assms(4,5) by (simp add: user_change_def)
  with assms user_change_phase show ?thesis by (auto simp: keeps_others_def)
qed

lemma missed_request:
  assumes rel: "reliable sys t S bs" and node: "h p = Some node"
    and vec: "pio_to_iovec h p (unat (pio_cnt node)) = Some vec" and key: "key_ok (request_key node)" and fd: "pio_fd node = 0"
    and miss: "page_table v (request_key node) = None" "same_table v v'" and user: "user_change v v'"
    and new: "usable S ps L c v' w" and fits: "page_offset node + length (iov_bytes vec) \<le> cblock_bytes"
  shows "request_done S ps L node (iov_bytes vec) v w (map_to_origin sys h c p w)"
proof -
  let ?off = "cblock_bytes * unat (snd (request_key node)) + page_offset node"
  obtain w' rc where io: "map_to_origin sys h c p w = Some ((c, w'), rc)"
    "if operation node = READ then to_ram S (iov_bytes vec) (bytes_at (disk S w (pio_path node)) ?off (length (iov_bytes vec))) w w'
     else to_disk S (pio_path node) ?off (map (ram S w) (iov_bytes vec)) w w'"
    by (rule origin_io [OF rel node vec key fd request_place])
  have small: "unat (snd (request_key node)) < 2 ^ 17" using key by (simp add: key_ok_def)
  have path: "(pio_path node, snd (request_key node)) = request_key node" by (simp add: request_key_def)
  have miss': "page_table v' (pio_path node, snd (request_key node)) = None" using miss by (simp add: path same_table_def)
  have lo: "page_offset node + length (map (ram S w) (iov_bytes vec)) \<le> cblock_bytes" using fits by simp
  have same: "page_table v' = page_table v" using miss(2) by (simp add: same_table_def)
  have flash: "flash S w' = flash S w" using io(2) by (simp add: storage_changes split: if_splits)
  have none: "page_table v' (request_key node) = None" using miss by (simp add: same_table_def)
  have "untouched_disk S node v' w w'"
    using io(2) disk_write_untouched [OF lo _ none, of S w' w] unchanged_untouched(2) [of S w' w node v']
    by (cases "operation node = READ") (simp_all add: storage_changes)
  from keeps_othersI [OF unchanged_untouched(1) [OF flash] this marks_own_same [OF miss(2)] user] have
    others: "keeps_others S node v w v' w'" by simp
  show ?thesis
  proof (cases "operation node = READ")
    case True
    have "bytes_at (stored S v w (pio_path node)) ?off (length (iov_bytes vec)) = bytes_at (disk S w (pio_path node)) ?off (length (iov_bytes vec))"
      unfolding content_bytes [OF small fits] using miss(1) by (simp add: path)
    then show ?thesis using io new True same
      by (intro request_doneI [OF io(1) _ _ _ others]) (simp_all add: plain_request_def storage_changes usable_def none miss(1) request_place [symmetric])
  next
    case False
    have "clean_blocks (page_table v') (marked v' \<union> L) (flash S w) (disk S w)" using new by (simp add: usable_def)
    from clean_disk_write [OF this miss' lo] have "usable S ps L c v' w'"
      using new io(2) False by (simp add: usable_def storage_changes)
    with content_disk_write [where pt = "page_table v'", OF miss' small lo, of "flash S w" "disk S w"] show ?thesis
      using io False same
      by (intro request_doneI [OF io(1) _ _ _ others]) (simp_all add: plain_request_def storage_changes none miss(1) request_place [symmetric])
  qed
qed

lemma mapped_small: "mrep m v \<Longrightarrow> page_table v k = Some e \<Longrightarrow> e < blocks v \<and> e < CACHE_BLOCK_NUMBER"
proof -
  assume rep: "mrep m v" and hit: "page_table v k = Some e"
  have "e < blocks v" using mrep_small(1) [OF rep, of e] ranI [of "page_table v"] hit by blast
  moreover have "blocks v \<le> CACHE_BLOCK_NUMBER" using rep by (auto simp: mrep_def mstruct_def)
  ultimately show ?thesis by simp
qed

lemma device_ok_map:
  "device_ok c ps \<Longrightarrow> block_per_cblock_shift m = block_per_cblock_shift (cache_map c) \<Longrightarrow> device_ok (c\<lparr>cache_map := m\<rparr>) ps"
  by (simp add: device_ok_def)

lemma served_read:
  assumes rel: "reliable sys t S bs" and bs: "bs * 2 ^ ps = 4096" and use: "usable S ps L c v' w"
    and hit: "page_table v' (request_key node) = Some e" and same: "same_table v v'" and user: "user_change v v'"
    and node: "h p = Some node" "pio_to_iovec h p (unat (pio_cnt node)) = Some (page_vector ns)" "unat (pio_cnt node) = length ns"
    and check: "check_pio node" and op: "operation node = READ" and key: "key_ok (request_key node)"
  shows "request_done S ps L node (iov_bytes (page_vector ns)) v w (map_to_cache sys t h c p e w)"
proof -
  let ?as = "iov_bytes (page_vector ns)"
  note D = usableD [OF use]
  have small: "unat (snd (request_key node)) < 2 ^ 17" using key by (simp add: key_ok_def)
  have path: "(pio_path node, snd (request_key node)) = request_key node" by (simp add: request_key_def)
  have table: "page_table v' = page_table v" using same by (simp add: same_table_def)
  have e: "e < CACHE_BLOCK_NUMBER" using mapped_small [OF D(1) hit] by simp
  obtain w1 where w1:
    "readv_spdk sys t (page_vector ns) (length ns) (ucast (target_block c node e)) (num_blocks c node) IO_QUEUE w = Some (0, w1)"
    "to_ram S ?as (bytes_at (flash S w) (cblock_bytes * unat e + page_offset node) (length ?as)) w w1"
    by (rule cache_commands [OF rel D(2) bs e check node(3)])
  have io: "map_to_cache sys t h c p e w = Some ((c, w1), 0)"
    using w1(1) by (simp add: map_to_cache_def read_cache_def node(1) node(2) [unfolded node(3)] node(3) op Let_def)
  have others: "keeps_others S node v w v' w1"
    by (rule keeps_othersI [OF _ _ marks_own_same [OF same] user])
      (use w1(2) in \<open>simp_all add: storage_changes unchanged_untouched\<close>)
  have "bytes_at (stored S v w (pio_path node)) (4096 * unat (page_index node)) (length ?as) =
      bytes_at (flash S w) (cblock_bytes * unat e + page_offset node) (length ?as)"
    unfolding request_place [symmetric] content_bytes [OF small request_fits [OF check node(3)]] path table [symmetric] hit by simp
  with io w1(2) use show ?thesis
    by (intro request_doneI [OF io _ _ _ others]) (simp_all add: plain_request_def op storage_changes usable_def table)
qed

lemma served_write:
  assumes rel: "reliable sys t S bs" and bs: "bs * 2 ^ ps = 4096" and use: "usable S ps L c v' w"
    and hit: "page_table v' (request_key node) = Some e" and user: "user_change v v'"
    and marks: "marked v \<subseteq> marked v'" "marked v' \<subseteq> insert e (marked v)"
    and node: "h p = Some node" "pio_to_iovec h p (unat (pio_cnt node)) = Some (page_vector ns)" "unat (pio_cnt node) = length ns"
    and check: "check_pio node" and op: "operation node \<noteq> READ"
    and written: "same_store
      (content (page_table v') (overwrite (cblock_bytes * unat e + page_offset node) (map (ram S w) (iov_bytes (page_vector ns))) (flash S w)) (disk S w))
      (store_write (pio_path node) (4096 * unat (page_index node)) (map (ram S w) (iov_bytes (page_vector ns))) (stored S v w))"
  shows "request_done S ps L node (iov_bytes (page_vector ns)) v w (map_to_cache sys t h c p e w)"
proof -
  let ?as = "iov_bytes (page_vector ns)"
  note D = usableD [OF use]
  have e: "e < blocks v'" "e < CACHE_BLOCK_NUMBER" using mapped_small [OF D(1) hit] by simp_all
  obtain w1 where w1:
    "writev_spdk sys t (page_vector ns) (length ns) (ucast (target_block c node e)) (num_blocks c node) IO_QUEUE w = Some (0, w1)"
    "to_flash S (cblock_bytes * unat e + page_offset node) (map (ram S w) ?as) w w1"
    by (rule cache_commands [OF rel D(2) bs e(2) check node(3)])
  obtain m where m: "set_dirty_after_write (cache_map c) e True = Some m" "mrep m (v_set_dirty e v')"
    using set_dirty_sim [OF D(1) e(1), of True] by (rule becomesE)
  have io: "map_to_cache sys t h c p e w = Some ((c\<lparr>cache_map := m\<rparr>, w1), 0)"
    using w1(1) m(1) by (simp add: map_to_cache_def write_cache_def node(1) node(2) [unfolded node(3)] node(3) op Let_def)
  have ran: "e \<in> ran (page_table v')" using hit by (rule ranI)
  then have used: "e \<notin> set (free_q v')" using mrep_roles(2) [OF D(1), of e] by blast
  have lo: "page_offset node + length (map (ram S w) ?as) \<le> cblock_bytes" using request_fits [OF check node(3)] by simp
  have "cblock_shift (v_set_dirty e v') = cblock_shift v'"
    by (simp add: v_set_dirty_def v_mark_def v_enqueue_tail_def v_dequeue_def)
  then have dev: "device_ok (c\<lparr>cache_map := m\<rparr>) ps"
    using device_ok_map [OF D(2)] mrep_fields(7) [OF m(2)] mrep_fields(7) [OF D(1)] by simp
  have "clean_blocks (page_table v') (insert e (marked v' \<union> L)) (flash S w1) (disk S w1)"
    using clean_flash_write [OF clean_mark [OF D(4), of "insert e (marked v' \<union> L)"] _ lo, of e] w1(2) by (simp add: storage_changes subset_insertI)
  then have use': "usable S ps L (c\<lparr>cache_map := m\<rparr>) (v_set_dirty e v') w1"
    using m(2) dev D(3) by (simp add: usable_def set_dirty_table used keys_set_dirty)
  have others: "keeps_others S node v w (v_set_dirty e v') w1"
  proof (rule keeps_othersI [OF _ _ _ user set_dirty_user_change])
    show "untouched_flash S (v_set_dirty e v') w w1"
      using flash_write_untouched [OF lo, where e = e and v' = "v_set_dirty e v'" and S = S and w' = w1 and w = w] ran w1(2) by (simp add: storage_changes set_dirty_table)
    show "untouched_disk S node (v_set_dirty e v') w w1" using w1(2) by (simp add: storage_changes unchanged_untouched)
    show "marks_own node v (v_set_dirty e v')" using marks op hit by (auto simp: marks_own_def set_dirty_table used)
  qed
  from written w1(2) show ?thesis
    by (intro request_doneI [OF io use' _ _ others]) (simp_all add: plain_request_def op storage_changes set_dirty_table)
qed

text \<open>Every request, whatever way it takes.\<close>

lemma request_transparent:
  assumes rel: "reliable sys t S bs" and bs: "bs * 2 ^ ps = 4096" and use: "usable S ps L c v w"
    and node: "h p = Some node" "pio_to_iovec h p (unat (pio_cnt node)) = Some (page_vector ns)" "unat (pio_cnt node) = length ns"
    and check: "check_pio node" and op: "operation node \<noteq> DISCARD" and key: "key_ok (request_key node)" and fd: "pio_fd node = 0"
  shows "request_done S ps L node (iov_bytes (page_vector ns)) v w (submit_to_target sys t h c p w)"
proof -
  note D = usableD [OF use]
  have short: "length (fst (request_key node)) < MAX_PATH_SIZE" using key by (simp add: key_ok_def)
  then have len: "length (pio_path node) \<le> MAX_PATH_SIZE" by (simp add: request_key_def)
  obtain v' x where access: "v_access node v = (v', x)" by fastforce
  obtain m where m: "mrep m v'" "map_pio sys t h c p w = (case x of Some e \<Rightarrow> map_to_cache sys t h (c\<lparr>cache_map := m\<rparr>) p e w
       | None \<Rightarrow> map_to_origin sys h (c\<lparr>cache_map := m\<rparr>) p w)"
    by (rule map_pio_routes [where h = h and sys = sys and t = t and w = w, OF D(1) node(1) check len access])
  have dev: "device_ok (c\<lparr>cache_map := m\<rparr>) ps"
    using device_ok_map [OF D(2)] mrep_fields(7) [OF m(1)] mrep_fields(7) [OF D(1)] v_access_shift [OF access] by simp
  note keys = keys_access [OF D(3) access key] and user = access_user_change [OF D(1) access short]
  have small: "unat (snd (request_key node)) < 2 ^ 17" using key by (simp add: key_ok_def)
  have path: "(pio_path node, snd (request_key node)) = request_key node" by (simp add: request_key_def)
  note fits = request_fits [OF check node(3)]
  have use': "usable S ps L (c\<lparr>cache_map := m\<rparr>) v' w" if "same_table v v'"
    using that m(1) dev keys D(4) by (simp add: usable_def same_table_def)
  have sub: "submit_to_target sys t h c p w = map_pio sys t h c p w" using op node(1) by (simp add: submit_to_target_def)
  from access show ?thesis
  proof (cases node v v' x rule: v_access_cases)
    case (hit e)
    have table: "page_table v' = page_table v" "page_table v' (request_key node) = Some e" "marked v' = marked v"
      using hit by (simp_all add: same_table_def)
    have marks: "marked v \<subseteq> marked v'" "marked v' \<subseteq> insert e (marked v)" unfolding table(3) by blast+
    have lo: "page_offset node + length (map (ram S w) (iov_bytes (page_vector ns))) \<le> cblock_bytes" using fits by simp
    have at: "page_table v (pio_path node, snd (request_key node)) = Some e" using hit(2) by (simp add: path)
    note written = content_flash_write [where pt = "page_table v", OF mrep_injective [OF D(1)] at small lo,
        of "flash S w" "disk S w", unfolded request_place]
    show ?thesis unfolding sub m(2) hit(1) option.case
      using served_read [OF rel bs use' [OF hit(3)] table(2) hit(3) user node check _ key]
        served_write [OF rel bs use' [OF hit(3)] table(2) user marks node check, unfolded table(1), OF _ written]
      by (cases "operation node = READ") simp_all
  next
    case (inserted e)
    have whole: "unat (page_index node) mod 8 = 0" "operation node = WRITE" "length ns = 8"
      using inserted(2) node(3) unat_and_7 [of "page_index node"] by (simp_all add: optimizable_def overwritable_def)
    have bytes: "length (map (ram S w) (iov_bytes (page_vector ns))) = cblock_bytes" "page_offset node = 0"
      using whole by (simp_all add: length_page_bytes page_offset_def)
    have new: "e \<notin> ran (page_table v)" using mrep_roles(2) [OF D(1) inserted(4)] by simp
    have none: "page_table v (pio_path node, snd (request_key node)) = None" using inserted(3) by (simp add: path)
    note written = content_insert [where pt = "page_table v", OF none new small bytes(1), of "flash S w" "disk S w",
        unfolded path inserted(6) [symmetric] request_place [of node, unfolded bytes(2) add_0_right]]
    have "clean_blocks (page_table v') (marked v' \<union> L) (flash S w) (disk S w)"
      unfolding inserted(6,7) using clean_insert [OF D(4)] by simp
    then have use'': "usable S ps L (c\<lparr>cache_map := m\<rparr>) v' w" using m(1) dev keys by (simp add: usable_def)
    have hit: "page_table v' (request_key node) = Some e" by (simp add: inserted(6))
    have marks: "marked v \<subseteq> marked v'" "marked v' \<subseteq> insert e (marked v)" unfolding inserted(7) by blast+
    show ?thesis unfolding sub m(2) inserted(1) option.case
      by (rule served_write [OF rel bs use'' hit user marks node check])
        (use written whole(2) in \<open>simp_all add: bytes(2)\<close>)
  next
    case miss
    show ?thesis unfolding sub m(2) miss(1) option.case
      by (rule missed_request [OF rel node(1,2) key fd miss(2,3) user use' [OF miss(3)] fits])
  qed
qed

end
