(* ===== verification/Interleaving.thy ===== *)
theory Interleaving
  imports Transparency Stages
begin

text \<open>
  The migration thread on storage that is \<open>reliable\<close>, stage by stage: no stage changes the content of the files, but
  for the trim of a demotion, which may change what block 0 reads as while a page is cached there. A request between
  two stages does to the files what it does to plain files, unless it writes a page that is being copied in or thrown out.
\<close>

section \<open>Transfers of the migration thread\<close>

text \<open>The memory is changed in the buffer of the migration thread at most.\<close>

definition buffer_only :: "'w storage \<Rightarrow> u64 \<Rightarrow> 'w \<Rightarrow> 'w \<Rightarrow> bool" where
  "buffer_only S buf w w' \<longleftrightarrow> (\<forall>a. a \<notin> set (span buf cblock_bytes) \<longrightarrow> ram S w' a = ram S w a)"

lemma unat_shifted: "x < 2 ^ 15 \<Longrightarrow> n \<le> 15 \<Longrightarrow> unat (push_bit n (x :: u32)) = unat x * 2 ^ n"
proof (rule unat_push_bit_small)
  assume x: "x < 2 ^ 15" and n: "n \<le> 15"
  have "unat x < 2 ^ 15" using x by (simp add: word_less_nat_alt)
  moreover have "(2 :: nat) ^ n \<le> 2 ^ 15" using n by (rule power_increasing) simp
  ultimately have "unat x * 2 ^ n \<le> 2 ^ 15 * 2 ^ 15" by (intro mult_le_mono) simp_all
  then show "unat x * 2 ^ n < 2 ^ 32" by simp
qed

text \<open>The blocks of a cache block, in bytes.\<close>

definition cblock_shift_ok :: "mapping \<Rightarrow> nat \<Rightarrow> nat \<Rightarrow> bool" where
  "cblock_shift_ok m ps bs \<longleftrightarrow> ps \<le> 12 \<and> bs * 2 ^ ps = 4096 \<and> unat (block_per_cblock_shift m) = ps + 3"

lemma cblock_range:
  assumes "cblock_shift_ok m ps bs" and "e < CACHE_BLOCK_NUMBER"
  shows "unat (ucast (push_bit (unat (block_per_cblock_shift m)) e) :: u64) * bs = cblock_bytes * unat e"
    and "unat (push_bit (unat (block_per_cblock_shift m)) (1 :: u32)) * bs = cblock_bytes"
proof -
  have m: "ps + 3 \<le> 15" "bs * 2 ^ ps = 4096" "unat (block_per_cblock_shift m) = ps + 3"
    using assms(1) by (simp_all add: cblock_shift_ok_def)
  have e: "e < 2 ^ 15" using assms(2) by (simp add: config_eqs)
  have "unat (push_bit (ps + 3) x) * bs = cblock_bytes * unat x" if "x < 2 ^ 15" for x :: u32
  proof -
    have "unat (push_bit (ps + 3) x) * bs = unat x * 8 * (bs * 2 ^ ps)"
      using unat_shifted [OF that m(1)] by (simp add: power_add algebra_simps)
    then show ?thesis unfolding m(2) by simp
  qed
  from this [OF e] this [of 1] show
    "unat (ucast (push_bit (unat (block_per_cblock_shift m)) e) :: u64) * bs = cblock_bytes * unat e"
    "unat (push_bit (unat (block_per_cblock_shift m)) (1 :: u32)) * bs = cblock_bytes" by (simp_all add: m(3))
qed

lemma file_offset: "unat (c :: u32) < 2 ^ 17 \<Longrightarrow> unat (ucast (push_bit CBLOCK_SHIFT c) :: u64) = cblock_bytes * unat c"
  using unat_push_bit_small [of c 15] by (simp add: config_eqs)

lemma cache_block_size: "unat CACHE_BLOCK_SIZE = cblock_bytes"
  by (simp add: config_eqs)

lemma buffer_bytes: "length bs = cblock_bytes \<Longrightarrow> map (put_ram (span buf cblock_bytes) bs m) (span buf cblock_bytes) = bs"
  by (rule map_put_ram) (simp_all add: distinct_span)

lemma promotion_transfer:
  assumes rel: "reliable sys t S bs" and m: "cblock_shift_ok m ps bs" and e: "e < CACHE_BLOCK_NUMBER" and c: "unat c < 2 ^ 17"
  obtains w' where "mg_start sys t m buf (Some p) c e PROMOTION w = Some (True, w')" "buffer_only S buf w w'"
    "disk S w' = disk S w" "flash S w' = overwrite (cblock_bytes * unat e) (bytes_at (disk S w p) (cblock_bytes * unat c) cblock_bytes) (flash S w)"
proof -
  note range = cblock_range [OF m e]
  obtain d w1 where w1: "sys_open sys p O_RDONLY False w = (d, w1)" "0 \<le> d" "opened S w1 d = Some p" "unchanged S w w1"
    by (rule reliable_open [OF rel])
  obtain w2 where w2: "sys_pread sys d buf CACHE_BLOCK_SIZE (ucast (push_bit CBLOCK_SHIFT c)) w1 = (int (unat CACHE_BLOCK_SIZE), w2)"
    "to_ram S (span buf (unat CACHE_BLOCK_SIZE))
      (bytes_at (disk S w1 p) (unat (ucast (push_bit CBLOCK_SHIFT c) :: u64)) (unat CACHE_BLOCK_SIZE)) w1 w2"
    using reliableD(7) [OF rel] w1(3) unfolding reads_files_def by meson
  note w2' = w2(2) [unfolded cache_block_size file_offset [OF c]]
  let ?w3 = "sys_close sys d w2"
  let ?n = "push_bit (unat (block_per_cblock_shift m)) (1 :: u32)"
  let ?lba = "ucast (push_bit (unat (block_per_cblock_shift m)) e) :: u64"
  obtain w4 where w4: "write_spdk sys t buf ?lba ?n MG_QUEUE ?w3 = Some (0, w4)"
    "to_flash S (unat ?lba * bs) (map (ram S ?w3) (span buf (unat ?n * bs))) ?w3 w4"
    by (rule reliable_write [OF rel])
  note w4' = w4(2) [unfolded range] and same = reliable_close [OF rel, of d w2]
  have start: "mg_start sys t m buf (Some p) c e PROMOTION w = Some (True, w4)"
    by (simp add: mg_start_def Let_def w1(1) w2(1) w4(1) linorder_not_less [THEN iffD2, OF w1(2)] del: push_bit_of_1)
  show thesis
  proof (rule that [OF start])
    show "buffer_only S buf w w4" using w1(4) w2' w4' same by (simp add: buffer_only_def storage_changes put_ram_outside)
    show "disk S w4 = disk S w" using w1(4) w2' w4' same by (simp add: storage_changes)
    have "map (ram S ?w3) (span buf cblock_bytes) = bytes_at (disk S w p) (cblock_bytes * unat c) cblock_bytes"
      using w1(4) w2' same buffer_bytes by (simp add: storage_changes)
    then show "flash S w4 = overwrite (cblock_bytes * unat e) (bytes_at (disk S w p) (cblock_bytes * unat c) cblock_bytes) (flash S w)"
      using w1(4) w2' w4' same by (simp add: storage_changes)
  qed
qed

lemma writeback_transfer:
  assumes rel: "reliable sys t S bs" and m: "cblock_shift_ok m ps bs" and e: "e < CACHE_BLOCK_NUMBER" and c: "unat c < 2 ^ 17"
  obtains w' where "mg_start sys t m buf (Some p) c e WRITEBACK w = Some (True, w')" "buffer_only S buf w w'" "flash S w' = flash S w"
    "disk S w' = store_write p (cblock_bytes * unat c) (bytes_at (flash S w) (cblock_bytes * unat e) cblock_bytes) (disk S w)"
proof -
  note range = cblock_range [OF m e]
  let ?n = "push_bit (unat (block_per_cblock_shift m)) (1 :: u32)"
  let ?lba = "ucast (push_bit (unat (block_per_cblock_shift m)) e) :: u64"
  obtain w1 where w1: "read_spdk sys t buf ?lba ?n MG_QUEUE w = Some (0, w1)"
    "to_ram S (span buf (unat ?n * bs)) (bytes_at (flash S w) (unat ?lba * bs) (unat ?n * bs)) w w1"
    by (rule reliable_read [OF rel])
  note w1' = w1(2) [unfolded range]
  obtain d w2 where w2: "sys_open sys p O_WRONLY False w1 = (d, w2)" "0 \<le> d" "opened S w2 d = Some p" "unchanged S w1 w2"
    by (rule reliable_open [OF rel])
  obtain w3 where w3: "sys_pwrite sys d buf CACHE_BLOCK_SIZE (ucast (push_bit CBLOCK_SHIFT c)) w2 = (int (unat CACHE_BLOCK_SIZE), w3)"
    "to_disk S p (unat (ucast (push_bit CBLOCK_SHIFT c) :: u64)) (map (ram S w2) (span buf (unat CACHE_BLOCK_SIZE))) w2 w3"
    using reliableD(8) [OF rel] w2(3) unfolding writes_files_def by meson
  note w3' = w3(2) [unfolded cache_block_size file_offset [OF c]] and same = reliable_close [OF rel, of d w3]
  have start: "mg_start sys t m buf (Some p) c e WRITEBACK w = Some (True, sys_close sys d w3)"
    by (simp add: mg_start_def Let_def w1(1) w2(1) w3(1) linorder_not_less [THEN iffD2, OF w2(2)] del: push_bit_of_1)
  show thesis
  proof (rule that [OF start])
    show "buffer_only S buf w (sys_close sys d w3)"
      using w1' w2(4) w3' same by (simp add: buffer_only_def storage_changes put_ram_outside)
    show "flash S (sys_close sys d w3) = flash S w" using w1' w2(4) w3' same by (simp add: storage_changes)
    show "disk S (sys_close sys d w3)
        = store_write p (cblock_bytes * unat c) (bytes_at (flash S w) (cblock_bytes * unat e) cblock_bytes) (disk S w)"
      using w1' w2(4) w3' same by (simp add: storage_changes buffer_bytes)
  qed
qed

text \<open>
  What the trim of a demotion leaves: \<open>mg_start\<close> is called with page 0 and trims cache block 0, whichever block is
  demoted. It spares the cache when block 0 holds no page, or the device still reads it as before.
\<close>

definition trimmed :: "'w system \<Rightarrow> target \<Rightarrow> mapping \<Rightarrow> 'w \<Rightarrow> 'w" where
  "trimmed sys t m w = snd (ns_cmd_deallocate sys (t_ns t) (t_qpair t MG_QUEUE) 0 (push_bit (unat (block_per_cblock_shift m)) 1) w)"

definition trim_spares :: "'w system \<Rightarrow> target \<Rightarrow> 'w storage \<Rightarrow> mapping \<Rightarrow> 'w \<Rightarrow> bool" where
  "trim_spares sys t S m w \<longleftrightarrow> (allocated (ents m 0) \<longrightarrow> flash S (trimmed sys t m w) = flash S w)"

definition beyond_block_zero :: "'w storage \<Rightarrow> 'w \<Rightarrow> 'w \<Rightarrow> bool" where
  "beyond_block_zero S w w' \<longleftrightarrow> ram S w' = ram S w \<and> disk S w' = disk S w \<and> (\<forall>a \<ge> cblock_bytes. flash S w' a = flash S w a)"

lemma trim_spares_always: "trims_keep_bytes sys t S \<Longrightarrow> trim_spares sys t S m w"
  by (simp add: trims_keep_bytes_def trim_spares_def trimmed_def unchanged_def)

lemma demotion_start: "mg_start sys t m 0 None 0 e DEMOTION w = Some (True, trimmed sys t m w)"
  by (simp add: mg_start_def trim_spdk_def trimmed_def Let_def case_prod_unfold)

lemma demotion_transfer:
  assumes "reliable sys t S bs" and "cblock_shift_ok m ps bs"
  shows "beyond_block_zero S w (trimmed sys t m w)"
proof -
  have "unat (push_bit (unat (block_per_cblock_shift m)) (1 :: u32)) * bs = cblock_bytes"
    by (rule cblock_range(2) [OF assms(2), of 0]) (simp add: config_eqs)
  with reliableD(5) [OF assms(1), unfolded trims_stay_inside_def, rule_format, OF refl, of MG_QUEUE 0
      "push_bit (unat (block_per_cblock_shift m)) 1" w]
  show ?thesis by (simp add: beyond_block_zero_def trimmed_def del: push_bit_of_1)
qed

section \<open>Between two stages\<close>

text \<open>The block whose mark is gone and whose bytes are not yet in the file.\<close>

fun loose :: "stage \<Rightarrow> u32 set" where
  "loose (Copying_out e) = {e}"
| "loose st = {}"

fun stage_ok :: "'w storage \<Rightarrow> cache_view \<Rightarrow> 'w \<Rightarrow> stage \<Rightarrow> bool" where
  "stage_ok S v w (Copying_in k e) \<longleftrightarrow> key_of v e = k"
| "stage_ok S v w (Copied_in e s) \<longleftrightarrow> s \<and> block_copy (flash S w) (disk S w) e (key_of v e)"
| "stage_ok S v w (Trimming e) \<longleftrightarrow> e \<notin> marked v"
| "stage_ok S v w (Trimmed e s) \<longleftrightarrow> s \<and> e \<notin> marked v"
| "stage_ok S v w (Copied_out e s) \<longleftrightarrow> s"
| "stage_ok S v w st \<longleftrightarrow> True"

definition running_ok :: "'w storage \<Rightarrow> nat \<Rightarrow> cache \<Rightarrow> cache_view \<Rightarrow> 'w \<Rightarrow> stage \<Rightarrow> bool" where
  "running_ok S ps c v w st \<longleftrightarrow> usable S ps (loose st) c v w \<and> phase_inv (phase_of st) v \<and> stage_ok S v w st"

lemma running_okD:
  assumes "running_ok S ps c v w st"
  shows "mrep (cache_map c) v" "device_ok c ps" "keys_ok v"
    "clean_blocks (page_table v) (marked v \<union> loose st) (flash S w) (disk S w)" "phase_inv (phase_of st) v" "stage_ok S v w st"
  using assms by (simp_all add: running_ok_def usable_def)

text \<open>What a stage leaves as it is.\<close>

definition stage_done :: "'w storage \<Rightarrow> nat \<Rightarrow> u64 \<Rightarrow> cache \<Rightarrow> cache_view \<Rightarrow> 'w \<Rightarrow> ((mapping \<times> 'w) \<times> stage) option \<Rightarrow> bool" where
  "stage_done S ps buf c v w r \<longleftrightarrow> (\<exists>m' w' st' v'. r = Some ((m', w'), st')
     \<and> running_ok S ps (c\<lparr>cache_map := m'\<rparr>) v' w' st' \<and> same_store (stored S v' w') (stored S v w) \<and> buffer_only S buf w w')"

lemma running_okI:
  assumes "mrep m' v'" and "cblock_shift v' = cblock_shift v" and "running_ok S ps c v w st"
    and "keys_ok v'" and "clean_blocks (page_table v') (marked v' \<union> loose st') (flash S w') (disk S w')"
    and "phase_inv (phase_of st') v'" and "stage_ok S v' w' st'"
  shows "running_ok S ps (c\<lparr>cache_map := m'\<rparr>) v' w' st'"
proof -
  have "device_ok (c\<lparr>cache_map := m'\<rparr>) ps"
    using device_ok_map [OF running_okD(2) [OF assms(3)]] mrep_fields(7) [OF assms(1)]
      mrep_fields(7) [OF running_okD(1) [OF assms(3)]] assms(2) by simp
  with assms show ?thesis by (simp add: running_ok_def usable_def)
qed

lemma stage_doneI:
  assumes "r = Some ((m', w'), st')" and "mrep m' v'" and "cblock_shift v' = cblock_shift v" and "running_ok S ps c v w st"
    and "keys_ok v'" and "clean_blocks (page_table v') (marked v' \<union> loose st') (flash S w') (disk S w')"
    and "phase_inv (phase_of st') v'" and "stage_ok S v' w' st'" and "same_store (stored S v' w') (stored S v w)"
    and "buffer_only S buf w w'"
  shows "stage_done S ps buf c v w r"
  unfolding stage_done_def using running_okI [OF assms(2-8)] assms(1,9,10) by (intro exI conjI)

lemma buffer_only_refl [simp]: "buffer_only S buf w w"
  by (simp add: buffer_only_def)

lemma running_shift:
  assumes run: "running_ok S ps c v w st" and bs: "bs * 2 ^ ps = 4096"
  shows "cblock_shift_ok (cache_map c) ps bs"
  using device_ok_shifts(2) [OF running_okD(2) [OF run]] running_okD(2) [OF run] bs
  by (simp add: cblock_shift_ok_def device_ok_def)

lemma keys_ok_cong: "page_table v' = page_table v \<Longrightarrow> work_list v' = work_list v \<Longrightarrow> keys_ok v' = keys_ok v"
  by (simp add: keys_ok_def)

lemma stage_peek:
  assumes run: "running_ok S ps c v w At_rest"
  shows "stage_done S ps buf c v w (advance sys t buf (cache_map c, w) At_rest)"
proof -
  note R = running_okD [OF run]
  have peak: "advance sys t buf (cache_map c, w) At_rest = Some ((cache_map c, w),
      if work_list v = [] then At_rest else Peeked (hd (work_list v)))"
    using peak_phase [OF R(1,5)] by simp
  show ?thesis
    by (rule stage_doneI [OF peak R(1) refl run R(3)]) (use R phase_peek [of v] in auto)
qed

lemma stage_promote:
  assumes run: "running_ok S ps c v w (Peeked k)"
  shows "stage_done S ps buf c v w (advance sys t buf (cache_map c, w) (Peeked k))"
proof -
  note R = running_okD [OF run]
  have k: "phase_inv (Chosen k) v" using R(5) by simp
  obtain v' x where start: "v_promotion_start k v = (v', x)" by fastforce
  obtain m' where m': "promotion_free_to_clean (cache_map c) (fst k) (snd k) = Some (m', x)" "mrep m' v'"
    using promotion_start_sim [OF R(1) chosen_short [OF k], of "snd k"] start by (auto elim: yieldsE)
  have step: "advance sys t buf (cache_map c, w) (Peeked k) =
      Some ((m', w), case x of Some e \<Rightarrow> Copying_in k e | None \<Rightarrow> To_demote)"
    using m'(1) by simp
  have phase: "phase_inv (phase_of (case x of Some e \<Rightarrow> Copying_in k e | None \<Rightarrow> To_demote)) v'"
    using phase_promote [OF R(1) k start] by (cases x) simp_all
  have v': "page_table v' = page_table v \<and> marked v' = marked v \<and> work_list v' = work_list v \<and> cblock_shift v' = cblock_shift v
      \<and> (\<forall>e. x = Some e \<longrightarrow> key_of v' e = k)"
    using start by (cases k v rule: v_promotion_start_cases) auto
  show ?thesis
  proof (rule stage_doneI [OF step m'(2) _ run _ _ phase])
    show "keys_ok v'" using keys_ok_cong [of v' v] v' R(3) by simp
  qed (use R(4) v' in \<open>cases x; simp\<close>)+
qed


lemma stage_copy_in:
  assumes rel: "reliable sys t S bs" and bs: "bs * 2 ^ ps = 4096" and run: "running_ok S ps c v w (Copying_in k e)"
  shows "stage_done S ps buf c v w (advance sys t buf (cache_map c, w) (Copying_in k e))"
proof -
  note R = running_okD [OF run]
  have ph: "phase_inv (Promoting e) v" and key: "key_of v e = k" using R(5,6) by simp_all
  have e: "e \<in> moving v" "e \<notin> ran (page_table v)" using promoting_new [OF ph] by simp_all
  have "k \<in> set (work_list v)" using ph key list.set_sel(1) [of "work_list v"] by (simp add: phase_inv_def)
  then have small: "unat (snd k) < 2 ^ 17" using R(3) by (simp add: keys_ok_def key_ok_def)
  have small_e: "e < CACHE_BLOCK_NUMBER" using mrep_small(1) [OF R(1), of e] e(1) R(1) by (auto simp: mrep_def mstruct_def)
  obtain w' where w': "mg_start sys t (cache_map c) buf (Some (fst k)) (snd k) e PROMOTION w = Some (True, w')"
    "buffer_only S buf w w'" "disk S w' = disk S w"
    "flash S w' = overwrite (cblock_bytes * unat e) (bytes_at (disk S w (fst k)) (cblock_bytes * unat (snd k)) cblock_bytes) (flash S w)"
    by (rule promotion_transfer [OF rel running_shift [OF run bs] small_e small])
  have step: "advance sys t buf (cache_map c, w) (Copying_in k e) = Some ((cache_map c, w'), Copied_in e True)" using w'(1) by simp
  have lo: "length (bytes_at (disk S w (fst k)) (cblock_bytes * unat (snd k)) cblock_bytes) \<le> cblock_bytes" by simp
  show ?thesis
  proof (rule stage_doneI [OF step R(1) refl run R(3) _ _ _ _ w'(2)])
    show "clean_blocks (page_table v) (marked v \<union> loose (Copied_in e True)) (flash S w') (disk S w')"
      using unmapped_flash_write(2) [OF e(2) lo R(4)] by (simp add: w'(3,4))
    show "same_store (stored S v w') (stored S v w)" using unmapped_flash_write(1) [OF e(2) lo] by (simp add: w'(3,4))
    show "stage_ok S v w' (Copied_in e True)" using block_copy_made [of e "disk S w" "fst k" "snd k"] by (simp add: w'(3,4) key)
  qed (use ph in simp)
qed

lemma stage_enter:
  assumes run: "running_ok S ps c v w (Copied_in e s)"
  shows "stage_done S ps buf c v w (advance sys t buf (cache_map c, w) (Copied_in e s))"
proof -
  note R = running_okD [OF run]
  have ph: "phase_inv (Promoting e) v" and s: s and copy: "block_copy (flash S w) (disk S w) e (key_of v e)" using R(5,6) by simp_all
  have new: "e \<in> moving v" "e \<notin> ran (page_table v)" "page_table v (key_of v e) = None" using promoting_new [OF ph] by simp_all
  let ?v = "v_promotion_complete e True v"
  obtain m' where m': "promotion_complete (cache_map c) e True = Some m'" "mrep m' ?v"
    using promotion_complete_sim [OF R(1) new, of True] by (rule becomesE)
  have step: "advance sys t buf (cache_map c, w) (Copied_in e s) = Some ((m', w), Served_work)" using m'(1) s by simp
  have table: "page_table ?v = (page_table v)(key_of v e \<mapsto> e)" "marked ?v = marked v" "work_list ?v = work_list v"
      "cblock_shift ?v = cblock_shift v"
    by (simp_all add: v_promotion_complete_def v_enqueue_tail_def Let_def)
  have "key_of v e \<in> set (work_list v)" using ph list.set_sel(1) [of "work_list v"] by (simp add: phase_inv_def)
  then have keys: "keys_ok ?v" using R(3) by (simp add: keys_ok_def table(1,3))
  show ?thesis
  proof (rule stage_doneI [OF step m'(2) table(4) run keys])
    show "clean_blocks (page_table ?v) (marked ?v \<union> loose Served_work) (flash S w) (disk S w)"
      using content_enter(2) [where pt = "page_table v", OF new(3) copy, of "marked v"] R(4) by (simp add: table(1,2))
    show "same_store (stored S ?v w) (stored S v w)"
      using content_enter(1) [where pt = "page_table v", OF new(3) copy] by (simp add: table(1))
    show "phase_inv (phase_of Served_work) ?v" using phase_promoted [OF R(1) ph] by simp
  qed simp_all
qed

lemma stage_demote:
  assumes run: "running_ok S ps c v w To_demote"
  shows "stage_done S ps buf c v w (advance sys t buf (cache_map c, w) To_demote)"
proof -
  note R = running_okD [OF run]
  have ph: "phase_inv TryDemotion v" using R(5) by simp
  obtain v' x where start: "v_demotion_start v = (v', x)" by fastforce
  obtain m' where m': "demotion_clean_to_free (cache_map c) = Some (m', x)" "mrep m' v'"
    using demotion_start_sim [OF R(1)] start by (auto elim: yieldsE)
  have step: "advance sys t buf (cache_map c, w) To_demote = Some ((m', w), case x of Some e \<Rightarrow> Trimming e | None \<Rightarrow> To_write_back)"
    using m'(1) by simp
  have phase: "phase_inv (phase_of (case x of Some e \<Rightarrow> Trimming e | None \<Rightarrow> To_write_back)) v'"
    using phase_demote [OF R(1) ph start] by (cases x) simp_all
  have v': "page_table v' = page_table v \<and> marked v' = marked v \<and> work_list v' = work_list v \<and> cblock_shift v' = cblock_shift v
      \<and> (\<forall>e. x = Some e \<longrightarrow> e \<in> set (clean_q v))"
    using start by (cases v rule: v_demotion_start_cases) auto
  have unmarked: "x = Some e \<Longrightarrow> e \<notin> marked v'" for e using v' mrep_roles(3) [OF R(1), of e] by simp
  show ?thesis
  proof (rule stage_doneI [OF step m'(2) _ run _ _ phase])
    show "keys_ok v'" using keys_ok_cong [of v' v] v' R(3) by simp
    show "stage_ok S v' w (case x of Some e \<Rightarrow> Trimming e | None \<Rightarrow> To_write_back)" using unmarked by (cases x) simp_all
  qed (use R(4) v' in \<open>cases x; simp\<close>)+
qed

text \<open>What lies in block 0 does not matter while no page is there.\<close>

lemma block_zero_unused:
  assumes run: "running_ok S ps c v w st" and free: "0 \<notin> ran (page_table v)" and same: "beyond_block_zero S w w'"
    and ok: "stage_ok S v w' st"
  shows "running_ok S ps c v w' st" and "stored S v w' = stored S v w"
proof -
  note R = running_okD [OF run] and same = same [unfolded beyond_block_zero_def]
  have fl: "flash S w' (cblock_bytes * unat e + x) = flash S w (cblock_bytes * unat e + x)" if "page_table v k = Some e" for k e x
  proof -
    have "e \<noteq> 0" using ranI [of "page_table v" k e] that free by metis
    then have "1 \<le> unat e" by (simp add: Suc_le_eq word_neq_0_conv unat_gt_0)
    then have "cblock_bytes \<le> cblock_bytes * unat e + x" by simp
    with same show ?thesis by blast
  qed
  have "clean_blocks (page_table v) (marked v \<union> loose st) (flash S w') (disk S w')"
    using R(4) same fl unfolding clean_blocks_def by (metis (no_types, lifting))
  with run ok same show "running_ok S ps c v w' st" by (simp add: running_ok_def usable_def)
  show "stored S v w' = stored S v w" using same fl by (auto simp: content_def fun_eq_iff split: option.split)
qed

lemma trim_step: "advance sys t buf (m, w) (Trimming e) = Some ((m, trimmed sys t m w), Trimmed e True)"
  by (simp add: demotion_start)

lemma stage_after_trim:
  assumes run: "running_ok S ps c v w (Trimming e)"
  shows "running_ok S ps c v w (Trimmed e True)"
  using run by (simp add: running_ok_def)

lemma stage_trim:
  assumes rel: "reliable sys t S bs" and bs: "bs * 2 ^ ps = 4096" and run: "running_ok S ps c v w (Trimming e)"
    and spare: "trim_spares sys t S (cache_map c) w"
  shows "stage_done S ps buf c v w (advance sys t buf (cache_map c, w) (Trimming e))"
proof -
  note R = running_okD [OF run] and start = stage_after_trim [OF run]
  let ?w = "trimmed sys t (cache_map c) w"
  have beyond: "beyond_block_zero S w ?w" by (rule demotion_transfer [OF rel running_shift [OF run bs]])
  have "running_ok S ps c v ?w (Trimmed e True) \<and> stored S v ?w = stored S v w"
  proof (cases "flash S ?w = flash S w")
    case True
    with start beyond show ?thesis by (simp add: running_ok_def usable_def beyond_block_zero_def)
  next
    case False
    with spare have "\<not> allocated (ents (cache_map c) 0)" by (auto simp: trim_spares_def)
    then have "0 \<notin> ran (page_table v)" using mrep_entry [OF R(1), of 0] by (auto simp: entry_ok_def)
    from block_zero_unused [OF start this beyond] start show ?thesis by (simp add: running_ok_def)
  qed
  then show ?thesis unfolding stage_done_def trim_step
    using beyond by (intro exI conjI) (auto simp: buffer_only_def beyond_block_zero_def)
qed

lemma stage_left:
  assumes run: "running_ok S ps c v w (Trimmed e s)"
  shows "\<exists>m' v'. (\<forall>w. advance sys t buf (cache_map c, w) (Trimmed e s) = Some ((m', w), Served_work))
    \<and> running_ok S ps (c\<lparr>cache_map := m'\<rparr>) v' w Served_work \<and> same_store (stored S v' w) (stored S v w) \<and> e \<notin> ran (page_table v')"
proof -
  note R = running_okD [OF run]
  have ph: "phase_inv (Demoting e) v" and s: s "e \<notin> marked v" using R(5,6) by simp_all
  have e: "e \<in> moving v" "e \<in> ran (page_table v)" using transfer_hashed ph by blast+
  then obtain p k where k: "page_table v (p, k) = Some e" unfolding ran_def by auto
  have key: "key_of v e = (p, k)" "unat k < 2 ^ 17"
    using mrep_lookup [OF R(1) k] keys_ok_mapped [OF R(3) k] by (simp_all add: key_ok_def)
  let ?v = "v_demotion_complete e True v"
  obtain m' where m': "demotion_complete (cache_map c) e True = Some m'" "mrep m' ?v"
    using demotion_complete_sim [OF R(1) e, of True] by (rule becomesE)
  have step: "advance sys t buf (cache_map c, w) (Trimmed e s) = Some ((m', w), Served_work)" for w using m'(1) s by simp
  have table: "page_table ?v = (page_table v)((p, k) := None)" "marked ?v = marked v" "work_list ?v = work_list v"
      "cblock_shift ?v = cblock_shift v"
    using s(2) by (simp_all add: v_demotion_complete_def v_release_def key(1) Let_def)
  have keys: "keys_ok ?v" using R(3) by (auto simp: keys_ok_def table(1,3))
  have clean: "clean_blocks (page_table v) (marked v) (flash S w) (disk S w)" using R(4) by simp
  have "running_ok S ps (c\<lparr>cache_map := m'\<rparr>) ?v w Served_work"
  proof (rule running_okI [OF m'(2) table(4) run keys])
    show "clean_blocks (page_table ?v) (marked ?v \<union> loose Served_work) (flash S w) (disk S w)"
      using clean_unmap [OF clean] by (simp add: table(1,2))
    show "phase_inv (phase_of Served_work) ?v" using phase_demoted [OF ph] by simp
  qed simp
  moreover have "same_store (stored S ?v w) (stored S v w)"
    using content_demote [where pt = "page_table v", OF k key(2) clean s(2)] by (simp add: table(1))
  moreover have "e \<notin> ran (page_table ?v)" using mrep_lookup [OF R(1), of _ e] key(1) by (auto simp: table(1) ran_def)
  ultimately show ?thesis using step by blast
qed

lemma stage_leave:
  assumes "running_ok S ps c v w (Trimmed e s)"
  shows "stage_done S ps buf c v w (advance sys t buf (cache_map c, w) (Trimmed e s))"
  using stage_left [OF assms, of sys t buf] unfolding stage_done_def by (elim exE conjE) (intro exI conjI, erule spec, auto)

lemma stage_write_back:
  assumes run: "running_ok S ps c v w To_write_back"
  shows "stage_done S ps buf c v w (advance sys t buf (cache_map c, w) To_write_back)"
proof -
  note R = running_okD [OF run]
  have ph: "phase_inv TryWriteback v" using R(5) by simp
  obtain v' x where start: "v_writeback_start v = (v', x)" by fastforce
  obtain m' where m': "writeback_dirty_to_clean (cache_map c) = Some (m', x)" "mrep m' v'"
    using writeback_start_sim [OF R(1)] start by (auto elim: yieldsE)
  let ?st = "case x of Some e \<Rightarrow> Copying_out e | None \<Rightarrow> Served_work"
  have step: "advance sys t buf (cache_map c, w) To_write_back = Some ((m', w), ?st)" using m'(1) by simp
  have phase: "phase_inv (phase_of ?st) v'" using phase_write_back [OF R(1) ph start] by (cases x) simp_all
  have v': "page_table v' = page_table v \<and> work_list v' = work_list v \<and> cblock_shift v' = cblock_shift v
      \<and> marked v \<subseteq> marked v' \<union> loose ?st"
    using start by (cases v rule: v_writeback_start_cases) auto
  show ?thesis
  proof (rule stage_doneI [OF step m'(2) _ run _ _ phase])
    show "keys_ok v'" using keys_ok_cong [of v' v] v' R(3) by simp
    show "clean_blocks (page_table v') (marked v' \<union> loose ?st) (flash S w) (disk S w)"
      using clean_mark [of "page_table v" "marked v"] R(4) v' by simp
  qed (use v' in \<open>cases x; simp\<close>)+
qed

lemma stage_copy_out:
  assumes rel: "reliable sys t S bs" and bs: "bs * 2 ^ ps = 4096" and run: "running_ok S ps c v w (Copying_out e)"
  shows "stage_done S ps buf c v w (advance sys t buf (cache_map c, w) (Copying_out e))"
proof -
  note R = running_okD [OF run]
  have ph: "phase_inv (WritingBack e) v" using R(5) by simp
  have e: "e \<in> moving v" "e \<in> ran (page_table v)" using transfer_hashed ph by blast+
  then obtain k where k: "page_table v k = Some e" unfolding ran_def by auto
  let ?x = "ents (cache_map c) e"
  have name: "(full_path_name ?x, cache_page_index ?x) = k"
    using mrep_fields(2) [OF R(1), of e] mrep_lookup [OF R(1) k] by (simp add: entry_key_def)
  have small: "unat (cache_page_index ?x) < 2 ^ 17" using keys_ok_mapped [OF R(3) k] name by (auto simp: key_ok_def)
  have small_e: "e < CACHE_BLOCK_NUMBER" using mapped_small [OF R(1) k] by blast
  note hit = k [folded name]
  obtain w' where w': "mg_start sys t (cache_map c) buf (Some (full_path_name ?x)) (cache_page_index ?x) e WRITEBACK w = Some (True, w')"
    "buffer_only S buf w w'" "flash S w' = flash S w"
    "disk S w' = store_write (full_path_name ?x) (cblock_bytes * unat (cache_page_index ?x))
       (bytes_at (flash S w) (cblock_bytes * unat e) cblock_bytes) (disk S w)"
    by (rule writeback_transfer [OF rel running_shift [OF run bs] small_e small])
  have step: "advance sys t buf (cache_map c, w) (Copying_out e) = Some ((cache_map c, w'), Copied_out e True)"
    using w'(1) mrep_to_entry [OF R(1) e(1)] by simp
  have clean: "clean_blocks (page_table v) (insert e (marked v)) (flash S w) (disk S w)" using R(4) by simp
  show ?thesis
  proof (rule stage_doneI [OF step R(1) refl run R(3) _ _ _ _ w'(2)])
    have "insert e (marked v) - {e} \<subseteq> marked v \<union> loose (Copied_out e True)" by auto
    from clean_mark [OF clean_writeback [OF clean mrep_injective [OF R(1)] hit] this]
    show "clean_blocks (page_table v) (marked v \<union> loose (Copied_out e True)) (flash S w') (disk S w')" by (simp only: w'(3,4))
    show "same_store (stored S v w') (stored S v w)"
      using content_writeback [where pt = "page_table v", OF hit small] by (simp only: w'(3,4))
  qed (use ph in simp_all)
qed

lemma stage_written:
  assumes run: "running_ok S ps c v w (Copied_out e s)"
  shows "stage_done S ps buf c v w (advance sys t buf (cache_map c, w) (Copied_out e s))"
proof -
  note R = running_okD [OF run]
  have ph: "phase_inv (WritingBack e) v" and s: s using R(5,6) by simp_all
  have e: "e \<in> moving v" "e \<in> ran (page_table v)" using transfer_hashed ph by blast+
  let ?v = "v_writeback_complete e True v"
  obtain m' where m': "writeback_complete (cache_map c) e True = Some m'" "mrep m' ?v"
    using writeback_complete_sim [OF R(1) e, of True] by (rule becomesE)
  have step: "advance sys t buf (cache_map c, w) (Copied_out e s) = Some ((m', w), Served_work)" using m'(1) s by simp
  have table: "page_table ?v = page_table v" "marked ?v = marked v" "work_list ?v = work_list v" "cblock_shift ?v = cblock_shift v"
    by (simp_all add: v_writeback_complete_def v_enqueue_tail_def Let_def)
  have keys: "keys_ok ?v" using keys_ok_cong [OF table(1,3)] R(3) by simp
  show ?thesis
    by (rule stage_doneI [OF step m'(2) table(4) run keys])
      (use R(4) phase_written_back [OF ph] in \<open>simp_all add: table(1,2)\<close>)
qed

lemma stage_finish:
  assumes run: "running_ok S ps c v w Served_work"
  shows "stage_done S ps buf c v w (advance sys t buf (cache_map c, w) Served_work)"
proof -
  note R = running_okD [OF run]
  have ph: "phase_inv Served v" using R(5) by simp
  then have ne: "work_list v \<noteq> []" by (simp add: phase_inv_def)
  let ?v = "v\<lparr>work_list := tl (work_list v)\<rparr>"
  obtain q where q: "remove_work (wq (cache_map c)) = Some (q, True)" "mrep (cache_map c\<lparr>wq := q\<rparr>) ?v"
    by (rule remove_work_sim [OF R(1) ne])
  have step: "advance sys t buf (cache_map c, w) Served_work = Some ((cache_map c\<lparr>wq := q\<rparr>, w), At_rest)" using q(1) by simp
  have keys: "keys_ok ?v" using R(3) ne by (auto simp: keys_ok_def dest: list.set_sel(2))
  show ?thesis
    by (rule stage_doneI [OF step q(2) _ run keys]) (use R(4) phase_finish [OF ph] in simp_all)
qed

lemma advance_keeps:
  assumes rel: "reliable sys t S bs" and bs: "bs * 2 ^ ps = 4096" and run: "running_ok S ps c v w st"
    and spare: "\<And>e. st = Trimming e \<Longrightarrow> trim_spares sys t S (cache_map c) w"
  shows "stage_done S ps buf c v w (advance sys t buf (cache_map c, w) st)"
  using run spare
  by (cases st) (simp_all only: stage_peek stage_promote stage_copy_in [OF rel bs] stage_enter stage_demote stage_trim [OF rel bs]
    stage_leave stage_write_back stage_copy_out [OF rel bs] stage_written stage_finish)


section \<open>Requests between two stages\<close>

text \<open>
  A write of the page that is being thrown out, or that has been copied in and is not in the page table yet. \<^verbatim>\<open>Races\<close> shows
  that such writes are lost.
\<close>

fun conflict :: "mapping \<Rightarrow> stage \<Rightarrow> pio \<Rightarrow> bool" where
  "conflict m (Copied_in e s) node \<longleftrightarrow> operation node \<noteq> READ \<and> entry_key (ents m e) = request_key node"
| "conflict m (Trimming e) node \<longleftrightarrow> operation node \<noteq> READ \<and> entry_key (ents m e) = request_key node"
| "conflict m (Trimmed e s) node \<longleftrightarrow> operation node \<noteq> READ \<and> entry_key (ents m e) = request_key node"
| "conflict m st node \<longleftrightarrow> False"

lemma unmarked_kept:
  assumes rep: "mrep m' v'" and own: "marks_own node v v'" and key: "key_of v' e = key_of v e" and e: "e \<notin> marked v"
    and other: "operation node = READ \<or> key_of v e \<noteq> request_key node"
  shows "e \<notin> marked v'"
proof
  assume "e \<in> marked v'"
  with own e have "operation node \<noteq> READ" "page_table v' (request_key node) = Some e" by (auto simp: marks_own_def)
  with mrep_lookup [OF rep] key other show False by simp
qed

lemma block_copy_kept:
  assumes flash: "untouched_flash S v' w w'" and disk: "untouched_disk S node v' w w'" and e: "e \<notin> ran (page_table v')"
    and other: "operation node = READ \<or> k \<noteq> request_key node" and copy: "block_copy (flash S w) (disk S w) e k"
  shows "block_copy (flash S w') (disk S w') e k"
proof -
  have "disk S w' (fst k) (cblock_bytes * unat (snd k) + x) = disk S w (fst k) (cblock_bytes * unat (snd k) + x)"
    if "x < cblock_bytes" for x
    using disk other that unfolding untouched_disk_def by (metis prod.collapse)
  moreover have "flash S w' (cblock_bytes * unat e + x) = flash S w (cblock_bytes * unat e + x)" if "x < cblock_bytes" for x
    using flash e that unfolding untouched_flash_def by blast
  ultimately show ?thesis using copy by (simp add: block_copy_def)
qed

lemma stage_ok_kept:
  assumes rep: "mrep m v" "mrep m' v'" and ok: "stage_ok S v w st" and phase: "phase_inv (phase_of st) v" "phase_inv (phase_of st) v'"
    and kept: "keeps_others S node v w v' w'" and free: "\<not> conflict m st node"
  shows "stage_ok S v' w' st"
proof -
  have K: "untouched_flash S v' w w'" "untouched_disk S node v' w w'" "marks_own node v v'" "\<forall>e \<in> moving v. key_of v' e = key_of v e"
    using kept by (simp_all add: keeps_others_def)
  have name: "entry_key (ents m e) = key_of v e" for e using mrep_fields(2) [OF rep(1)] .
  show ?thesis
  proof (cases st)
    case (Copying_in k e)
    have "e \<in> moving v" using promoting_new phase(1) Copying_in by simp
    with ok K(4) Copying_in show ?thesis by simp
  next
    case (Copied_in e s)
    have e: "e \<in> moving v" "e \<notin> ran (page_table v')" using promoting_new phase Copied_in by simp_all
    have "operation node = READ \<or> key_of v e \<noteq> request_key node" using free Copied_in by (auto simp: name)
    from block_copy_kept [OF K(1,2) e(2) this] ok e(1) K(4) Copied_in show ?thesis by simp
  next
    case (Trimming e)
    have "e \<in> moving v" using transfer_hashed phase(1) Trimming by simp
    moreover have "operation node = READ \<or> key_of v e \<noteq> request_key node" using free Trimming by (auto simp: name)
    ultimately show ?thesis using unmarked_kept [OF rep(2) K(3)] K(4) ok Trimming by simp
  next
    case (Trimmed e s)
    have "e \<in> moving v" using transfer_hashed phase(1) Trimmed by simp
    moreover have "operation node = READ \<or> key_of v e \<noteq> request_key node" using free Trimmed by (auto simp: name)
    ultimately show ?thesis using unmarked_kept [OF rep(2) K(3)] K(4) ok Trimmed by simp
  qed (use ok in simp_all)
qed

lemma submit_keeps:
  assumes rel: "reliable sys t S bs" and bs: "bs * 2 ^ ps = 4096" and run: "running_ok S ps c v w st"
    and node: "h p = Some node" "pio_to_iovec h p (unat (pio_cnt node)) = Some (page_vector ns)" "unat (pio_cnt node) = length ns"
    and check: "check_pio node" and op: "operation node \<noteq> DISCARD" and key: "key_ok (request_key node)" and fd: "pio_fd node = 0"
    and free: "\<not> conflict (cache_map c) st node"
  obtains c' v' w' rc where "submit_to_target sys t h c p w = Some ((c', w'), rc)" "running_ok S ps c' v' w' st"
    "same_store (stored S v' w') (fst (plain_request node (iov_bytes (page_vector ns)) (stored S v w, ram S w)))"
    "ram S w' = snd (plain_request node (iov_bytes (page_vector ns)) (stored S v w, ram S w))"
proof -
  note R = running_okD [OF run]
  have use: "usable S ps (loose st) c v w" using run by (simp add: running_ok_def)
  obtain c' v' w' rc where fin: "submit_to_target sys t h c p w = Some ((c', w'), rc)" "usable S ps (loose st) c' v' w'"
    "same_store (stored S v' w') (fst (plain_request node (iov_bytes (page_vector ns)) (stored S v w, ram S w)))"
    "ram S w' = snd (plain_request node (iov_bytes (page_vector ns)) (stored S v w, ram S w))" "keeps_others S node v w v' w'"
    using request_transparent [OF rel bs use node check op key fd] unfolding request_done_def by blast
  have phase: "phase_inv (phase_of st) v'" using fin(5) R(5) by (simp add: keeps_others_def)
  from stage_ok_kept [OF R(1) usableD(1) [OF fin(2)] R(6,5) phase fin(5) free] fin(2) phase
  have "running_ok S ps c' v' w' st" by (simp add: running_ok_def)
  from that [OF fin(1) this fin(3,4)] show thesis .
qed

section \<open>A whole round\<close>

text \<open>
  In a whole round no request comes between the trim of a block and its completion. So a demotion of block 0 does no
  harm on any device: what it leaves in the block, the completion takes out of the cache. \<open>near_miss\<close> says that the
  storage \<open>w\<close> is as good as \<open>w0\<close> until then.
\<close>

definition near_miss :: "'w storage \<Rightarrow> stage \<Rightarrow> 'w \<Rightarrow> 'w \<Rightarrow> bool" where
  "near_miss S st w0 w \<longleftrightarrow> w = w0 \<or> st = Trimmed 0 True \<and> beyond_block_zero S w0 w"

definition trim_harmless :: "'w system \<Rightarrow> target \<Rightarrow> 'w storage \<Rightarrow> mapping \<times> 'w \<Rightarrow> stage \<Rightarrow> bool" where
  "trim_harmless sys t S s st \<longleftrightarrow> (\<forall>e. st = Trimming e \<longrightarrow> e = 0 \<or> trim_spares sys t S (fst s) (snd s))"

lemma advance_near:
  assumes rel: "reliable sys t S bs" and bs: "bs * 2 ^ ps = 4096" and run: "running_ok S ps c v w0 st"
    and near: "near_miss S st w0 w" and spare: "trim_harmless sys t S (cache_map c, w) st"
  shows "\<exists>m1 w1 st1 v1 w2. advance sys t buf (cache_map c, w) st = Some ((m1, w1), st1)
    \<and> running_ok S ps (c\<lparr>cache_map := m1\<rparr>) v1 w2 st1 \<and> near_miss S st1 w2 w1
    \<and> same_store (stored S v1 w2) (stored S v w0) \<and> buffer_only S buf w w1"
proof (cases "w = w0 \<and> st = Trimming 0")
  case True
  have "beyond_block_zero S w (trimmed sys t (cache_map c) w)"
    by (rule demotion_transfer [OF rel running_shift [OF run bs]])
  moreover have "running_ok S ps c v w0 (Trimmed 0 True)" by (rule stage_after_trim) (use run True in simp)
  ultimately show ?thesis using True
    by (intro exI [of _ "cache_map c"] exI [of _ "trimmed sys t (cache_map c) w"] exI [of _ "Trimmed 0 True"] exI [of _ v] exI [of _ w])
      (simp add: trim_step near_miss_def beyond_block_zero_def buffer_only_def del: advance.simps)
next
  case other: False
  show ?thesis
  proof (cases "w = w0")
    case True
    have "stage_done S ps buf c v w0 (advance sys t buf (cache_map c, w0) st)"
      by (rule advance_keeps [OF rel bs run]) (use spare other True in \<open>auto simp: trim_harmless_def\<close>)
    then show ?thesis unfolding stage_done_def near_miss_def True by blast
  next
    case False
    with near have st: "st = Trimmed 0 True" and beyond: "beyond_block_zero S w0 w" by (simp_all add: near_miss_def)
    obtain m1 v1 where left: "\<forall>w. advance sys t buf (cache_map c, w) (Trimmed 0 True) = Some ((m1, w), Served_work)"
      "running_ok S ps (c\<lparr>cache_map := m1\<rparr>) v1 w0 Served_work" "same_store (stored S v1 w0) (stored S v w0)" "0 \<notin> ran (page_table v1)"
      using stage_left [OF run [unfolded st], of sys t buf] by (elim exE conjE) (rule that)
    have "running_ok S ps (c\<lparr>cache_map := m1\<rparr>) v1 w Served_work" "stored S v1 w = stored S v1 w0"
      by (rule block_zero_unused [OF left(2,4) beyond]; simp)+
    with left show ?thesis unfolding st near_miss_def by (metis (no_types, lifting) buffer_only_refl)
  qed
qed

lemma stages_keep:
  assumes rel: "reliable sys t S bs" and bs: "bs * 2 ^ ps = 4096" and run: "running_ok S ps c v w0 st" and near: "near_miss S st w0 w"
    and spare: "\<forall>k < n. \<forall>s st'. stages k sys t buf (cache_map c, w) st = Some (s, st') \<longrightarrow> trim_harmless sys t S s st'"
  shows "\<exists>m' w' st' v' w2. stages n sys t buf (cache_map c, w) st = Some ((m', w'), st')
    \<and> running_ok S ps (c\<lparr>cache_map := m'\<rparr>) v' w2 st' \<and> near_miss S st' w2 w'
    \<and> same_store (stored S v' w2) (stored S v w0) \<and> buffer_only S buf w w'"
  using run near spare
proof (induction n arbitrary: c v w0 w st)
  case 0
  then show ?case unfolding stages.simps(1) by (intro exI [of _ "cache_map c"] exI [of _ w] exI [of _ st] exI [of _ v] exI [of _ w0]) simp
next
  case (Suc n)
  have "trim_harmless sys t S (cache_map c, w) st" using Suc.prems(3) by (metis stages.simps(1) zero_less_Suc)
  from advance_near [OF rel bs Suc.prems(1,2) this, of buf] obtain m1 w1 st1 v1 w2 where
    step: "advance sys t buf (cache_map c, w) st = Some ((m1, w1), st1)" "running_ok S ps (c\<lparr>cache_map := m1\<rparr>) v1 w2 st1"
      "near_miss S st1 w2 w1" "same_store (stored S v1 w2) (stored S v w0)" "buffer_only S buf w w1"
    by (elim exE conjE) (rule that)
  show ?case
  proof (cases "st1 = At_rest")
    case True
    with step show ?thesis by auto
  next
    case False
    have later: "stages (Suc k) sys t buf (cache_map c, w) st = stages k sys t buf (m1, w1) st1" for k using step(1) False by simp
    have "\<forall>k < n. \<forall>s st'. stages k sys t buf (cache_map (c\<lparr>cache_map := m1\<rparr>), w1) st1 = Some (s, st') \<longrightarrow> trim_harmless sys t S s st'"
    proof (intro allI impI)
      fix k s st'
      assume k: "k < n" and at: "stages k sys t buf (cache_map (c\<lparr>cache_map := m1\<rparr>), w1) st1 = Some (s, st')"
      have "stages (Suc k) sys t buf (cache_map c, w) st = Some (s, st')" unfolding later using at by simp
      with Suc.prems(3) k show "trim_harmless sys t S s st'" by blast
    qed
    from Suc.IH [OF step(2,3) this] obtain m2 w3 st2 v2 w4 where
      rest: "stages n sys t buf (m1, w1) st1 = Some ((m2, w3), st2)" "running_ok S ps (c\<lparr>cache_map := m2\<rparr>) v2 w4 st2"
        "near_miss S st2 w4 w3" "same_store (stored S v2 w4) (stored S v1 w2)" "buffer_only S buf w1 w3" by auto
    have "buffer_only S buf w w3" using step(5) rest(5) by (simp add: buffer_only_def)
    with rest(1-3) same_store_trans [OF rest(4) step(4)] show ?thesis unfolding later by blast
  qed
qed

text \<open>No trim of a round harms a cached page.\<close>

definition round_spares :: "'w system \<Rightarrow> target \<Rightarrow> 'w storage \<Rightarrow> u64 \<Rightarrow> mapping \<Rightarrow> 'w \<Rightarrow> bool" where
  "round_spares sys t S buf m w \<longleftrightarrow> (\<forall>k < 7. \<forall>s st. stages k sys t buf (m, w) At_rest = Some (s, st) \<longrightarrow> trim_harmless sys t S s st)"

definition coherent :: "'w storage \<Rightarrow> nat \<Rightarrow> cache \<Rightarrow> cache_view \<Rightarrow> 'w \<Rightarrow> bool" where
  "coherent S ps c v w \<longleftrightarrow> running_ok S ps c v w At_rest"

lemma round_keeps:
  assumes rel: "reliable sys t S bs" and bs: "bs * 2 ^ ps = 4096" and coh: "coherent S ps c v w"
    and spare: "round_spares sys t S buf (cache_map c) w"
  obtains m' w' v' did where "do_migration_work sys t (cache_map c) buf w = Some ((m', w'), did)"
    "coherent S ps (c\<lparr>cache_map := m'\<rparr>) v' w'" "same_store (stored S v' w') (stored S v w)" "buffer_only S buf w w'"
proof -
  have run: "running_ok S ps c v w At_rest" using coh by (simp add: coherent_def)
  obtain m' w' st' v' w2 where stages: "stages 7 sys t buf (cache_map c, w) At_rest = Some ((m', w'), st')"
    and keep: "running_ok S ps (c\<lparr>cache_map := m'\<rparr>) v' w2 st'" "near_miss S st' w2 w'" "same_store (stored S v' w2) (stored S v w)"
      "buffer_only S buf w w'"
    using stages_keep [OF rel bs run _ spare [unfolded round_spares_def]] unfolding near_miss_def by blast
  from stages [unfolded stages_make_round] obtain did where "do_migration_work sys t (cache_map c) buf w = Some ((m', w'), did)" "st' = At_rest"
    by auto
  with that keep show thesis by (simp add: coherent_def near_miss_def)
qed

end
