(* ===== verification/Machine.thy ===== *)
theory Machine
  imports Coherence
begin

text \<open>
  A machine with storage that works: memory, a cache device with blocks of 512 bytes, files, and one open
  file at a time. What a trim does to the blocks it names is a parameter of the machine. It is \<open>reliable\<close>, so the
  hypotheses of \<^verbatim>\<open>PlainFiles\<close> can hold, and small runs of the cache on it are examples of its theorems.
\<close>

section \<open>The machine\<close>

record drives =
  m_flash :: "nat \<Rightarrow> byte"
  m_disk :: store
  m_open :: path

type_synonym host = "(u64 \<Rightarrow> byte) \<times> drives"

definition machine_storage :: "host storage" where
  "machine_storage = \<lparr>ram = fst, flash = (\<lambda>w. m_flash (snd w)), disk = (\<lambda>w. m_disk (snd w)),
     opened = (\<lambda>w fd. if fd = 3 then Some (m_open (snd w)) else None)\<rparr>"

definition load :: "u64 list \<Rightarrow> byte list \<Rightarrow> host \<Rightarrow> host" where
  "load as bs w = (put_ram as bs (fst w), snd w)"

definition program_flash :: "nat \<Rightarrow> byte list \<Rightarrow> host \<Rightarrow> host" where
  "program_flash lo bs w = (fst w, (snd w)\<lparr>m_flash := overwrite lo bs (m_flash (snd w))\<rparr>)"

definition write_disk :: "nat \<Rightarrow> byte list \<Rightarrow> host \<Rightarrow> host" where
  "write_disk lo bs w = (fst w, (snd w)\<lparr>m_disk := store_write (m_open (snd w)) lo bs (m_disk (snd w))\<rparr>)"

definition open_file :: "path \<Rightarrow> host \<Rightarrow> host" where
  "open_file p w = (fst w, (snd w)\<lparr>m_open := p\<rparr>)"

text \<open>How a device takes the segments of a vectored command from its callbacks.\<close>

fun gather :: "(io_req \<Rightarrow> (io_req \<times> u64 \<times> u32) option) \<Rightarrow> nat \<Rightarrow> nat \<Rightarrow> io_req \<Rightarrow> u64 list" where
  "gather next fuel 0 req = []"
| "gather next 0 need req = []"
| "gather next (Suc fuel) need req = (case next req of None \<Rightarrow> [] | Some (req, a, len) \<Rightarrow>
     span a (unat len) @ gather next fuel (need - unat len) req)"

definition vector_addrs :: "(io_req \<Rightarrow> u32 \<Rightarrow> io_req option) \<Rightarrow> (io_req \<Rightarrow> (io_req \<times> u64 \<times> u32) option) \<Rightarrow> nat \<Rightarrow> io_req \<Rightarrow> u64 list" where
  "vector_addrs reset next need req = (case reset req 0 of None \<Rightarrow> [] | Some req \<Rightarrow> gather next need need req)"

lemma gather_segments:
  "segments n req = Some as \<Longrightarrow> n \<le> fuel \<Longrightarrow> gather next_sge_fn fuel (length as) req = as"
proof (induction n arbitrary: req as fuel)
  case (Suc n)
  then obtain req' a len rest where nxt: "next_sge_fn req = Some (req', a, len)" "segments n req' = Some rest"
    and as: "as = span a (unat len) @ rest" by (auto simp: bind_eq_Some_conv)
  obtain f where f: "fuel = Suc f" "n \<le> f" using Suc.prems(2) by (cases fuel) auto
  show ?case
  proof (cases "length as")
    case 0
    then show ?thesis by simp
  next
    case need: (Suc k)
    have "length as - unat len = length rest" by (simp add: as)
    with Suc.IH [OF nxt(2) f(2)] nxt(1) need show ?thesis by (simp add: f(1) as)
  qed
qed simp

definition trimming_machine :: "(u64 \<Rightarrow> u32 \<Rightarrow> host \<Rightarrow> host) \<Rightarrow> host system" where
  "trimming_machine trim = \<lparr>
     sys_open = (\<lambda>p _ _ w. (3, open_file p w)), sys_close = (\<lambda>_ w. w),
     sys_pread = (\<lambda>_ buf n off w. (int (unat n), load (span buf (unat n)) (bytes_at (m_disk (snd w) (m_open (snd w))) (unat off) (unat n)) w)),
     sys_pwrite = (\<lambda>_ buf n off w. (int (unat n), write_disk (unat off) (map (fst w) (span buf (unat n))) w)),
     sys_preadv = (\<lambda>_ v off w. (int (length (iov_bytes v)),
       load (iov_bytes v) (bytes_at (m_disk (snd w) (m_open (snd w))) (unat off) (length (iov_bytes v))) w)),
     sys_pwritev = (\<lambda>_ v off w. (int (length (iov_bytes v)), write_disk (unat off) (map (fst w) (iov_bytes v)) w)),
     env_init = (\<lambda>w. (0, w)), env_fini = (\<lambda>w. w), nvme_probe = (\<lambda>w. ((0, [(NVME_ADDR, 1)]), w)),
     first_active_ns = (\<lambda>_. 1), next_active_ns = (\<lambda>_ _. 0), get_ns = (\<lambda>_ _. 1), ns_is_active = (\<lambda>_. True),
     ns_sector_size = (\<lambda>_. 512), ns_size = (\<lambda>_. 2 ^ 31), alloc_io_qpair = (\<lambda>_ w. (1, w)),
     free_io_qpair = (\<lambda>_ w. w), nvme_detach = (\<lambda>_ w. w),
     ns_cmd_read = (\<lambda>_ _ buf lba num w. (0, load (span buf (unat num * 512)) (bytes_at (m_flash (snd w)) (unat lba * 512) (unat num * 512)) w)),
     ns_cmd_write = (\<lambda>_ _ buf lba num w. (0, program_flash (unat lba * 512) (map (fst w) (span buf (unat num * 512))) w)),
     ns_cmd_deallocate = (\<lambda>_ _ lba num w. (0, trim lba num w)),
     ns_cmd_readv = (\<lambda>_ _ lba num reset next req w. (0, load (vector_addrs reset next (unat num * 512) req)
       (bytes_at (m_flash (snd w)) (unat lba * 512) (unat num * 512)) w)),
     ns_cmd_writev = (\<lambda>_ _ lba num reset next req w. (0, program_flash (unat lba * 512)
       (map (fst w) (vector_addrs reset next (unat num * 512) req)) w)),
     process_completions = (\<lambda>_ w. (True, w))\<rparr>"

lemma machine_completes: "completes (trimming_machine trim) qp (0, w) w"
  by (simp add: completes_def wait_completed.simps [of _ _ w] trimming_machine_def)

lemma vector_addrs_gives: "gives req need as \<Longrightarrow> vector_addrs reset_sgl_fn next_sge_fn need req = as"
  unfolding gives_def vector_addrs_def using gather_segments by fastforce

lemma machine_changes:
  "to_ram machine_storage as bs w (load as bs w)" "to_flash machine_storage lo bs w (program_flash lo bs w)"
  "to_disk machine_storage (m_open (snd w)) lo bs w (write_disk lo bs w)" "unchanged machine_storage w (open_file p w)"
  "unchanged machine_storage w w"
  "ram machine_storage = fst" "flash machine_storage w = m_flash (snd w)" "disk machine_storage w = m_disk (snd w)"
  "opened machine_storage w fd = (if fd = 3 then Some (m_open (snd w)) else None)"
  by (simp_all add: storage_changes machine_storage_def load_def program_flash_def write_disk_def open_file_def)

lemma machine_blocks: "reads_blocks (trimming_machine trim) t machine_storage 512" "writes_blocks (trimming_machine trim) t machine_storage 512"
proof -
  show "reads_blocks (trimming_machine trim) t machine_storage 512"
    unfolding reads_blocks_def
  proof (intro allI exI conjI)
    fix q buf and lba :: u64 and num :: u32 and w
    let ?w' = "load (span buf (unat num * 512)) (bytes_at (m_flash (snd w)) (unat lba * 512) (unat num * 512)) w"
    have "ns_cmd_read (trimming_machine trim) (t_ns t) (t_qpair t q) buf lba num w = (0, ?w')" by (simp add: trimming_machine_def)
    then show "completes (trimming_machine trim) (t_qpair t q) (ns_cmd_read (trimming_machine trim) (t_ns t) (t_qpair t q) buf lba num w) ?w'"
      by (simp only: machine_completes)
    show "to_ram machine_storage (span buf (unat num * 512))
        (bytes_at (flash machine_storage w) (unat lba * 512) (unat num * 512)) w ?w'"
      by (simp only: machine_changes)
  qed
  show "writes_blocks (trimming_machine trim) t machine_storage 512"
    unfolding writes_blocks_def
  proof (intro allI exI conjI)
    fix q buf and lba :: u64 and num :: u32 and w
    let ?w' = "program_flash (unat lba * 512) (map (fst w) (span buf (unat num * 512))) w"
    have "ns_cmd_write (trimming_machine trim) (t_ns t) (t_qpair t q) buf lba num w = (0, ?w')" by (simp add: trimming_machine_def)
    then show "completes (trimming_machine trim) (t_qpair t q) (ns_cmd_write (trimming_machine trim) (t_ns t) (t_qpair t q) buf lba num w) ?w'"
      by (simp only: machine_completes)
    show "to_flash machine_storage (unat lba * 512) (map (ram machine_storage w) (span buf (unat num * 512))) w ?w'"
      by (simp only: machine_changes)
  qed
qed

lemma machine_vectors: "reads_vectors (trimming_machine trim) t machine_storage 512" "writes_vectors (trimming_machine trim) t machine_storage 512"
proof -
  show "reads_vectors (trimming_machine trim) t machine_storage 512"
    unfolding reads_vectors_def
  proof (intro allI impI exI conjI)
    fix q req as and lba :: u64 and num :: u32 and w
    let ?w' = "load as (bytes_at (m_flash (snd w)) (unat lba * 512) (unat num * 512)) w"
    assume "gives req (unat num * 512) as"
    from vector_addrs_gives [OF this] have
      "ns_cmd_readv (trimming_machine trim) (t_ns t) (t_qpair t q) lba num reset_sgl_fn next_sge_fn req w = (0, ?w')"
      by (simp add: trimming_machine_def)
    then show "completes (trimming_machine trim) (t_qpair t q)
        (ns_cmd_readv (trimming_machine trim) (t_ns t) (t_qpair t q) lba num reset_sgl_fn next_sge_fn req w) ?w'"
      by (simp only: machine_completes)
    show "to_ram machine_storage as (bytes_at (flash machine_storage w) (unat lba * 512) (unat num * 512)) w ?w'"
      by (simp only: machine_changes)
  qed
  show "writes_vectors (trimming_machine trim) t machine_storage 512"
    unfolding writes_vectors_def
  proof (intro allI impI exI conjI)
    fix q req as and lba :: u64 and num :: u32 and w
    let ?w' = "program_flash (unat lba * 512) (map (fst w) as) w"
    assume "gives req (unat num * 512) as"
    from vector_addrs_gives [OF this] have
      "ns_cmd_writev (trimming_machine trim) (t_ns t) (t_qpair t q) lba num reset_sgl_fn next_sge_fn req w = (0, ?w')"
      by (simp add: trimming_machine_def)
    then show "completes (trimming_machine trim) (t_qpair t q)
        (ns_cmd_writev (trimming_machine trim) (t_ns t) (t_qpair t q) lba num reset_sgl_fn next_sge_fn req w) ?w'"
      by (simp only: machine_completes)
    show "to_flash machine_storage (unat lba * 512) (map (ram machine_storage w) as) w ?w'"
      by (simp only: machine_changes)
  qed
qed

lemma machine_reopened: "unchanged machine_storage (a, b) (a, b\<lparr>m_open := p\<rparr>)"
  using machine_changes(4) [of "(a, b)" p] by (simp add: open_file_def)

text \<open>Two trims: one leaves the blocks as they are, one makes them read as zeros.\<close>

definition trim_nothing :: "u64 \<Rightarrow> u32 \<Rightarrow> host \<Rightarrow> host" where
  "trim_nothing lba num w = w"

definition trim_to_zeros :: "u64 \<Rightarrow> u32 \<Rightarrow> host \<Rightarrow> host" where
  "trim_to_zeros lba num w = program_flash (unat lba * 512) (replicate (unat num * 512) 0) w"

definition trim_inside :: "(u64 \<Rightarrow> u32 \<Rightarrow> host \<Rightarrow> host) \<Rightarrow> bool" where
  "trim_inside trim \<longleftrightarrow> (\<forall>lba num w. fst (trim lba num w) = fst w \<and> m_disk (snd (trim lba num w)) = m_disk (snd w)
     \<and> (\<forall>a. a < unat lba * 512 \<or> unat lba * 512 + unat num * 512 \<le> a \<longrightarrow>
          m_flash (snd (trim lba num w)) a = m_flash (snd w) a))"

lemma trim_inside: "trim_inside trim_nothing" "trim_inside trim_to_zeros"
  by (auto simp: trim_inside_def trim_nothing_def trim_to_zeros_def program_flash_def overwrite_def)

lemma machine_files: "opens_files (trimming_machine trim) machine_storage" "reads_files (trimming_machine trim) machine_storage"
  "writes_files (trimming_machine trim) machine_storage"
  by (auto simp: opens_files_def reads_files_def writes_files_def trimming_machine_def machine_changes
      machine_reopened open_file_def split: if_splits simp del: split_paired_All)

lemma machine_trims: "trim_inside trim \<Longrightarrow> trims_stay_inside (trimming_machine trim) t machine_storage 512"
  by (simp add: trims_stay_inside_def trim_inside_def trimming_machine_def machine_changes del: split_paired_All)

lemma trimming_machine_reliable: "trim_inside trim \<Longrightarrow> reliable (trimming_machine trim) t machine_storage 512"
  unfolding reliable_def by (intro conjI machine_blocks machine_vectors machine_files machine_trims)

section \<open>Two machines\<close>

definition machine_system :: "host system" where
  "machine_system = trimming_machine trim_nothing"

definition erasing_system :: "host system" where
  "erasing_system = trimming_machine trim_to_zeros"

lemma machine_reliable: "reliable machine_system t machine_storage 512"
  and erasing_reliable: "reliable erasing_system t machine_storage 512"
  by (simp_all add: machine_system_def erasing_system_def trimming_machine_reliable trim_inside)

lemma machine_trims_keep: "trims_keep_bytes machine_system t machine_storage"
  by (simp add: trims_keep_bytes_def machine_system_def trimming_machine_def trim_nothing_def machine_changes del: split_paired_All)

end
