(* ===== verification/PlainFiles.thy ===== *)
theory PlainFiles
  imports Interleaving Machine
begin

text \<open>
  Runs of the cache against plain files, on storage that is \<open>reliable\<close>: requests of users, and the migration
  thread, either stage by stage between the requests or a whole round at a time. The theorems say when the cache
  cannot be told from the files behind it. A request is one step of a run: the stages of the migration thread lie between
  requests, not inside one.
\<close>

section \<open>Runs\<close>

text \<open>A request of a user, or a piece of the migration thread's work.\<close>

datatype action = Submit pio_heap u64 | Work

definition request_addrs :: "pio_heap \<Rightarrow> u64 \<Rightarrow> u64 list" where
  "request_addrs h p = (case h p of None \<Rightarrow> [] | Some node \<Rightarrow>
     (case pio_to_iovec h p (unat (pio_cnt node)) of None \<Rightarrow> [] | Some v \<Rightarrow> iov_bytes v))"

text \<open>
  A read or a write of a file by name, inside a cache block and the first 4 GB, whose buffers are not the buffer of
  the migration thread.
\<close>

fun action_ok :: "u64 \<Rightarrow> action \<Rightarrow> bool" where
  "action_ok buf (Submit h p) \<longleftrightarrow> (case h p of None \<Rightarrow> False | Some node \<Rightarrow>
     pio_to_iovec h p (unat (pio_cnt node)) \<noteq> None \<and> check_pio node \<and> operation node \<noteq> DISCARD
     \<and> key_ok (request_key node) \<and> pio_fd node = 0 \<and> set (request_addrs h p) \<inter> set (span buf cblock_bytes) = {})"
| "action_ok buf Work \<longleftrightarrow> True"

text \<open>The same requests on plain files, without a cache.\<close>

fun plain_run :: "action list \<Rightarrow> store \<times> (u64 \<Rightarrow> byte) \<Rightarrow> store \<times> (u64 \<Rightarrow> byte)" where
  "plain_run [] s = s"
| "plain_run (Submit h p # as) s =
     plain_run as (case h p of None \<Rightarrow> s | Some node \<Rightarrow> plain_request node (request_addrs h p) s)"
| "plain_run (Work # as) s = plain_run as s"

text \<open>Files up to 4 GB are the same, and the memory is but for the buffer of the migration thread.\<close>

definition alike :: "u64 \<Rightarrow> store \<times> (u64 \<Rightarrow> byte) \<Rightarrow> store \<times> (u64 \<Rightarrow> byte) \<Rightarrow> bool" where
  "alike buf s s' \<longleftrightarrow> same_store (fst s) (fst s') \<and> (\<forall>a. a \<notin> set (span buf cblock_bytes) \<longrightarrow> snd s a = snd s' a)"

lemma alike_refl [simp]: "alike buf s s"
  by (simp add: alike_def)

lemma alike_trans: "alike buf s s' \<Longrightarrow> alike buf s' s'' \<Longrightarrow> alike buf s s''"
  by (auto simp: alike_def intro: same_store_trans)

lemma put_ram_cong: "m a = m' a \<Longrightarrow> put_ram as bs m a = put_ram as bs m' a"
proof (induction as arbitrary: bs m m')
  case (Cons x as)
  show ?case
  proof (cases bs)
    case (Cons b bs')
    have "put_ram as bs' (m(x := b)) a = put_ram as bs' (m'(x := b)) a" by (rule Cons.IH) (use Cons.prems in simp)
    with Cons show ?thesis by (simp add: put_ram_def)
  qed (use Cons.prems in \<open>simp add: put_ram_def\<close>)
qed (simp add: put_ram_def)

lemma same_store_bytes:
  assumes "same_store st st'" and "lo + n \<le> 2 ^ 32"
  shows "bytes_at (st p) lo n = bytes_at (st' p) lo n"
  unfolding bytes_at_def
proof (rule map_cong [OF refl])
  fix i
  assume "i \<in> set [0..<n]"
  then have "lo + i < lo + n" by simp
  from less_le_trans [OF this assms(2)] show "st p (lo + i) = st' p (lo + i)"
    using assms(1) unfolding same_store_def by blast
qed

lemma same_store_write: "same_store st st' \<Longrightarrow> same_store (store_write p lo bs st) (store_write p lo bs st')"
  unfolding same_store_def store_write_def overwrite_def by simp

lemma plain_request_alike:
  assumes s: "alike buf s s'" and free: "set as \<inter> set (span buf cblock_bytes) = {}"
    and small: "4096 * unat (page_index node) + length as \<le> 2 ^ 32"
  shows "alike buf (plain_request node as s) (plain_request node as s')"
proof (cases s; cases s')
  fix st m st' m'
  assume eq: "s = (st, m)" "s' = (st', m')"
  have st: "same_store st st'" and m: "\<And>a. a \<notin> set (span buf cblock_bytes) \<Longrightarrow> m a = m' a"
    using s by (simp_all add: alike_def eq)
  have bufs: "map m as = map m' as" using m free by (intro map_cong) auto
  show ?thesis
  proof (cases "operation node = READ")
    case True
    show ?thesis unfolding eq plain_request_def prod.case alike_def fst_conv snd_conv if_P [OF True]
      unfolding same_store_bytes [OF st small] using st m by (intro conjI allI impI put_ram_cong) simp_all
  next
    case False
    show ?thesis unfolding eq plain_request_def prod.case alike_def fst_conv snd_conv if_not_P [OF False] bufs
      using same_store_write [OF st] m by blast
  qed
qed


lemma pio_to_iovec_pages: "pio_to_iovec h p n = Some v \<Longrightarrow> \<exists>ns. v = page_vector ns \<and> length ns = n"
proof (induction n arbitrary: p v)
  case (Suc n)
  from Suc.prems obtain node rest where node: "h p = Some node" "pio_to_iovec h (pio_next node) n = Some rest"
    and v: "v = \<lparr>iov_base = buffer node, iov_len = ucast PAGE_SIZE\<rparr> # rest"
    by (auto simp: bind_eq_Some_conv)
  from Suc.IH [OF node(2)] obtain ns where "rest = page_vector ns" "length ns = n" by blast
  with v show ?case by (intro exI [of _ "(p, node) # ns"]) (simp add: page_vector_def)
qed (simp add: page_vector_def)

lemma plain_run_alike: "\<forall>a \<in> set as. action_ok buf a \<Longrightarrow> alike buf s s' \<Longrightarrow> alike buf (plain_run as s) (plain_run as s')"
proof (induction as arbitrary: s s')
  case (Cons a as)
  show ?case
  proof (cases a)
    case (Submit h p)
    with Cons.prems(1) obtain node vec where node: "h p = Some node" "pio_to_iovec h p (unat (pio_cnt node)) = Some vec"
      "check_pio node" "key_ok (request_key node)" "set (iov_bytes vec) \<inter> set (span buf cblock_bytes) = {}"
      by (auto simp: request_addrs_def split: option.splits)
    obtain ns where ns: "vec = page_vector ns" "length ns = unat (pio_cnt node)" using pio_to_iovec_pages [OF node(2)] by blast
    have "unat (snd (request_key node)) < 131072" using node(4) by (simp add: key_ok_def)
    moreover have "page_offset node + length (iov_bytes vec) \<le> cblock_bytes" using request_fits [OF node(3) ns(2) [symmetric]] ns(1) by simp
    ultimately have "4096 * unat (page_index node) + length (iov_bytes vec) \<le> 4294967296"
      using request_place [of node] by linarith
    then have "4096 * unat (page_index node) + length (iov_bytes vec) \<le> 2 ^ 32" by simp
    from plain_request_alike [OF Cons.prems(2) node(5) this] Submit node(1,2) Cons.IH Cons.prems(1) show ?thesis
      by (simp add: request_addrs_def)
  next
    case Work
    with Cons show ?thesis by simp
  qed
qed simp

section \<open>Interleaved runs\<close>

fun run_turns :: "'w system \<Rightarrow> target \<Rightarrow> u64 \<Rightarrow> action list \<Rightarrow> (cache \<times> 'w) \<times> stage \<Rightarrow> ((cache \<times> 'w) \<times> stage) option" where
  "run_turns sys t buf [] s = Some s"
| "run_turns sys t buf (Submit h p # as) ((c, w), st) = do {
     (s, rc) \<leftarrow> submit_to_target sys t h c p w; run_turns sys t buf as (s, st) }"
| "run_turns sys t buf (Work # as) ((c, w), st) = do {
     ((m, w), st) \<leftarrow> advance sys t buf (cache_map c, w) st; run_turns sys t buf as ((c\<lparr>cache_map := m\<rparr>, w), st) }"

text \<open>No request of the run writes a page at the wrong moment.\<close>

definition request_free :: "mapping \<Rightarrow> stage \<Rightarrow> pio_heap \<Rightarrow> u64 \<Rightarrow> bool" where
  "request_free m st h p \<longleftrightarrow> (case h p of None \<Rightarrow> True | Some node \<Rightarrow> \<not> conflict m st node)"

fun no_conflict :: "'w system \<Rightarrow> target \<Rightarrow> u64 \<Rightarrow> action list \<Rightarrow> (cache \<times> 'w) \<times> stage \<Rightarrow> bool" where
  "no_conflict sys t buf [] s \<longleftrightarrow> True"
| "no_conflict sys t buf (Submit h p # as) ((c, w), st) \<longleftrightarrow> request_free (cache_map c) st h p
     \<and> (case submit_to_target sys t h c p w of None \<Rightarrow> True | Some (s, rc) \<Rightarrow> no_conflict sys t buf as (s, st))"
| "no_conflict sys t buf (Work # as) ((c, w), st) \<longleftrightarrow> (case advance sys t buf (cache_map c, w) st of None \<Rightarrow> True
     | Some ((m, w), st) \<Rightarrow> no_conflict sys t buf as ((c\<lparr>cache_map := m\<rparr>, w), st))"

text \<open>No trim of the run changes what a cached page reads as.\<close>

definition turn_spares :: "'w system \<Rightarrow> target \<Rightarrow> 'w storage \<Rightarrow> mapping \<Rightarrow> 'w \<Rightarrow> stage \<Rightarrow> bool" where
  "turn_spares sys t S m w st \<longleftrightarrow> (case st of Trimming e \<Rightarrow> trim_spares sys t S m w | _ \<Rightarrow> True)"

fun trims_spare :: "'w system \<Rightarrow> target \<Rightarrow> 'w storage \<Rightarrow> u64 \<Rightarrow> action list \<Rightarrow> (cache \<times> 'w) \<times> stage \<Rightarrow> bool" where
  "trims_spare sys t S buf [] s \<longleftrightarrow> True"
| "trims_spare sys t S buf (Submit h p # as) ((c, w), st) \<longleftrightarrow>
     (case submit_to_target sys t h c p w of None \<Rightarrow> True | Some (s, rc) \<Rightarrow> trims_spare sys t S buf as (s, st))"
| "trims_spare sys t S buf (Work # as) ((c, w), st) \<longleftrightarrow> turn_spares sys t S (cache_map c) w st
     \<and> (case advance sys t buf (cache_map c, w) st of None \<Rightarrow> True
       | Some ((m, w), st) \<Rightarrow> trims_spare sys t S buf as ((c\<lparr>cache_map := m\<rparr>, w), st))"

lemma trims_spare_always: "trims_keep_bytes sys t S \<Longrightarrow> trims_spare sys t S buf as ((c, w), st)"
proof (induction as arbitrary: c w st)
  case (Cons a as)
  then show ?case by (cases a) (auto simp: turn_spares_def trim_spares_always split: option.split stage.split)
qed simp

lemma submit_turn:
  assumes rel: "reliable sys t S bs" and bs: "bs * 2 ^ ps = 4096" and run: "running_ok S ps c v w st"
    and ok: "action_ok buf (Submit h p)" and free: "request_free (cache_map c) st h p"
  obtains c' v' w' rc where "submit_to_target sys t h c p w = Some ((c', w'), rc)" "running_ok S ps c' v' w' st"
    "alike buf (stored S v' w', ram S w') (plain_run [Submit h p] (stored S v w, ram S w))"
proof -
  from ok obtain node vec where node: "h p = Some node" "pio_to_iovec h p (unat (pio_cnt node)) = Some vec"
    "check_pio node" "operation node \<noteq> DISCARD" "key_ok (request_key node)" "pio_fd node = 0"
    by (auto split: option.splits)
  obtain ns where ns: "vec = page_vector ns" "unat (pio_cnt node) = length ns" using pio_to_iovec_pages [OF node(2)] by metis
  have clear: "\<not> conflict (cache_map c) st node" using free node(1) by (simp add: request_free_def)
  obtain c' v' w' rc where io: "submit_to_target sys t h c p w = Some ((c', w'), rc)" "running_ok S ps c' v' w' st"
    "same_store (stored S v' w') (fst (plain_request node (iov_bytes (page_vector ns)) (stored S v w, ram S w)))"
    "ram S w' = snd (plain_request node (iov_bytes (page_vector ns)) (stored S v w, ram S w))"
    by (rule submit_keeps [OF rel bs run node(1) node(2) [unfolded ns(1)] ns(2) node(3-6) clear])
  show thesis
    by (rule that [OF io(1,2)]) (use io(3,4) node(1,2) ns(1) in \<open>simp add: alike_def request_addrs_def\<close>)
qed

lemma turns_transparent:
  assumes rel: "reliable sys t S bs" and bs: "bs * 2 ^ ps = 4096" and run: "running_ok S ps c v w st"
    and ok: "\<forall>a \<in> set as. action_ok buf a" and free: "no_conflict sys t buf as ((c, w), st)"
    and spare: "trims_spare sys t S buf as ((c, w), st)"
  shows "\<exists>c' w' st' v'. run_turns sys t buf as ((c, w), st) = Some ((c', w'), st') \<and> running_ok S ps c' v' w' st'
    \<and> alike buf (stored S v' w', ram S w') (plain_run as (stored S v w, ram S w))"
  using run ok free spare
proof (induction as arbitrary: c v w st)
  case Nil
  then show ?case by auto
next
  case (Cons a as)
  have rest: "\<forall>a \<in> set as. action_ok buf a" using Cons.prems(2) by simp
  obtain c1 v1 w1 st1 where step: "run_turns sys t buf (a # as) ((c, w), st) = run_turns sys t buf as ((c1, w1), st1)"
    "running_ok S ps c1 v1 w1 st1" "no_conflict sys t buf as ((c1, w1), st1)"
    "trims_spare sys t S buf as ((c1, w1), st1)" "alike buf (stored S v1 w1, ram S w1) (plain_run [a] (stored S v w, ram S w))"
  proof (cases a)
    case (Submit h p)
    have ok: "action_ok buf (Submit h p)" and free: "request_free (cache_map c) st h p"
      using Cons.prems(2,3) Submit by simp_all
    obtain c' v' w' rc where io: "submit_to_target sys t h c p w = Some ((c', w'), rc)" "running_ok S ps c' v' w' st"
      "alike buf (stored S v' w', ram S w') (plain_run [Submit h p] (stored S v w, ram S w))"
      by (rule submit_turn [OF rel bs Cons.prems(1) ok free])
    show thesis
      by (rule that [OF _ io(2)]) (use io(1,3) Cons.prems(3,4) Submit in \<open>simp_all del: plain_run.simps\<close>)
  next
    case Work
    have calm: "trim_spares sys t S (cache_map c) w" if "st = Trimming e" for e
      using Cons.prems(4) Work that by (simp add: turn_spares_def)
    obtain m' w' st' v' where io: "advance sys t buf (cache_map c, w) st = Some ((m', w'), st')"
      "running_ok S ps (c\<lparr>cache_map := m'\<rparr>) v' w' st'" "same_store (stored S v' w') (stored S v w)" "buffer_only S buf w w'"
      using advance_keeps [OF rel bs Cons.prems(1), where buf = buf] calm unfolding stage_done_def by blast
    show thesis
      by (rule that [OF _ io(2)]) (use io Cons.prems(3,4) Work in \<open>simp_all add: alike_def buffer_only_def\<close>)
  qed
  obtain c' w' st' v' where run: "run_turns sys t buf as ((c1, w1), st1) = Some ((c', w'), st')" "running_ok S ps c' v' w' st'"
    "alike buf (stored S v' w', ram S w') (plain_run as (stored S v1 w1, ram S w1))"
    using Cons.IH [OF step(2) rest step(3,4)] by blast
  have "plain_run (a # as) s = plain_run as (plain_run [a] s)" for s by (cases a) simp_all
  with alike_trans [OF run(3) plain_run_alike [OF rest step(5)]] run(1,2) step(1) show ?case by auto
qed

section \<open>Whole rounds\<close>





section \<open>Reading back\<close>

lemma bytes_at_overwrite: "n = length bs \<Longrightarrow> bytes_at (overwrite lo bs f) lo n = bs"
  by (rule nth_equalityI) (simp_all add: bytes_at_def overwrite_def)

fun reads_only :: "action \<Rightarrow> bool" where
  "reads_only (Submit h p) \<longleftrightarrow> (case h p of None \<Rightarrow> True | Some node \<Rightarrow> operation node = READ)"
| "reads_only Work \<longleftrightarrow> True"

lemma plain_run_Cons: "plain_run (a # as) s = plain_run as (plain_run [a] s)"
  by (cases a) simp_all

lemma plain_run_append: "plain_run (as @ bs) s = plain_run bs (plain_run as s)"
proof (induction as arbitrary: s)
  case (Cons a as)
  then show ?case by (cases a) simp_all
qed simp

lemma plain_run_reads: "\<forall>a \<in> set as. reads_only a \<Longrightarrow> fst (plain_run as s) = fst s"
proof (induction as arbitrary: s)
  case (Cons a as)
  have "fst (plain_run [a] s) = fst s"
    using Cons.prems by (cases a) (auto simp: plain_request_def case_prod_unfold split: option.split)
  with Cons show ?case by (simp add: plain_run_Cons [of a as])
qed simp

lemma length_request_addrs:
  assumes "action_ok buf (Submit h p)" and "h p = Some node"
  shows "length (request_addrs h p) = 4096 * unat (pio_cnt node)"
proof -
  from assms obtain v where v: "pio_to_iovec h p (unat (pio_cnt node)) = Some v" by (auto split: option.splits)
  from pio_to_iovec_pages [OF this] assms(2) v show ?thesis by (auto simp: request_addrs_def length_page_bytes)
qed

text \<open>Reads are never in the way.\<close>

lemma reads_free: "reads_only (Submit h p) \<Longrightarrow> request_free m st h p"
  by (cases st) (auto simp: request_free_def split: option.splits)

lemma reads_no_conflict: "\<forall>a \<in> set as. reads_only a \<Longrightarrow> no_conflict sys t buf as ((c, w), st)"
proof (induction as arbitrary: c w st)
  case (Cons a as)
  show ?case
  proof (cases a)
    case (Submit h p)
    have "request_free (cache_map c) st h p" by (rule reads_free) (use Cons.prems Submit in simp)
    with Cons Submit show ?thesis by (auto split: option.split)
  next
    case Work
    with Cons show ?thesis by (auto split: option.split)
  qed
qed simp

lemma read_back:
  assumes rel: "reliable sys t S bs" and bs: "bs * 2 ^ ps = 4096" and inv: "running_ok S ps c v w st"
    and acts: "\<forall>a \<in> set as. action_ok buf a \<and> reads_only a"
    and put: "action_ok buf (Submit h p)" "h p = Some node" "operation node = WRITE" "\<not> conflict (cache_map c) st node"
    and get: "action_ok buf (Submit h' q)" "h' q = Some node'" "operation node' = READ" "distinct (request_addrs h' q)"
    and same: "pio_path node' = pio_path node" "page_index node' = page_index node" "pio_cnt node' = pio_cnt node"
    and spare: "trims_spare sys t S buf (Submit h p # as @ [Submit h' q]) ((c, w), st)"
  shows "\<exists>c' w' st'. run_turns sys t buf (Submit h p # as @ [Submit h' q]) ((c, w), st) = Some ((c', w'), st')
    \<and> map (ram S w') (request_addrs h' q) = map (ram S w) (request_addrs h p)"
proof -
  let ?as = "Submit h p # as @ [Submit h' q]" and ?s = "(stored S v w, ram S w)"
  let ?bytes = "map (ram S w) (request_addrs h p)" and ?off = "4096 * unat (page_index node)"
  have ok: "\<forall>a \<in> set ?as. action_ok buf a" using acts put(1) get(1) by auto
  have "no_conflict sys t buf (as @ [Submit h' q]) ((c', w'), st')" for c' w' st' by (rule reads_no_conflict) (use acts get(2,3) in auto)
  then have free: "no_conflict sys t buf ?as ((c, w), st)" using put(2,4) by (simp add: request_free_def split: option.split)
  from turns_transparent [OF rel bs inv ok free spare] obtain c' w' st' v' where
    run: "run_turns sys t buf ?as ((c, w), st) = Some ((c', w'), st')"
    and alike: "alike buf (stored S v' w', ram S w') (plain_run ?as ?s)" by blast
  have len: "length (request_addrs h' q) = length ?bytes"
    using length_request_addrs [OF put(1,2)] length_request_addrs [OF get(1,2)] same(3) by simp
  define s1 where "s1 = plain_run as (plain_run [Submit h p] ?s)"
  have "fst s1 = store_write (pio_path node) ?off ?bytes (stored S v w)"
    unfolding s1_def using plain_run_reads [of as] acts put(2,3) by (simp add: plain_request_def)
  then have bytes: "bytes_at (fst s1 (pio_path node')) (4096 * unat (page_index node')) (length (request_addrs h' q)) = ?bytes"
    using bytes_at_overwrite [OF len] same by (simp add: store_write_def)
  have "plain_run ?as ?s = plain_request node' (request_addrs h' q) s1"
    by (subst plain_run_Cons) (simp add: plain_run_append s1_def get(2) del: plain_run.simps(2), simp add: get(2))
  then have "snd (plain_run ?as ?s) = put_ram (request_addrs h' q) ?bytes (snd s1)"
    using bytes get(3) by (simp add: plain_request_def case_prod_unfold)
  moreover have "set (request_addrs h' q) \<inter> set (span buf cblock_bytes) = {}" using get(1,2) by simp
  then have "ram S w' a = snd (plain_run ?as ?s) a" if "a \<in> set (request_addrs h' q)" for a
    using alike that unfolding alike_def by auto
  then have "map (ram S w') (request_addrs h' q) = map (snd (plain_run ?as ?s)) (request_addrs h' q)" by (intro map_cong) simp_all
  moreover have "length ?bytes = length (request_addrs h' q)" using len by simp
  ultimately have "map (ram S w') (request_addrs h' q) = ?bytes" using map_put_ram [OF get(4)] by metis
  with run show ?thesis by blast
qed

section \<open>Properties\<close>

text \<open>Inputs: the new cache of two blocks, and a page that is written from one buffer and read into another.\<close>

lemma new_cache_coherent:
  assumes "mrep (cache_map c) (v_init n sh key)" and "device_ok c ps"
  shows "coherent S ps c (v_init n sh key) w" and "stored S (v_init n sh key) w = disk S w"
  using assms by (simp_all add: coherent_def running_ok_def usable_def keys_ok_def phase_inv_def under_way_def unmapped_def
      clean_blocks_def v_init_def content_def)

lemma fresh_coherent: "coherent machine_storage 3 (sample_cache (small_cache 2)) (v_init 2 6 (\<lambda>_. ([], 0))) w"
proof -
  have rep: "mrep (cache_map (sample_cache (small_cache 2))) (v_init 2 6 (\<lambda>_. ([], 0)))"
    by (simp add: sample_cache_def two_blocks_rep)
  have "device_ok (sample_cache (small_cache 2)) 3"
    by (rule sample_cache_device [OF two_blocks_rep]) (simp add: v_init_def)
  with rep show ?thesis by (rule new_cache_coherent)
qed

lemma span_range:
  assumes "x \<in> set (span a n)" and "unat a + n < 2 ^ 64"
  shows "unat a \<le> unat x \<and> unat x < unat a + n"
proof -
  obtain i where i: "x = a + of_nat i" "i < n" using assms(1) by (auto simp: span_def)
  have "unat (of_nat i :: u64) = i" using i(2) assms(2) by (simp add: unat_of_nat)
  moreover have "unat x = unat a + unat (of_nat i :: u64)"
    unfolding i(1) by (rule unat_add_lem [THEN iffD1]) (use calculation i(2) assms(2) in simp)
  ultimately show ?thesis using i(2) by simp
qed

definition page_request :: "operate \<Rightarrow> u64 \<Rightarrow> action" where
  "page_request op buf = Submit [8 \<mapsto> one_pio\<lparr>pio_cnt := 1, operation := op, buffer := buf\<rparr>] 8"

lemma page_request_addrs: "pio_cnt node = 1 \<Longrightarrow> request_addrs [8 \<mapsto> node] 8 = span (buffer node) 4096"
  by (simp add: request_addrs_def config_eqs)

lemma single_page_ok:
  assumes node: "pio_cnt node = 1" "operation node \<noteq> DISCARD" "key_ok (request_key node)" "pio_fd node = 0"
    and buf: "unat (buffer node) + 4096 \<le> 1048576"
  shows "action_ok 1048576 (Submit [8 \<mapsto> node] 8)"
proof -
  have "set (span (buffer node) 4096) \<inter> set (span 1048576 cblock_bytes) = {}"
    using span_range [of _ "buffer node" 4096] span_range [of _ 1048576 cblock_bytes] buf by fastforce
  moreover have "check_pio node" using node(1) by (simp add: check_pio_iff Suc_le_eq)
  ultimately show ?thesis using node by (simp add: page_request_addrs)
qed

lemma page_request_ok:
  assumes "unat buf + 4096 \<le> 1048576" and "op \<noteq> DISCARD"
  shows "action_ok 1048576 (page_request op buf)"
  unfolding page_request_def
  by (rule single_page_ok) (use assms in \<open>simp_all add: one_pio_def key_ok_def request_key_def config_eqs page_index_8\<close>)

definition sevens :: host where
  "sevens = ((\<lambda>_. 7), \<lparr>m_flash = (\<lambda>_. 0), m_disk = (\<lambda>_ _. 0), m_open = []\<rparr>)"



text \<open>
  C2. A page that is written and then read is read as it was written, under the conditions of the theorem above:
  whatever reads come between and whatever stages of promotions, demotions and writebacks lie between them, the
  read puts the bytes of the writer's buffers into the reader's buffers, if the page is not under demotion or just
  copied in when it is written, and no trim of a demotion changes what block 0 reads as while a page is cached there.
\<close>

theorem read_returns_last_write:
  assumes "reliable sys t S bs" and "bs * 2 ^ ps = 4096" and "running_ok S ps c v w st"
    and "\<forall>a \<in> set as. action_ok buf a \<and> reads_only a"
    and "action_ok buf (Submit h p)" and "h p = Some node" and "operation node = WRITE" and "\<not> conflict (cache_map c) st node"
    and "action_ok buf (Submit h' q)" and "h' q = Some node'" and "operation node' = READ" and "distinct (request_addrs h' q)"
    and "pio_path node' = pio_path node" and "page_index node' = page_index node" and "pio_cnt node' = pio_cnt node"
    and "trims_spare sys t S buf (Submit h p # as @ [Submit h' q]) ((c, w), st)"
  shows "\<exists>c' w' st'. run_turns sys t buf (Submit h p # as @ [Submit h' q]) ((c, w), st) = Some ((c', w'), st')
    \<and> map (ram S w') (request_addrs h' q) = map (ram S w) (request_addrs h p)"
  by (rule read_back [OF assms])

theorem read_returns_last_write_witness:
  "\<exists>c' w' st'. run_turns machine_system reset_ctrlr_and_ns 1048576
      [page_request WRITE 4096, Work, Work, page_request READ 12288, Work, Work, page_request READ 8192]
      ((sample_cache (small_cache 2), sevens), At_rest) = Some ((c', w'), st')
    \<and> map (fst w') (span 8192 4096) = replicate 4096 7"
proof -
  let ?put = "one_pio\<lparr>pio_cnt := 1, operation := WRITE, buffer := 4096\<rparr>"
  let ?get = "one_pio\<lparr>pio_cnt := 1, operation := READ, buffer := 8192\<rparr>"
  let ?as = "[Work, Work, page_request READ 12288, Work, Work]"
  have run: "running_ok machine_storage 3 (sample_cache (small_cache 2)) (v_init 2 6 (\<lambda>_. ([], 0))) sevens At_rest"
    using fresh_coherent by (simp add: coherent_def)
  have acts: "\<forall>a \<in> set ?as. action_ok 1048576 a \<and> reads_only a"
    using page_request_ok [of 12288 READ] by (simp add: page_request_def)
  have ok: "action_ok 1048576 (Submit [8 \<mapsto> ?put] 8)" "action_ok 1048576 (Submit [8 \<mapsto> ?get] 8)"
    using page_request_ok [of 4096 WRITE] page_request_ok [of 8192 READ] by (simp_all only: page_request_def) simp_all
  have addrs: "request_addrs [8 \<mapsto> ?put] 8 = span 4096 4096" "request_addrs [8 \<mapsto> ?get] 8 = span 8192 4096"
    by (simp_all add: page_request_addrs)
  have "distinct (request_addrs [8 \<mapsto> ?get] 8)" unfolding addrs by (rule distinct_span) simp
  from read_returns_last_write [OF machine_reliable _ run acts ok(1) _ _ _ ok(2) _ _ this _ _ _ trims_spare_always [OF machine_trims_keep],
    of ?put ?get reset_ctrlr_and_ns]
  have "\<exists>c' w' st'. run_turns machine_system reset_ctrlr_and_ns 1048576 (Submit [8 \<mapsto> ?put] 8 # ?as @ [Submit [8 \<mapsto> ?get] 8])
      ((sample_cache (small_cache 2), sevens), At_rest) = Some ((c', w'), st')
    \<and> map (ram machine_storage w') (span 8192 4096) = map (ram machine_storage sevens) (span 4096 4096)"
    unfolding addrs by (simp del: run_turns.simps)
  moreover have "map (fst sevens) (span 4096 4096) = replicate 4096 7"
    unfolding sevens_def by (simp add: map_replicate_const)
  ultimately show ?thesis by (simp add: page_request_def machine_changes del: run_turns.simps)
qed



end
