(* ===== verification/Races.thy ===== *)
theory Races
  imports PlainFiles
begin

text \<open>
  Writes at the wrong moment. While the migration thread moves a page, nothing stops a user from writing it:
  a page under promotion is not found and is written in its file, a page under demotion is found and is written
  in its block. The completion of the transfer does not look, and the write is lost.
\<close>

section \<open>Contents that agree page by page\<close>

lemma same_store_pages:
  assumes "\<And>p c x. unat c < 2 ^ 17 \<Longrightarrow> x < cblock_bytes \<Longrightarrow>
      st p (cblock_bytes * unat c + x) = st' p (cblock_bytes * unat (c :: u32) + x)"
  shows "same_store st st'"
proof (rule same_storeI)
  fix p and n x :: nat
  assume n: "n < 2 ^ 17" and x: "x < cblock_bytes"
  have "unat (of_nat n :: u32) = n" using of_nat_block [OF n, of "of_nat n"] by simp
  with assms [of "of_nat n" x p] n x show "st p (cblock_bytes * n + x) = st' p (cblock_bytes * n + x)" by simp
qed

lemma content_page:
  assumes "unat c < 2 ^ 17" and "x < cblock_bytes"
  shows "content pt fl dk p (cblock_bytes * unat c + x) =
    (case pt (p, c) of Some e \<Rightarrow> fl (cblock_bytes * unat e + x) | None \<Rightarrow> dk p (cblock_bytes * unat c + x))"
  using content_block [OF assms, of pt fl dk p] by simp

text \<open>A write changes its page only.\<close>

definition other_pages_same :: "store \<Rightarrow> store \<Rightarrow> key \<Rightarrow> bool" where
  "other_pages_same st st' k \<longleftrightarrow> (\<forall>p c x. unat c < 2 ^ 17 \<longrightarrow> x < cblock_bytes \<longrightarrow> (p, c) \<noteq> k \<longrightarrow>
     st p (cblock_bytes * unat c + x) = st' p (cblock_bytes * unat (c :: u32) + x))"

lemma write_other_pages:
  assumes "lo + length bs \<le> cblock_bytes"
  shows "other_pages_same (store_write p (cblock_bytes * unat k + lo) bs st) st (p, k)"
  unfolding other_pages_same_def
proof (intro allI impI)
  fix q c and x :: nat
  assume x: "x < cblock_bytes" and other: "(q, c) \<noteq> (p, k)"
  have "\<not> (q = p \<and> unat c = unat k)" using other by (auto simp: word_unat_eq_iff [symmetric])
  then show "store_write p (cblock_bytes * unat k + lo) bs st q (cblock_bytes * unat c + x) = st q (cblock_bytes * unat c + x)"
    by (simp only: store_write_block [OF assms x] if_False)
qed

lemma same_store_page: "same_store st st' \<Longrightarrow> unat c < 2 ^ 17 \<Longrightarrow> x < cblock_bytes \<Longrightarrow>
    st p (cblock_bytes * unat (c :: u32) + x) = st' p (cblock_bytes * unat c + x)"
proof -
  assume same: "same_store st st'" and c: "unat c < 2 ^ 17" and x: "x < cblock_bytes"
  have "cblock_bytes * unat c + x < 2 ^ 32" using c x by simp
  with same show ?thesis unfolding same_store_def by blast
qed

section \<open>The state after the write\<close>

lemma write_turn:
  assumes rel: "reliable sys t S bs" and bs: "bs * 2 ^ ps = 4096" and run: "running_ok S ps c v w st"
    and still: "loose st = {}"
    and ok: "action_ok buf (Submit h p)" and node: "h p = Some node" "operation node = WRITE"
  obtains c' v' w' rc where "submit_to_target sys t h c p w = Some ((c', w'), rc)" "usable S ps {} c' v' w'"
    "other_pages_same (stored S v' w') (stored S v w) (request_key node)" "keeps_others S node v w v' w'"
    "phase_inv (phase_of st) v'" "page_table v' (request_key node) \<noteq> None \<longrightarrow> rc = 0"
proof -
  from ok node obtain vec where vec: "pio_to_iovec h p (unat (pio_cnt node)) = Some vec"
    "check_pio node" "operation node \<noteq> DISCARD" "key_ok (request_key node)" "pio_fd node = 0"
    by (auto split: option.splits)
  obtain ns where ns: "vec = page_vector ns" "unat (pio_cnt node) = length ns" using pio_to_iovec_pages [OF vec(1)] by metis
  have use: "usable S ps {} c v w" and phase: "phase_inv (phase_of st) v" using run still by (simp_all add: running_ok_def)
  obtain c' v' w' rc where fin: "submit_to_target sys t h c p w = Some ((c', w'), rc)" "usable S ps {} c' v' w'"
    "same_store (stored S v' w') (fst (plain_request node (iov_bytes (page_vector ns)) (stored S v w, ram S w)))"
    "keeps_others S node v w v' w'" "page_table v' (request_key node) \<noteq> None \<longrightarrow> rc = 0"
    using request_transparent [OF rel bs use node(1) vec(1) [unfolded ns(1)] ns(2) vec(2-5)] unfolding request_done_def by blast
  have lo: "page_offset node + length (map (ram S w) (iov_bytes (page_vector ns))) \<le> cblock_bytes"
    using request_fits [OF vec(2) ns(2)] by simp
  let ?st = "fst (plain_request node (iov_bytes (page_vector ns)) (stored S v w, ram S w))"
  have "?st = store_write (pio_path node) (cblock_bytes * unat (snd (request_key node)) + page_offset node)
      (map (ram S w) (iov_bytes (page_vector ns))) (stored S v w)"
    using node(2) by (simp add: plain_request_def request_place)
  then have written: "other_pages_same ?st (stored S v w) (request_key node)"
    using write_other_pages [OF lo, of "pio_path node" "snd (request_key node)" "stored S v w"] by (simp add: request_key_def)
  have "other_pages_same (stored S v' w') (stored S v w) (request_key node)"
    unfolding other_pages_same_def
  proof (intro allI impI)
    fix q d and x :: nat
    assume d: "unat d < 2 ^ 17" and x: "x < cblock_bytes" and other: "(q, d) \<noteq> request_key node"
    have "?st q (cblock_bytes * unat d + x) = stored S v w q (cblock_bytes * unat d + x)"
      using written d x other unfolding other_pages_same_def by blast
    with same_store_page [OF fin(3) d x, of q] show "stored S v' w' q (cblock_bytes * unat d + x) = stored S v w q (cblock_bytes * unat d + x)"
      by simp
  qed
  moreover have "phase_inv (phase_of st) v'" using fin(4) phase by (simp add: keeps_others_def)
  ultimately show thesis using that fin(1,2,4,5) by blast
qed


section \<open>A write of a page under promotion\<close>

lemma promotion_race:
  assumes rel: "reliable sys t S bs" and bs: "bs * 2 ^ ps = 4096" and run: "running_ok S ps c v w (Copied_in e s)"
    and ok: "action_ok buf (Submit h p)" and node: "h p = Some node" "operation node = WRITE"
    and key: "request_key node = entry_key (ents (cache_map c) e)"
  shows "\<exists>c1 w1 rc m2 v2. submit_to_target sys t h c p w = Some ((c1, w1), rc)
    \<and> advance sys t buf (cache_map c1, w1) (Copied_in e s) = Some ((m2, w1), Served_work)
    \<and> mrep m2 v2 \<and> same_store (stored S v2 w1) (stored S v w)"
proof -
  note R = running_okD [OF run]
  have ph: "phase_inv (Promoting e) v" and s: s and copy: "block_copy (flash S w) (disk S w) e (key_of v e)" using R(5,6) by simp_all
  have key: "request_key node = key_of v e" using key mrep_fields(2) [OF R(1)] by simp
  have old: "e \<in> moving v" "page_table v (key_of v e) = None" using promoting_new [OF ph] by simp_all
  obtain c1 v1 w1 rc where turn: "submit_to_target sys t h c p w = Some ((c1, w1), rc)" "usable S ps {} c1 v1 w1"
    "other_pages_same (stored S v1 w1) (stored S v w) (key_of v e)" "keeps_others S node v w v1 w1" "phase_inv (Promoting e) v1"
    by (rule write_turn [OF rel bs run _ ok node]) (simp_all add: key)
  note rep = usableD(1) [OF turn(2)]
  have new: "e \<in> moving v1" "e \<notin> ran (page_table v1)" "page_table v1 (key_of v1 e) = None"
    using promoting_new [OF turn(5)] by simp_all
  have same_key: "key_of v1 e = key_of v e" using turn(4) old(1) by (simp add: keeps_others_def)
  let ?v = "v_promotion_complete e True v1"
  obtain m2 where m2: "promotion_complete (cache_map c1) e True = Some m2" "mrep m2 ?v"
    using promotion_complete_sim [OF rep new, of True] by (rule becomesE)
  have table: "page_table ?v = (page_table v1)(key_of v e \<mapsto> e)"
    by (simp add: v_promotion_complete_def v_enqueue_tail_def Let_def same_key)
  have flash: "flash S w1 (cblock_bytes * unat e + x) = flash S w (cblock_bytes * unat e + x)" if "x < cblock_bytes" for x
    using turn(4) new(2) that unfolding keeps_others_def untouched_flash_def by blast
  have "same_store (stored S ?v w1) (stored S v w)"
  proof (rule same_store_pages)
    fix q and d :: u32 and x :: nat
    assume d: "unat d < 2 ^ 17" and x: "x < cblock_bytes"
    show "stored S ?v w1 q (cblock_bytes * unat d + x) = stored S v w q (cblock_bytes * unat d + x)"
    proof (cases "(q, d) = key_of v e")
      case True
      have "flash S w (cblock_bytes * unat e + x) = disk S w q (cblock_bytes * unat d + x)"
        using copy x unfolding block_copy_def True [symmetric] by simp
      then show ?thesis using True old(2) flash [OF x] by (simp add: content_page [OF d x] table)
    next
      case False
      then have "stored S ?v w1 q (cblock_bytes * unat d + x) = stored S v1 w1 q (cblock_bytes * unat d + x)"
        by (simp add: content_page [OF d x] table)
      with turn(3) False d x show ?thesis unfolding other_pages_same_def by simp
    qed
  qed
  with turn(1) m2 s show ?thesis by auto
qed

section \<open>A write of a page under demotion\<close>

lemma demotion_race:
  assumes rel: "reliable sys t S bs" and bs: "bs * 2 ^ ps = 4096" and run: "running_ok S ps c v w (Trimmed e s)"
    and ok: "action_ok buf (Submit h p)" and node: "h p = Some node" "operation node = WRITE"
    and key: "request_key node = entry_key (ents (cache_map c) e)"
  shows "\<exists>c1 w1 m2 v2. submit_to_target sys t h c p w = Some ((c1, w1), 0)
    \<and> advance sys t buf (cache_map c1, w1) (Trimmed e s) = Some ((m2, w1), Served_work)
    \<and> mrep m2 v2 \<and> same_store (stored S v2 w1) (stored S v w)"
proof -
  note R = running_okD [OF run]
  have ph: "phase_inv (Demoting e) v" and s: s "e \<notin> marked v" using R(5,6) by simp_all
  have key: "request_key node = key_of v e" using key mrep_fields(2) [OF R(1)] by simp
  have mapped: "page_table u (key_of u e) = Some e" if "mrep m u" "e \<in> ran (page_table u)" for m u
    using that mrep_lookup [OF that(1)] unfolding ran_def by blast
  have old: "e \<in> moving v" "page_table v (key_of v e) = Some e"
    using transfer_hashed ph mapped [OF R(1)] by simp_all
  obtain c1 v1 w1 rc where turn: "submit_to_target sys t h c p w = Some ((c1, w1), rc)" "usable S ps {} c1 v1 w1"
    "other_pages_same (stored S v1 w1) (stored S v w) (key_of v e)" "keeps_others S node v w v1 w1" "phase_inv (Demoting e) v1"
    "page_table v1 (request_key node) \<noteq> None \<longrightarrow> rc = 0"
    by (rule write_turn [OF rel bs run _ ok node]) (simp_all add: key)
  note rep = usableD(1) [OF turn(2)]
  have same_key: "key_of v1 e = key_of v e" using turn(4) old(1) by (simp add: keeps_others_def)
  have hit: "e \<in> moving v1" "e \<in> ran (page_table v1)" "page_table v1 (key_of v e) = Some e"
    using transfer_hashed turn(5) mapped [OF rep] same_key by simp_all
  let ?v = "v_demotion_complete e True v1"
  obtain m2 where m2: "demotion_complete (cache_map c1) e True = Some m2" "mrep m2 ?v"
    using demotion_complete_sim [OF rep hit(1,2), of True] by (rule becomesE)
  have table: "page_table ?v = (page_table v1)(key_of v e := None)"
    by (simp add: v_demotion_complete_def v_release_def Let_def same_key)
  have "same_store (stored S ?v w1) (stored S v w)"
  proof (rule same_store_pages)
    fix q and d :: u32 and x :: nat
    assume d: "unat d < 2 ^ 17" and x: "x < cblock_bytes"
    show "stored S ?v w1 q (cblock_bytes * unat d + x) = stored S v w q (cblock_bytes * unat d + x)"
    proof (cases "(q, d) = key_of v e")
      case True
      have "(q, d) \<in> dom (page_table v1)" using hit(3) True by auto
      then have "disk S w1 q (cblock_bytes * unat d + x) = disk S w q (cblock_bytes * unat d + x)"
        using turn(4) x unfolding keeps_others_def untouched_disk_def by blast
      moreover have "flash S w (cblock_bytes * unat e + x) = disk S w q (cblock_bytes * unat d + x)"
        using R(4) old(2) s(2) x unfolding clean_blocks_def True [symmetric] by simp
      ultimately show ?thesis using True old(2) by (simp add: content_page [OF d x] table)
    next
      case False
      then have "stored S ?v w1 q (cblock_bytes * unat d + x) = stored S v1 w1 q (cblock_bytes * unat d + x)"
        by (simp add: content_page [OF d x] table)
      with turn(3) False d x show ?thesis unfolding other_pages_same_def by simp
    qed
  qed
  moreover have "rc = 0" using turn(6) hit(3) key by simp
  ultimately show ?thesis using turn(1) m2 s(1) by auto
qed

section \<open>Trims that erase\<close>

text \<open>
  A device may also read as zeros where it has been trimmed. The trim of a demotion always covers cache block 0,
  so on such a device the demotion of any other block erases the page in block 0.
\<close>

definition trims_to_zero :: "'w system \<Rightarrow> target \<Rightarrow> 'w storage \<Rightarrow> nat \<Rightarrow> bool" where
  "trims_to_zero sys t S bs \<longleftrightarrow> (\<forall>q lba num w.
     to_flash S (unat lba * bs) (replicate (unat num * bs) 0) w (snd (ns_cmd_deallocate sys (t_ns t) (t_qpair t q) lba num w)))"

text \<open>The state after the demotion: everything is in order but block 0, which a page is mapped to.\<close>

lemma demotion_erases:
  assumes rel: "reliable sys t S bs" and zero: "trims_to_zero sys t S bs" and bs: "bs * 2 ^ ps = 4096" and use: "usable S ps {} c v w"
    and start: "v_demotion_start v = (v1, Some e)" and k: "page_table v (p, i) = Some 0" "e \<noteq> 0"
  obtains m2 w2 v2 where "migrate_demotion sys t buf (cache_map c) w = Some (m2, w2)" "usable S ps {0} (c\<lparr>cache_map := m2\<rparr>) v2 w2"
    "page_table v2 (p, i) = Some 0" "\<forall>x < cblock_bytes. stored S v2 w2 p (cblock_bytes * unat i + x) = 0"
proof -
  note U = usableD [OF use]
  have more: "\<not> length (clean_q v) \<le> unat (blocks v) div 2" using start by (simp add: v_demotion_start_def split: if_splits)
  have v1: "v1 = v\<lparr>clean_q := tl (clean_q v), moving := insert e (moving v)\<rparr>" and e: "e = hd (clean_q v)"
    using start more by (auto simp: v_demotion_start_def)
  obtain m1 where m1: "demotion_clean_to_free (cache_map c) = Some (m1, Some e)" "mrep m1 v1"
    using demotion_start_sim [OF U(1)] start by (auto elim: yieldsE)
  have "e \<in> set (clean_q v)" using e more by (cases "clean_q v") auto
  then have ran: "e \<in> ran (page_table v)" using mrep_roles(3) [OF U(1), of e] by simp
  have mv: "e \<in> moving v1" "e \<in> ran (page_table v1)" using ran by (simp_all add: v1)
  let ?v = "v_demotion_complete e True v1"
  obtain m2 where m2: "demotion_complete m1 e True = Some m2" "mrep m2 ?v"
    using demotion_complete_sim [OF m1(2) mv, of True] by (rule becomesE)
  have key: "page_table v (key_of v e) = Some e" using mrep_lookup [OF U(1)] ran unfolding ran_def by blast
  have unmarked: "e \<notin> marked v" using mrep_roles(3) [OF U(1), of e] \<open>e \<in> set (clean_q v)\<close> by simp
  have table: "page_table ?v = (page_table v)(key_of v e := None)" "marked ?v = marked v" "work_list ?v = work_list v"
      "cblock_shift ?v = cblock_shift v"
    using unmarked by (simp_all add: v_demotion_complete_def v_release_def Let_def v1)
  have other: "(p, i) \<noteq> key_of v e" using key k by auto
  then have hit: "page_table ?v (p, i) = Some 0" using k(1) table by simp
  have small: "unat i < 2 ^ 17" using keys_ok_mapped [OF U(3) k(1)] by (simp add: key_ok_def)
  let ?n = "push_bit (unat (block_per_cblock_shift m1)) (1 :: u32)"
  let ?w = "snd (ns_cmd_deallocate sys (t_ns t) (t_qpair t MG_QUEUE) 0 ?n w)"
  have run: "migrate_demotion sys t buf (cache_map c) w = Some (m2, ?w)"
    using m1(1) m2(1) by (simp add: migrate_demotion_def mg_start_def trim_spdk_def case_prod_unfold Let_def del: push_bit_of_1)
  have "block_per_cblock_shift m1 = block_per_cblock_shift (cache_map c)"
    using mrep_fields(7) [OF m1(2)] mrep_fields(7) [OF U(1)] by (simp add: v1)
  then have shift: "cblock_shift_ok m1 ps bs"
    using U(2) device_ok_shifts(2) [OF U(2)] bs by (simp add: cblock_shift_ok_def device_ok_def)
  have zeroed: "to_flash S (unat (0 :: u64) * bs) (replicate (unat ?n * bs) 0) w ?w"
    using zero unfolding trims_to_zero_def by blast
  have range: "unat ?n * bs = cblock_bytes" by (rule cblock_range(2) [OF shift, of 0]) (simp add: config_eqs)
  from zeroed [unfolded to_flash_def range]
  have flash: "flash S ?w = overwrite 0 (replicate cblock_bytes 0) (flash S w)" by simp
  have beyond: "beyond_block_zero S w ?w"
    using demotion_transfer [OF rel shift, of w] unfolding trimmed_def by simp
  have fl: "flash S ?w (cblock_bytes * unat a + x) = flash S w (cblock_bytes * unat a + x)" if "a \<noteq> 0" for a :: u32 and x
  proof -
    have "1 \<le> unat a" using that by (simp add: Suc_le_eq word_neq_0_conv unat_gt_0)
    then have "cblock_bytes \<le> cblock_bytes * unat a + x" by simp
    with beyond show ?thesis unfolding beyond_block_zero_def by blast
  qed
  have "clean_blocks (page_table ?v) (marked ?v \<union> {0}) (flash S ?w) (disk S ?w)"
    unfolding clean_blocks_def
  proof (intro allI impI)
    fix q b a and x :: nat
    assume hit: "page_table ?v (q, b) = Some a" and a: "a \<notin> marked ?v \<union> {0}" and x: "x < cblock_bytes"
    have "page_table v (q, b) = Some a" using hit by (simp add: table(1) split: if_splits)
    moreover have "a \<notin> marked v" "a \<noteq> 0" using a by (simp_all add: table(2))
    ultimately have "flash S w (cblock_bytes * unat a + x) = disk S w q (cblock_bytes * unat b + x)"
      using U(4) x unfolding clean_blocks_def Un_empty_right by blast
    with fl [OF \<open>a \<noteq> 0\<close>] beyond show "flash S ?w (cblock_bytes * unat a + x) = disk S ?w q (cblock_bytes * unat b + x)"
      by (simp add: beyond_block_zero_def)
  qed
  moreover have "keys_ok ?v" using U(3) unfolding keys_ok_def table(1,3) by (auto split: if_splits)
  moreover have "device_ok (c\<lparr>cache_map := m2\<rparr>) ps"
    using device_ok_map [OF U(2)] mrep_fields(7) [OF m2(2)] mrep_fields(7) [OF U(1)] table(4) by simp
  ultimately have "usable S ps {0} (c\<lparr>cache_map := m2\<rparr>) ?v ?w" using m2(2) by (simp add: usable_def)
  moreover have "stored S ?v ?w p (cblock_bytes * unat i + x) = 0" if "x < cblock_bytes" for x
    unfolding content_page [OF small that] hit option.case flash using that by (simp add: overwrite_def)
  ultimately show thesis using that [OF run _ hit] by blast
qed

text \<open>A user reads the page.\<close>

lemma read_erased:
  assumes rel: "reliable sys t S bs" and zero: "trims_to_zero sys t S bs" and bs: "bs * 2 ^ ps = 4096" and use: "usable S ps {} c v w"
    and start: "v_demotion_start v = (v1, Some e)" and k: "page_table v (p, i) = Some 0" "e \<noteq> 0"
    and ok: "action_ok buf (Submit h q)" and node: "h q = Some node" "operation node = READ" "request_key node = (p, i)"
    and apart: "distinct (request_addrs h q)"
  shows "\<exists>m2 w2 c' w'. migrate_demotion sys t buf (cache_map c) w = Some (m2, w2)
    \<and> submit_to_target sys t h (c\<lparr>cache_map := m2\<rparr>) q w2 = Some ((c', w'), 0)
    \<and> (\<forall>a \<in> set (request_addrs h q). ram S w' a = 0)"
proof -
  obtain m2 w2 v2 where left: "migrate_demotion sys t buf (cache_map c) w = Some (m2, w2)" "usable S ps {0} (c\<lparr>cache_map := m2\<rparr>) v2 w2"
    "page_table v2 (p, i) = Some 0" "\<forall>x < cblock_bytes. stored S v2 w2 p (cblock_bytes * unat i + x) = 0"
    by (rule demotion_erases [OF rel zero bs use start k])
  from ok node obtain vec where vec: "pio_to_iovec h q (unat (pio_cnt node)) = Some vec"
    "check_pio node" "operation node \<noteq> DISCARD" "key_ok (request_key node)" "pio_fd node = 0"
    by (auto split: option.splits)
  obtain ns where ns: "vec = page_vector ns" "unat (pio_cnt node) = length ns" using pio_to_iovec_pages [OF vec(1)] by metis
  have addrs: "request_addrs h q = iov_bytes (page_vector ns)" using node(1) vec(1) ns(1) by (simp add: request_addrs_def)
  let ?as = "iov_bytes (page_vector ns)"
  obtain c' w' where fin: "submit_to_target sys t h (c\<lparr>cache_map := m2\<rparr>) q w2 = Some ((c', w'), 0)"
    "ram S w' = snd (plain_request node ?as (stored S v2 w2, ram S w2))"
    using request_transparent [OF rel bs left(2) node(1) vec(1) [unfolded ns(1)] ns(2) vec(2-5)] left(3) node(3)
    unfolding request_done_def by auto
  have lo: "page_offset node + length ?as \<le> cblock_bytes" by (rule request_fits [OF vec(2) ns(2)])
  have path: "pio_path node = p" "snd (request_key node) = i" using node(3) by (simp_all add: request_key_def)
  have "bytes_at (stored S v2 w2 p) (4096 * unat (page_index node)) (length ?as) = replicate (length ?as) 0"
    unfolding request_place [symmetric] path(2) bytes_at_def
  proof (rule replicate_eqI)
    fix y assume "y \<in> set (map (\<lambda>j. stored S v2 w2 p (cblock_bytes * unat i + page_offset node + j)) [0..<length ?as])"
    then obtain j where j: "j < length ?as" "y = stored S v2 w2 p (cblock_bytes * unat i + (page_offset node + j))"
      by (auto simp: add.assoc)
    have "page_offset node + j < cblock_bytes" using j(1) lo by linarith
    with left(4) j(2) show "y = 0" by simp
  qed simp
  with fin(2) node(2) path have "ram S w' = put_ram ?as (replicate (length ?as) 0) (ram S w2)" by (simp add: plain_request_def)
  then have "map (ram S w') ?as = replicate (length ?as) 0" using map_put_ram [OF apart [unfolded addrs]] by simp
  then have "\<forall>a \<in> set ?as. ram S w' a = 0" by (metis (no_types, lifting) image_eqI in_set_replicate list.set_map)
  with left(1) fin(1) show ?thesis unfolding addrs by blast
qed

section \<open>Properties\<close>

text \<open>
  C11. A write during a promotion is lost. When the migration thread has copied a page into its block and a user
  writes the page before the promotion is completed, the page is not found and the write goes to the file; the
  completion then enters the block with the old bytes, and every byte of every file reads as before the write.
\<close>

theorem write_during_promotion_is_lost:
  assumes "reliable sys t S bs" and "bs * 2 ^ ps = 4096" and "running_ok S ps c v w (Copied_in e s)"
    and "action_ok buf (Submit h p)" and "h p = Some node" and "operation node = WRITE"
    and "request_key node = entry_key (ents (cache_map c) e)"
  shows "\<exists>c1 w1 rc m2 v2. submit_to_target sys t h c p w = Some ((c1, w1), rc)
    \<and> advance sys t buf (cache_map c1, w1) (Copied_in e s) = Some ((m2, w1), Served_work)
    \<and> mrep m2 v2 \<and> same_store (stored S v2 w1) (stored S v w)"
  by (rule promotion_race [OF assms])

text \<open>Input: the new cache, with page 1 of file \<open>f\<close> copied into block 0.\<close>

lemma copied_page:
  obtains m v w s where "running_ok machine_storage 3 (sample_cache m) v w (Copied_in 0 s)" "entry_key (ents m 0) = (''f'', 1)"
proof -
  let ?start = "v_init 2 6 (\<lambda>_. ([], 0))\<lparr>work_list := [(''f'', 1)]\<rparr>" and ?k = "(''f'', 1 :: u32)"
  let ?v = "?start\<lparr>free_q := [1], moving := {0}, key_of := (key_of ?start)(0 := ?k)\<rparr>"
  have rep0: "mrep (queued_cache ''f'') ?start" by (rule queued_cache_rep) (simp add: config_eqs)
  have "v_promotion_start ?k ?start = (?v, Some 0)" by (simp add: v_promotion_start_def v_init_def range_two)
  then obtain m where rep: "mrep m ?v"
    using promotion_start_sim [OF rep0, of "''f''" 1] by (auto simp: config_eqs elim: yieldsE)
  have dev: "device_ok (sample_cache m) 3" by (rule sample_cache_device [OF rep]) (simp add: v_init_def)
  have "running_ok machine_storage 3 (sample_cache m) ?v sevens (Copying_in ?k 0)"
    using rep dev by (simp add: running_ok_def usable_def keys_ok_def key_ok_def clean_blocks_def phase_inv_def under_way_def
        unmapped_def sample_cache_def v_init_def config_eqs)
  from stage_copy_in [OF machine_reliable [of reset_ctrlr_and_ns] _ this, where buf = 1048576]
  obtain m' w' st' v' where step: "advance machine_system reset_ctrlr_and_ns 1048576 (m, sevens) (Copying_in ?k 0) = Some ((m', w'), st')"
    and run: "running_ok machine_storage 3 (sample_cache m\<lparr>cache_map := m'\<rparr>) v' w' st'"
    by (auto simp: stage_done_def sample_cache_def)
  from step obtain s where "m' = m" "st' = Copied_in 0 s" by (auto simp: bind_eq_Some_conv)
  with run have "running_ok machine_storage 3 (sample_cache m) v' w' (Copied_in 0 s)" by (simp add: sample_cache_def)
  moreover have "entry_key (ents m 0) = ?k" using mrep_fields(2) [OF rep, of 0] by simp
  ultimately show thesis by (rule that)
qed

theorem write_during_promotion_is_lost_witness:
  "\<exists>m v w s c1 w1 rc m2 v2. submit_to_target machine_system reset_ctrlr_and_ns
        [8 \<mapsto> one_pio\<lparr>pio_cnt := 1, operation := WRITE, buffer := 4096\<rparr>] (sample_cache m) 8 w = Some ((c1, w1), rc)
    \<and> advance machine_system reset_ctrlr_and_ns 1048576 (cache_map c1, w1) (Copied_in 0 s) = Some ((m2, w1), Served_work)
    \<and> same_store (stored machine_storage v2 w1) (stored machine_storage v w)"
proof -
  let ?node = "one_pio\<lparr>pio_cnt := 1, operation := WRITE, buffer := 4096\<rparr>"
  obtain m v w s where run: "running_ok machine_storage 3 (sample_cache m) v w (Copied_in 0 s)" "entry_key (ents m 0) = (''f'', 1)"
    by (rule copied_page)
  have ok: "action_ok 1048576 (Submit [8 \<mapsto> ?node] 8)" using page_request_ok [of 4096 WRITE] by (simp only: page_request_def) simp
  have key: "request_key ?node = entry_key (ents (cache_map (sample_cache m)) 0)"
    using run(2) by (simp add: request_key_def one_pio_def sample_cache_def page_index_8)
  have bs: "512 * 2 ^ 3 = (4096 :: nat)" by simp
  have node: "[8 \<mapsto> ?node] 8 = Some ?node" "operation ?node = WRITE" by simp_all
  from write_during_promotion_is_lost [OF machine_reliable bs run(1) ok node key] show ?thesis by blast
qed

text \<open>
  C12. A write during a demotion is lost. A user who writes a page whose demotion is under way finds it, writes its block
  and is told that the write has succeeded; the completion of the demotion does not look at the dirty bit,
  removes the page and frees the block, and every byte of every file reads as before the write.
\<close>

theorem write_during_demotion_is_lost:
  assumes "reliable sys t S bs" and "bs * 2 ^ ps = 4096" and "running_ok S ps c v w (Trimmed e s)"
    and "action_ok buf (Submit h p)" and "h p = Some node" and "operation node = WRITE"
    and "request_key node = entry_key (ents (cache_map c) e)"
  shows "\<exists>c1 w1 m2 v2. submit_to_target sys t h c p w = Some ((c1, w1), 0)
    \<and> advance sys t buf (cache_map c1, w1) (Trimmed e s) = Some ((m2, w1), Served_work)
    \<and> mrep m2 v2 \<and> same_store (stored S v2 w1) (stored S v w)"
  by (rule demotion_race [OF assms])

text \<open>Input: a full cache, with the demotion of block 0 under way.\<close>

lemma trimmed_page:
  obtains m v w s where "running_ok machine_storage 3 (sample_cache m) v w (Trimmed 0 s)" "entry_key (ents m 0) = (''a'', 0)"
proof -
  let ?start = "clean_view\<lparr>work_list := [(''f'', 1)]\<rparr>"
  let ?v = "?start\<lparr>clean_q := [1], moving := {0}\<rparr>"
  have "v_lookup (''f'', to_cache_page_index 8) clean_view = (?start, None)"
    by (simp add: v_lookup_def clean_view_def page_index_8 v_add_work_def config_eqs)
  then obtain m0 where rep0: "mrep m0 ?start"
    using lookup_sim [OF clean_cache_rep, of "''f''" 8] by (auto simp: config_eqs elim: yieldsE)
  have "v_demotion_start ?start = (?v, Some 0)" by (simp add: v_demotion_start_def clean_view_def)
  then obtain m where rep: "mrep m ?v" using demotion_start_sim [OF rep0] by (auto elim: yieldsE)
  have dev: "device_ok (sample_cache m) 3" by (rule sample_cache_device [OF rep]) (simp add: clean_view_def)
  have ran: "(0 :: u32) \<in> ran (page_table clean_view)" by (rule ranI [of _ "(''a'', 0)"]) (simp add: clean_view_def)
  have "running_ok machine_storage 3 (sample_cache m) ?v sevens (Trimming 0)"
    using rep dev ran by (auto simp: running_ok_def usable_def keys_ok_def key_ok_def clean_blocks_def phase_inv_def under_way_def
        unmapped_def sample_cache_def clean_view_def config_eqs machine_changes sevens_def)
  from stage_trim [OF machine_reliable [of reset_ctrlr_and_ns] _ this trim_spares_always [OF machine_trims_keep], where buf = 1048576]
  obtain m' w' st' v' where step: "advance machine_system reset_ctrlr_and_ns 1048576 (m, sevens) (Trimming 0) = Some ((m', w'), st')"
    and run: "running_ok machine_storage 3 (sample_cache m\<lparr>cache_map := m'\<rparr>) v' w' st'"
    by (auto simp: stage_done_def sample_cache_def)
  from step obtain s where "m' = m" "st' = Trimmed 0 s" by (auto simp: bind_eq_Some_conv)
  with run have "running_ok machine_storage 3 (sample_cache m) v' w' (Trimmed 0 s)" by (simp add: sample_cache_def)
  moreover have "entry_key (ents m 0) = (''a'', 0)" using mrep_fields(2) [OF rep, of 0] by (simp add: clean_view_def)
  ultimately show thesis by (rule that)
qed

theorem write_during_demotion_is_lost_witness:
  "\<exists>m v w s c1 w1 m2 v2. submit_to_target machine_system reset_ctrlr_and_ns
        [8 \<mapsto> one_pio\<lparr>pio_path := ''a'', page_index := 0, pio_cnt := 1, buffer := 4096\<rparr>] (sample_cache m) 8 w = Some ((c1, w1), 0)
    \<and> advance machine_system reset_ctrlr_and_ns 1048576 (cache_map c1, w1) (Trimmed 0 s) = Some ((m2, w1), Served_work)
    \<and> same_store (stored machine_storage v2 w1) (stored machine_storage v w)"
proof -
  let ?node = "one_pio\<lparr>pio_path := ''a'', page_index := 0, pio_cnt := 1, buffer := 4096\<rparr>"
  obtain m v w s where run: "running_ok machine_storage 3 (sample_cache m) v w (Trimmed 0 s)" "entry_key (ents m 0) = (''a'', 0)"
    by (rule trimmed_page)
  have ok: "action_ok 1048576 (Submit [8 \<mapsto> ?node] 8)"
    by (rule single_page_ok) (simp_all add: one_pio_def key_ok_def request_key_def config_eqs to_cache_page_index_def)
  have key: "request_key ?node = entry_key (ents (cache_map (sample_cache m)) 0)"
    using run(2) by (simp add: request_key_def one_pio_def sample_cache_def to_cache_page_index_def)
  have node: "[8 \<mapsto> ?node] 8 = Some ?node" "operation ?node = WRITE" by (simp_all add: one_pio_def)
  have bs: "512 * 2 ^ 3 = (4096 :: nat)" by simp
  from write_during_demotion_is_lost [OF machine_reliable bs run(1) ok node key] show ?thesis by blast
qed

text \<open>
  C13. A demotion can erase another page. The trim of a demotion covers cache block 0, whatever block is demoted. On a
  device that reads as zeros where it has been trimmed, the page in block 0, clean or dirty, stays mapped: a read
  of it after the demotion of another block hits the block, returns 0, and puts zeros into all its buffers.
\<close>

theorem demotion_erases_cached_page:
  assumes "reliable sys t S bs" and "trims_to_zero sys t S bs" and "bs * 2 ^ ps = 4096" and "usable S ps {} c v w"
    and "v_demotion_start v = (v1, Some e)" and "page_table v (p, i) = Some 0" and "e \<noteq> 0"
    and "action_ok buf (Submit h q)" and "h q = Some node" and "operation node = READ" and "request_key node = (p, i)"
    and "distinct (request_addrs h q)"
  shows "\<exists>m2 w2 c' w'. migrate_demotion sys t buf (cache_map c) w = Some (m2, w2)
    \<and> submit_to_target sys t h (c\<lparr>cache_map := m2\<rparr>) q w2 = Some ((c', w'), 0)
    \<and> (\<forall>a \<in> set (request_addrs h q). ram S w' a = 0)"
  by (rule read_erased [OF assms])

text \<open>Input: a device that erases, all of whose bytes are 7, and a cache whose oldest clean block is block 1.\<close>

definition all_sevens :: host where
  "all_sevens = ((\<lambda>_. 7), \<lparr>m_flash = (\<lambda>_. 7), m_disk = (\<lambda>_ _. 7), m_open = []\<rparr>)"

lemma erasing_trims: "trims_to_zero erasing_system t machine_storage 512"
  by (simp add: trims_to_zero_def erasing_system_def trimming_machine_def trim_to_zeros_def machine_changes)

theorem demotion_erases_cached_page_witness:
  "\<exists>c m2 w2 c' w'. stored machine_storage clean_view all_sevens ''a'' 0 = 7
    \<and> migrate_demotion erasing_system reset_ctrlr_and_ns 1048576 (cache_map c) all_sevens = Some (m2, w2)
    \<and> submit_to_target erasing_system reset_ctrlr_and_ns [8 \<mapsto> one_pio\<lparr>pio_path := ''a'', page_index := 0, pio_cnt := 1, operation := READ, buffer := 8192\<rparr>]
        (c\<lparr>cache_map := m2\<rparr>) 8 w2 = Some ((c', w'), 0)
    \<and> (\<forall>a \<in> set (span 8192 4096). fst w' a = 0)"
proof -
  let ?v = "clean_view\<lparr>clean_q := [1, 0]\<rparr>"
  let ?get = "one_pio\<lparr>pio_path := ''a'', page_index := 0, pio_cnt := 1, operation := READ, buffer := 8192\<rparr>"
  obtain m where rep: "mrep m ?v" using reread_cache .
  have dev: "device_ok (sample_cache m) 3" by (rule sample_cache_device [OF rep]) (simp add: clean_view_def)
  have use: "usable machine_storage 3 {} (sample_cache m) ?v all_sevens"
    using rep dev by (auto simp: usable_def keys_ok_def key_ok_def clean_blocks_def sample_cache_def clean_view_def config_eqs
        machine_changes all_sevens_def)
  have start: "v_demotion_start ?v = (clean_view\<lparr>clean_q := [0], moving := {1}\<rparr>, Some 1)"
    by (simp add: v_demotion_start_def clean_view_def)
  have hit: "page_table ?v (''a'', 0) = Some 0" by (simp add: clean_view_def)
  have bs: "512 * 2 ^ 3 = (4096 :: nat)" by simp
  have key: "request_key ?get = (''a'', 0)" by (simp add: request_key_def to_cache_page_index_def)
  have ok: "action_ok 1048576 (Submit [8 \<mapsto> ?get] 8)"
    by (rule single_page_ok) (simp_all add: request_key_def to_cache_page_index_def key_ok_def config_eqs one_pio_def)
  have addrs: "request_addrs [8 \<mapsto> ?get] 8 = span 8192 4096" by (simp add: page_request_addrs)
  have apart: "distinct (request_addrs [8 \<mapsto> ?get] 8)" unfolding addrs by (rule distinct_span) simp
  have old: "stored machine_storage clean_view all_sevens ''a'' 0 = 7"
    by (simp add: content_def clean_view_def machine_changes all_sevens_def)
  have one: "(1 :: u32) \<noteq> 0" by simp
  obtain m2 w2 c' w' where "migrate_demotion erasing_system reset_ctrlr_and_ns 1048576 (cache_map (sample_cache m)) all_sevens = Some (m2, w2)"
    "submit_to_target erasing_system reset_ctrlr_and_ns [8 \<mapsto> ?get] ((sample_cache m)\<lparr>cache_map := m2\<rparr>) 8 w2 = Some ((c', w'), 0)"
    "\<forall>a \<in> set (span 8192 4096). ram machine_storage w' a = 0"
    using demotion_erases_cached_page [OF erasing_reliable erasing_trims bs use start hit one ok _ _ key apart, of reset_ctrlr_and_ns]
    unfolding addrs by (simp del: split_paired_Ex) (elim exE conjE, rule that)
  with old show ?thesis unfolding machine_changes(6)
    by (intro exI [of _ "sample_cache m"] exI [of _ m2] exI [of _ w2] exI [of _ c'] exI [of _ w'] conjI)
qed

end
