(* ===== verification/SsdPages.thy ===== *)
theory SsdPages
  imports UPageProps Transparency
begin

text \<open>
  The page cache on top of the SSD cache, both with their files: what a page of a file is to a user, wherever its
  bytes are (in a page of the page cache, in a block of the SSD cache, or in the file), and what one request
  of the page cache does to it. The SSD cache is in a state between two requests; its migration thread is at rest
  while a call of the page cache runs.
\<close>

section \<open>The state below the page cache\<close>

text \<open>The memory of the process is the first part of the state of the machine, and the storage does not depend on it.\<close>

definition memory_first :: "(memory \<times> 'd) storage \<Rightarrow> bool" where
  "memory_first S \<longleftrightarrow> (\<forall>w. ram S w = fst w) \<and> (\<forall>m m' d. flash S (m, d) = flash S (m', d) \<and> disk S (m, d) = disk S (m', d))"

definition files :: "(memory \<times> 'd) storage \<Rightarrow> 'd page_cache \<Rightarrow> cache_view \<Rightarrow> store" where
  "files S c v = stored S v (world (host_machine c))"

text \<open>The process is linked to a running cache, the storage works, and there is room for one request.\<close>

definition attached :: "(memory \<times> 'd) storage \<Rightarrow> nat \<Rightarrow> 'd page_cache \<Rightarrow> cache_view \<Rightarrow> bool" where
  "attached S k c v \<longleftrightarrow> (case shared_cache (process c) of None \<Rightarrow> False | Some a \<Rightarrow>
     running (cache_state (objects (host_machine c) a)) \<and> usable S k {} (objects (host_machine c) a) v (world (host_machine c)))"

definition on_ssd :: "'d env \<Rightarrow> (memory \<times> 'd) storage \<Rightarrow> nat \<Rightarrow> nat \<Rightarrow> 'd page_cache \<Rightarrow> cache_view \<Rightarrow> bool" where
  "on_ssd env S bs k c v \<longleftrightarrow> attached S k c v \<and> reliable (env_sys env) (spdk_target (process c)) S bs \<and> bs * 2 ^ k = 4096
     \<and> memory_first S \<and> malloc_pio env (pio_nodes c) \<noteq> 0 \<and> pio_nodes c (malloc_pio env (pio_nodes c)) = None"

lemma on_ssd_lists [simp]: "on_ssd env S bs k (c\<lparr>lists := l\<rparr>) v = on_ssd env S bs k c v" "files S (c\<lparr>lists := l\<rparr>) v = files S c v"
  by (simp_all add: on_ssd_def attached_def files_def split: option.split)

lemma memory_firstD:
  assumes "memory_first S"
  shows "ram S w = fst w" and "flash S (m, d) = flash S (m', d)" and "disk S (m, d) = disk S (m', d)"
  using assms unfolding memory_first_def by blast+

lemma copy_keeps_ssd:
  assumes "on_ssd env S bs k c v"
  shows "on_ssd env S bs k (copy_bytes dst src n c) v" and "files S (copy_bytes dst src n c) v = files S c v"
proof -
  let ?c = "copy_bytes dst src n c"
  have mf: "memory_first S" using assms by (simp add: on_ssd_def)
  obtain m d where w: "world (host_machine c) = (m, d)" by fastforce
  then have w': "world (host_machine ?c) = (memcpy dst src n (mem c), d)" by (simp add: copy_bytes_def)
  have same: "flash S (world (host_machine ?c)) = flash S (world (host_machine c))"
    "disk S (world (host_machine ?c)) = disk S (world (host_machine c))"
    unfolding w w' by (rule memory_firstD [OF mf])+
  then show "files S ?c v = files S c v" by (simp add: files_def)
  have "objects (host_machine ?c) = objects (host_machine c)" by (simp add: copy_bytes_def)
  with assms same show "on_ssd env S bs k ?c v"
    by (auto simp: on_ssd_def attached_def usable_def split: option.splits)
qed

section \<open>One request\<close>

text \<open>Pages of files up to 4 GB, with names that fit.\<close>

definition page_ok :: "key \<Rightarrow> bool" where
  "page_ok k \<longleftrightarrow> length (fst k) < MAX_PATH_SIZE \<and> unat (snd k) < 2 ^ 20"

lemma page_ok_key: "page_ok (name, i) \<Longrightarrow> key_ok (name, to_cache_page_index i)"
  by (simp add: page_ok_def key_ok_def to_cache_page_index_def drop_bit_eq_div unat_div less_mult_imp_div_less)

lemma page_end: "page_ok (name, i) \<Longrightarrow> frame_size * unat i + frame_size \<le> 2 ^ 32"
  by (simp add: page_ok_def)

definition page_node :: "path \<Rightarrow> u32 \<Rightarrow> operate \<Rightarrow> u64 \<Rightarrow> pio" where
  "page_node name i op buf = \<lparr>pio_path = name, pio_fd = 0, page_index = i, operation = op, buffer = buf, pio_cnt = 1, pio_next = 0\<rparr>"

lemma page_node_vector:
  "h p = Some (page_node name i op buf) \<Longrightarrow> pio_to_iovec h p 1 = Some (page_vector [(p, page_node name i op buf)])"
  "iov_bytes (page_vector [(p, page_node name i op buf)]) = span buf frame_size"
  by (simp_all add: page_vector_def page_node_def iov_bytes_def config_eqs)

lemma submit_page_done:
  assumes ssd: "on_ssd env S bs k c v" and key: "page_ok (name, i)" and op: "op \<noteq> DISCARD"
  obtains c' v' where "submit_page env name i op buf c = Some c'" "on_ssd env S bs k c' v'"
    "lists c' = lists c" "phys_base c' = phys_base c"
    "same_store (files S c' v') (fst (plain_request (page_node name i op buf) (span buf frame_size) (files S c v, mem c)))"
    "mem c' = snd (plain_request (page_node name i op buf) (span buf frame_size) (files S c v, mem c))"
proof -
  let ?p = "malloc_pio env (pio_nodes c)"
  let ?node = "page_node name i op buf"
  let ?h = "(pio_nodes c)(?p \<mapsto> ?node)"
  let ?M = "host_machine c"
  have p: "?p \<noteq> 0" "pio_nodes c ?p = None" and rel: "reliable (env_sys env) (spdk_target (process c)) S bs" "bs * 2 ^ k = 4096"
    and mf: "memory_first S" using ssd by (simp_all add: on_ssd_def)
  obtain a where a: "shared_cache (process c) = Some a" "running (cache_state (objects ?M a))" "usable S k {} (objects ?M a) v (world ?M)"
    using ssd by (auto simp: on_ssd_def attached_def split: option.splits)
  have node: "?h ?p = Some ?node" "pio_to_iovec ?h ?p (unat (pio_cnt ?node)) = Some (page_vector [(?p, ?node)])"
    "unat (pio_cnt ?node) = length [(?p, ?node)]" "check_pio ?node" "operation ?node \<noteq> DISCARD" "key_ok (request_key ?node)" "pio_fd ?node = 0"
    using page_node_vector(1) [of ?h ?p] page_ok_key [OF key] op
    by (simp_all add: page_node_def check_pio_iff Suc_le_eq request_key_def)
  obtain c1 v1 w1 rc where sub: "submit_to_target (env_sys env) (spdk_target (process c)) ?h (objects ?M a) ?p (world ?M) = Some ((c1, w1), rc)"
    "usable S k {} c1 v1 w1"
    "same_store (stored S v1 w1) (fst (plain_request ?node (span buf frame_size) (stored S v (world ?M), ram S (world ?M))))"
    "ram S w1 = snd (plain_request ?node (span buf frame_size) (stored S v (world ?M), ram S (world ?M)))"
    using request_transparent [OF rel a(3) node] unfolding request_done_def page_node_vector(2) by blast
  note state = submit_to_target_state [OF sub(1)]
  have create: "create_pio (malloc_pio env) (pio_nodes c) name 0 i op buf 1 = (?h, ?p)" by (simp add: create_pio_def p page_node_def Let_def)
  have "pio_list ?h ?p [(?p, ?node)]" using p by (simp add: page_node_def)
  from free_pio_list [OF this] have free: "free_pio ?h ?p = Some (pio_nodes c)" using p(2) by (auto simp: fun_eq_iff)
  let ?c = "c\<lparr>host_machine := (upd_cache a (\<lambda>_. c1) ?M)\<lparr>world := w1\<rparr>\<rparr>"
  have "submit_page env name i op buf c = Some ?c"
    using a(1,2) p(1) sub(1) free by (simp add: submit_page_def create submit_pio_def cache_at_def)
  moreover have "on_ssd env S bs k ?c v1"
    using ssd a(1,2) sub(2) state by (simp add: on_ssd_def attached_def upd_cache_def)
  moreover have "files S ?c v1 = stored S v1 w1" "mem ?c = fst w1" "mem c = fst (world ?M)"
    by (simp_all add: files_def mem_def)
  ultimately show thesis using that [of ?c v1] sub(3,4) by (simp add: files_def memory_firstD(1) [OF mf])
qed


text \<open>A page of a file, and writing it.\<close>

definition page_byte :: "store \<Rightarrow> key \<Rightarrow> nat \<Rightarrow> byte" where
  "page_byte st k x = st (fst k) (frame_size * unat (snd k) + x)"

definition same_pages :: "store \<Rightarrow> store \<Rightarrow> bool" where
  "same_pages st st' \<longleftrightarrow> (\<forall>k x. page_ok k \<longrightarrow> x < frame_size \<longrightarrow> page_byte st k x = page_byte st' k x)"

lemma same_store_pages_ok: "same_store st st' \<Longrightarrow> same_pages st st'"
proof -
  assume same: "same_store st st'"
  show ?thesis unfolding same_pages_def
  proof (intro allI impI)
    fix k x assume k: "page_ok k" and x: "x < frame_size"
    have "frame_size * unat (snd k) + frame_size \<le> 2 ^ 32" using page_end [of "fst k" "snd k"] k by simp
    moreover have "frame_size * unat (snd k) + x < frame_size * unat (snd k) + frame_size" using x by simp
    ultimately have "frame_size * unat (snd k) + x < 2 ^ 32" by (rule less_le_trans [rotated])
    with same show "page_byte st k x = page_byte st' k x" unfolding page_byte_def same_store_def by blast
  qed
qed

lemma written_page:
  assumes "length bs = frame_size" and "x < frame_size"
  shows "page_byte (store_write name (frame_size * unat i) bs st) k x = (if k = (name, i) then bs ! x else page_byte st k x)"
proof (cases "fst k = name")
  case True
  show ?thesis
  proof (cases "snd k = i")
    case True
    with assms \<open>fst k = name\<close> show ?thesis by (auto simp: page_byte_def store_write_def overwrite_def)
  next
    case False
    then have ne: "unat (snd k) \<noteq> unat i" by (simp add: word_unat_eq_iff)
    have "\<not> (frame_size * unat i \<le> frame_size * unat (snd k) + x \<and> frame_size * unat (snd k) + x < frame_size * unat i + frame_size)"
    proof
      assume *: "frame_size * unat i \<le> frame_size * unat (snd k) + x \<and> frame_size * unat (snd k) + x < frame_size * unat i + frame_size"
      have "(frame_size * unat (snd k) + x) div frame_size = unat (snd k)" using assms(2) by simp
      moreover have "(frame_size * unat (snd k) + x) div frame_size = unat i" using * by (intro div_nat_eqI) simp_all
      ultimately show False using ne by simp
    qed
    with False assms(1) show ?thesis by (auto simp: page_byte_def store_write_def overwrite_def)
  qed
next
  case False
  then show ?thesis by (cases k) (simp add: page_byte_def store_write_def)
qed

lemma span_area: "a \<in> set (span b n) \<longleftrightarrow> a \<in> area b n"
  by (auto simp: span_def area_def)

lemma put_ram_span:
  assumes "n \<le> 2 ^ 63" and "length bs = n" and "x < n"
  shows "put_ram (span b n) bs m (b + of_nat x) = bs ! x"
proof -
  have "map (put_ram (span b n) bs m) (span b n) = bs"
    by (rule map_put_ram [OF distinct_span]) (use assms in simp_all)
  then have "map (put_ram (span b n) bs m) (span b n) ! x = bs ! x" by simp
  then show ?thesis using assms(3) by (simp add: span_def)
qed

lemma submit_page_write:
  assumes ssd: "on_ssd env S bs k c v" and key: "page_ok (name, i)"
  obtains c' v' where "submit_page env name i WRITE buf c = Some c'" "on_ssd env S bs k c' v'"
    "lists c' = lists c" "phys_base c' = phys_base c" "mem c' = mem c"
    "\<forall>q x. page_ok q \<longrightarrow> x < frame_size \<longrightarrow> page_byte (files S c' v') q x =
       (if q = (name, i) then mem c (buf + of_nat x) else page_byte (files S c v) q x)"
proof -
  let ?bs = "map (mem c) (span buf frame_size)"
  obtain c' v' where c': "submit_page env name i WRITE buf c = Some c'" "on_ssd env S bs k c' v'"
    "lists c' = lists c" "phys_base c' = phys_base c"
    "same_store (files S c' v') (fst (plain_request (page_node name i WRITE buf) (span buf frame_size) (files S c v, mem c)))"
    "mem c' = snd (plain_request (page_node name i WRITE buf) (span buf frame_size) (files S c v, mem c))"
    using submit_page_done [OF ssd key, of WRITE buf] by auto
  have same: "same_pages (files S c' v') (store_write name (frame_size * unat i) ?bs (files S c v))"
    using same_store_pages_ok [OF c'(5)] by (simp add: plain_request_def page_node_def)
  have "page_byte (files S c' v') q x = (if q = (name, i) then mem c (buf + of_nat x) else page_byte (files S c v) q x)"
    if q: "page_ok q" "x < frame_size" for q x
  proof -
    have "page_byte (files S c' v') q x = page_byte (store_write name (frame_size * unat i) ?bs (files S c v)) q x"
      using same q unfolding same_pages_def by blast
    also have "\<dots> = (if q = (name, i) then ?bs ! x else page_byte (files S c v) q x)"
      by (rule written_page) (use q in simp_all)
    also have "?bs ! x = mem c (buf + of_nat x)" using q(2) by (simp add: span_def)
    finally show ?thesis .
  qed
  moreover have "mem c' = mem c" using c'(6) by (simp add: plain_request_def page_node_def)
  ultimately show thesis using that c'(1-4) by blast
qed

lemma submit_page_read:
  assumes ssd: "on_ssd env S bs k c v" and key: "page_ok (name, i)"
  obtains c' v' where "submit_page env name i READ buf c = Some c'" "on_ssd env S bs k c' v'"
    "lists c' = lists c" "phys_base c' = phys_base c" "same_pages (files S c' v') (files S c v)"
    "\<forall>x < frame_size. mem c' (buf + of_nat x) = page_byte (files S c v) (name, i) x"
    "\<forall>a. a \<notin> area buf frame_size \<longrightarrow> mem c' a = mem c a"
proof -
  let ?bs = "bytes_at (files S c v name) (frame_size * unat i) frame_size"
  obtain c' v' where c': "submit_page env name i READ buf c = Some c'" "on_ssd env S bs k c' v'"
    "lists c' = lists c" "phys_base c' = phys_base c"
    "same_store (files S c' v') (fst (plain_request (page_node name i READ buf) (span buf frame_size) (files S c v, mem c)))"
    "mem c' = snd (plain_request (page_node name i READ buf) (span buf frame_size) (files S c v, mem c))"
    using submit_page_done [OF ssd key, of READ buf] by auto
  have mem: "mem c' = put_ram (span buf frame_size) ?bs (mem c)" and same: "same_store (files S c' v') (files S c v)"
    using c'(5,6) by (simp_all add: plain_request_def page_node_def)
  have "mem c' (buf + of_nat x) = page_byte (files S c v) (name, i) x" if "x < frame_size" for x
    unfolding mem using put_ram_span [of frame_size ?bs x buf "mem c"] that by (simp add: page_byte_def bytes_at_def)
  moreover have "mem c' a = mem c a" if "a \<notin> area buf frame_size" for a
    unfolding mem using that by (intro put_ram_outside) (simp add: span_area)
  ultimately show thesis using that c'(1-4) same_store_pages_ok [OF same] by blast
qed

end
