(* ===== verification/Eviction.thy ===== *)
theory Eviction
  imports SsdPages
begin

text \<open>
  Making room in the page cache. A page that is thrown out is written to its file through the SSD cache first, so that
  what a user sees of the files stays the same: the bytes of the page in use where there is one, the bytes below
  it where there is none.
\<close>

section \<open>What a user sees\<close>

definition holder :: "page_lists \<Rightarrow> nat list \<Rightarrow> key \<Rightarrow> nat option" where
  "holder l ps k = find (\<lambda>p. page_key l p = k) ps"

definition seen :: "(memory \<times> 'd) storage \<Rightarrow> 'd page_cache \<Rightarrow> nat list \<Rightarrow> cache_view \<Rightarrow> key \<Rightarrow> nat \<Rightarrow> byte" where
  "seen S c ps v k x = (case holder (lists c) ps k of
     Some p \<Rightarrow> mem c (page_data c p + of_nat x) | None \<Rightarrow> page_byte (files S c v) k x)"

text \<open>
  A page cache in use: every page is in use or free, the pages in use belong to pages of files, and the table
  has at most one entry for each.
\<close>

definition caching :: "'d env \<Rightarrow> (memory \<times> 'd) storage \<Rightarrow> nat \<Rightarrow> nat \<Rightarrow> 'd page_cache \<Rightarrow> nat list \<Rightarrow> nat list \<Rightarrow> cache_view \<Rightarrow> bool" where
  "caching env S bs k c ps fs v \<longleftrightarrow> on_ssd env S bs k c v \<and> pool (lists c) ps fs \<and> set (ps @ fs) = {..<CACHE_SIZE}
     \<and> (\<forall>p \<in> set ps. page_ok (page_key (lists c) p)) \<and> allocates (malloc_entry env) \<and> card (dom (hash_heap (lists c))) \<le> length ps"

lemma cachingD:
  assumes "caching env S bs k c ps fs v"
  shows "on_ssd env S bs k c v" "pool (lists c) ps fs" "set (ps @ fs) = {..<CACHE_SIZE}" "\<And>p. p \<in> set ps \<Longrightarrow> page_ok (page_key (lists c) p)"
    "allocates (malloc_entry env)" "card (dom (hash_heap (lists c))) \<le> length ps"
  using assms by (simp_all add: caching_def)

lemma caching_pages: "caching env S bs k c ps fs v \<Longrightarrow> length ps + length fs = CACHE_SIZE"
proof -
  assume c: "caching env S bs k c ps fs v"
  have "distinct (ps @ fs)" using cachingD(2) [OF c] by (simp add: pool_def)
  from distinct_card [OF this] show ?thesis unfolding cachingD(3) [OF c] by simp
qed

lemma holder_None: "holder l ps k = None \<longleftrightarrow> k \<notin> page_key l ` set ps"
  by (auto simp: holder_def find_None_iff)

lemma holder_Some: "pool l ps fs \<Longrightarrow> p \<in> set ps \<Longrightarrow> holder l ps (page_key l p) = Some p"
proof -
  assume pool: "pool l ps fs" and p: "p \<in> set ps"
  obtain q where q: "holder l ps (page_key l p) = Some q" using p holder_None by (metis imageI option.exhaust)
  then have "q \<in> set ps" "page_key l q = page_key l p" by (auto simp: holder_def find_Some_iff)
  with pool p have "q = p" by (auto simp: pool_def distinct_map dest: inj_onD)
  with q show ?thesis by simp
qed

lemma holder_in: "holder l ps k = Some p \<Longrightarrow> p \<in> set ps \<and> page_key l p = k"
  by (auto simp: holder_def find_Some_iff)

lemma holder_cong: "(\<And>p. p \<in> set ps \<Longrightarrow> page_key l p = page_key l' p) \<Longrightarrow> holder l ps k = holder l' ps k"
  unfolding holder_def by (intro find_cong) auto

lemma holder_append: "holder l (xs @ ys) k = (case holder l xs k of None \<Rightarrow> holder l ys k | Some p \<Rightarrow> Some p)"
  by (induction xs) (simp_all add: holder_def)

lemma page_data_base: "phys_base c' = phys_base c \<Longrightarrow> page_data c' p = page_data c p"
  by (simp add: page_data_def)

section \<open>One page\<close>

text \<open>Removing a page from the table frees one entry.\<close>

definition frees_entry :: "page_lists \<Rightarrow> page_lists \<times> bool \<Rightarrow> bool" where
  "frees_entry s r \<longleftrightarrow> (if snd r then \<exists>a \<in> dom (hash_heap s). dom (hash_heap (fst r)) = dom (hash_heap s) - {a} else fst r = s)"

lemma unlink_entry_frees: "unlink_entry name i b prev cur s = Some r \<Longrightarrow> frees_entry s r"
proof (rule unlink_entry.raw_induct [where P = "\<lambda>name i b prev cur s r. frees_entry s r"])
  fix f :: "path \<Rightarrow> u32 \<Rightarrow> u32 \<Rightarrow> u64 \<Rightarrow> u64 \<Rightarrow> page_lists \<Rightarrow> (page_lists \<times> bool) option"
    and name i hx prev cur s r
  assume IH: "\<And>name i hx prev cur s r. f name i hx prev cur s = Some r \<Longrightarrow> frees_entry s r"
    and eq: "(if cur = 0 then Some (s, False)
      else do {
        e \<leftarrow> hash_heap s cur;
        nm \<leftarrow> he_path e;
        if strcmp_eq nm name \<and> he_index e = i then do {
          s \<leftarrow> (if prev = 0 then Some (s\<lparr>hash_tbl := (hash_tbl s)(hx := he_next e)\<rparr>)
                else do {
                  before \<leftarrow> hash_heap s prev;
                  Some (s\<lparr>hash_heap := (hash_heap s)(prev \<mapsto> before\<lparr>he_next := he_next e\<rparr>)\<rparr>) });
          Some (s\<lparr>hash_heap := (hash_heap s)(cur := None)\<rparr>, True) }
        else f name i hx cur (he_next e) s }) = Some r"
  show "frees_entry s r"
  proof (cases "cur = 0")
    case False
    then obtain e nm where e: "hash_heap s cur = Some e" "he_path e = Some nm" using eq by (auto simp: bind_eq_Some_conv)
    show ?thesis
    proof (cases "strcmp_eq nm name \<and> he_index e = i")
      case True
      then show ?thesis using False e eq
        by (cases "prev = 0") (auto simp: frees_entry_def bind_eq_Some_conv intro!: bexI [of _ cur] split: if_splits)
    next
      case other: False
      then have "f name i hx cur (he_next e) s = Some r" using False e eq by auto
      then show ?thesis by (rule IH)
    qed
  qed (use eq in \<open>auto simp: frees_entry_def\<close>)
qed

lemma remove_from_lru_heap:
  assumes "remove_from_lru p s = Some (s', 0)"
  shows "Suc (card (dom (hash_heap s'))) = card (dom (hash_heap s))"
proof -
  obtain s1 rc where s1: "hash_table_remove p s = Some (s1, rc)" "rc \<noteq> 1" "s' = put_free p (unlink_page p s1)"
    using assms by (auto simp: remove_from_lru_unlink bind_eq_Some_conv split: if_splits)
  have heap: "hash_heap s' = hash_heap s1" by (simp add: s1(3) frames)
  from s1(1,2) obtain name i b where "unlink_entry name i b 0 (hash_tbl s b) s = Some (s1, True)"
    by (auto simp: hash_table_remove_def bind_eq_Some_conv Let_def split: if_splits)
  from unlink_entry_frees [OF this] obtain a where "a \<in> dom (hash_heap s)" "dom (hash_heap s') = dom (hash_heap s) - {a}"
    unfolding heap by (auto simp: frees_entry_def)
  then show ?thesis by (simp only: card_Suc_Diff1 finite)
qed


text \<open>A change that no user sees: memory, keys and the bytes of all pages stay as they are.\<close>

definition unseen :: "(memory \<times> 'd) storage \<Rightarrow> 'd page_cache \<Rightarrow> nat list \<Rightarrow> cache_view \<Rightarrow> 'd page_cache \<Rightarrow> nat list \<Rightarrow> cache_view \<Rightarrow> bool" where
  "unseen S c ps v c' ps' v' \<longleftrightarrow> mem c' = mem c \<and> phys_base c' = phys_base c \<and> set ps' \<subseteq> set ps
     \<and> (\<forall>q \<in> set ps'. page_key (lists c') q = page_key (lists c) q)
     \<and> (\<forall>key x. page_ok key \<longrightarrow> x < frame_size \<longrightarrow> seen S c' ps' v' key x = seen S c ps v key x)"

lemma unseen_refl [simp]: "unseen S c ps v c ps v"
  by (simp add: unseen_def)

lemma unseen_trans: "unseen S c ps v c1 ps1 v1 \<Longrightarrow> unseen S c1 ps1 v1 c2 ps2 v2 \<Longrightarrow> unseen S c ps v c2 ps2 v2"
  by (auto simp: unseen_def)

lemma pool_tail: "pool l (xs @ [p]) fs \<Longrightarrow> lru_tail l = Some p"
  using dseg_last [of "mem_map l" None "lru_head l" "xs @ [p]" "lru_tail l" None] by (simp add: pool_def lru_list_def)

lemma evict_one:
  assumes c: "caching env S bs k c (xs @ [p]) fs v"
  obtains c' v' where "write_back_one env c = Some c'" "caching env S bs k c' xs (p # fs) v'" "unseen S c (xs @ [p]) v c' xs v'"
proof -
  note C = cachingD [OF c]
  have dist: "distinct (xs @ p # fs)" using C(2) by (auto simp: pool_def)
  obtain name where name: "pg_path (mem_map (lists c) p) = Some name" using C(2) by (auto simp: pool_def)
  define i where "i = pg_index (mem_map (lists c) p)"
  have key: "page_key (lists c) p = (name, i)" by (simp add: page_key_def name i_def)
  have ok: "page_ok (name, i)" using C(4) [of p] by (simp add: key)
  obtain c1 v1 where c1: "submit_page env name i WRITE (page_data c p) c = Some c1" "on_ssd env S bs k c1 v1"
    "lists c1 = lists c" "phys_base c1 = phys_base c" "mem c1 = mem c"
    "\<forall>q x. page_ok q \<longrightarrow> x < frame_size \<longrightarrow> page_byte (files S c1 v1) q x =
       (if q = (name, i) then mem c (page_data c p + of_nat x) else page_byte (files S c v) q x)"
    by (rule submit_page_write [OF C(1) ok])
  have pool: "pool (lists c) (xs @ p # []) fs" using C(2) by simp
  obtain h t where rem: "remove_from_lru p (lists c) = Some (put_free p (unlink_page p ((lists c)\<lparr>hash_heap := h, hash_tbl := t\<rparr>)), 0)"
    "pool (put_free p (unlink_page p ((lists c)\<lparr>hash_heap := h, hash_tbl := t\<rparr>))) (xs @ []) (p # fs)"
    by (rule pool_remove [OF pool])
  let ?l = "put_free p (unlink_page p ((lists c)\<lparr>hash_heap := h, hash_tbl := t\<rparr>))"
  let ?c = "c1\<lparr>lists := ?l\<rparr>"
  have run: "write_back_one env c = Some ?c"
    using c1(1,3) rem(1) by (simp add: write_back_one_def write_pio_def name pool_tail [OF C(2)] flip: i_def)
  have keys: "page_key ?l q = page_key (lists c) q" if "q \<in> set xs" for q
  proof -
    have "q \<noteq> p" using that dist by auto
    then show ?thesis by (simp add: page_key_def put_free_mem frames)
  qed
  have heap: "card (dom (hash_heap ?l)) \<le> length xs" using remove_from_lru_heap [OF rem(1)] C(6) by simp
  have new: "caching env S bs k ?c xs (p # fs) v1"
    unfolding caching_def using c1(2) rem(2) C(3,4,5) heap keys by auto
  have "seen S ?c xs v1 q x = seen S c (xs @ [p]) v q x" if q: "page_ok q" "x < frame_size" for q x
  proof -
    have hold: "holder ?l xs q = holder (lists c) xs q" by (rule holder_cong) (rule keys)
    have data: "page_data c1 r = page_data c r" for r by (simp add: page_data_def c1(4))
    show ?thesis
    proof (cases "holder (lists c) xs q")
      case None
      show ?thesis
        using c1(6) [rule_format, OF q] by (simp add: seen_def hold None holder_append) (simp add: holder_def key)
    next
      case (Some r)
      then show ?thesis using c1(5) by (simp add: seen_def hold holder_append data)
    qed
  qed
  then have "unseen S c (xs @ [p]) v ?c xs v1" using c1(4,5) keys by (auto simp: unseen_def)
  with run new show thesis by (rule that)
qed

section \<open>Many pages\<close>

lemma evict_many:
  assumes "caching env S bs k c (xs @ ys) fs v"
  shows "\<exists>c' v'. iterate (length ys) (write_back_one env) c = Some c' \<and> caching env S bs k c' xs (ys @ fs) v'
    \<and> unseen S c (xs @ ys) v c' xs v'"
  using assms
proof (induction ys arbitrary: c fs v rule: rev_induct)
  case Nil
  then show ?case by auto
next
  case (snoc p ys)
  have c: "caching env S bs k c ((xs @ ys) @ [p]) fs v" using snoc.prems by simp
  obtain c1 v1 where c1: "write_back_one env c = Some c1" "caching env S bs k c1 (xs @ ys) (p # fs) v1"
    "unseen S c ((xs @ ys) @ [p]) v c1 (xs @ ys) v1"
    by (rule evict_one [OF c])
  from snoc.IH [OF c1(2)] obtain c2 v2 where
    c2: "iterate (length ys) (write_back_one env) c1 = Some c2" "caching env S bs k c2 xs (ys @ p # fs) v2"
    "unseen S c1 (xs @ ys) v1 c2 xs v2" by blast
  with unseen_trans [OF c1(3) c2(3)] c1(1) show ?case by (intro exI [of _ c2] exI [of _ v2]) simp
qed

lemma evict_half:
  assumes c: "caching env S bs k c ps [] v"
  obtains c' v' where "iterate (CACHE_SIZE div 2) (write_back_one env) c = Some c'"
    "caching env S bs k c' (take (CACHE_SIZE div 2) ps) (drop (CACHE_SIZE div 2) ps) v'"
    "unseen S c ps v c' (take (CACHE_SIZE div 2) ps) v'"
proof -
  let ?h = "CACHE_SIZE div 2"
  have "length ps = CACHE_SIZE" using caching_pages [OF c] by simp
  moreover have "CACHE_SIZE - ?h = ?h" by (simp add: CACHE_SIZE_def)
  ultimately have len: "length (drop ?h ps) = ?h" by simp
  have "caching env S bs k c (take ?h ps @ drop ?h ps) [] v" using c by simp
  from evict_many [OF this] that show thesis unfolding len append_take_drop_id append_Nil2 by blast
qed

text \<open>Room for a page, in a cache with free pages or without.\<close>

definition kept :: "nat list \<Rightarrow> nat list \<Rightarrow> nat list" where
  "kept ps fs = (if fs = [] then take (CACHE_SIZE div 2) ps else ps)"

lemma alloc_page_room:
  assumes c: "caching env S bs k c ps fs v"
  obtains c1 f fs1 v1 where "caching env S bs k c1 (kept ps fs) (f # fs1) v1" "alloc_page env c = alloc_page env c1"
    "unseen S c ps v c1 (kept ps fs) v1" "fs \<noteq> [] \<longrightarrow> f # fs1 = fs \<and> c1 = c"
proof (cases fs)
  case Nil
  let ?h = "CACHE_SIZE div 2"
  have "length ps = CACHE_SIZE" using caching_pages [OF c] Nil by simp
  moreover have "CACHE_SIZE div 2 < CACHE_SIZE" by (simp add: CACHE_SIZE_def)
  ultimately have "drop ?h ps \<noteq> []" by simp
  then obtain f fs1 where drop: "drop ?h ps = f # fs1" by (cases "drop ?h ps") auto
  obtain c1 v1 where c1: "iterate ?h (write_back_one env) c = Some c1"
    "caching env S bs k c1 (take ?h ps) (drop ?h ps) v1" "unseen S c ps v c1 (take ?h ps) v1"
    by (rule evict_half [OF c [unfolded Nil]])
  have "nr_free (lists c) = 0" "nr_free (lists c1) \<noteq> 0"
    using cachingD(2) [OF c] cachingD(2) [OF c1(2)] Nil drop by (simp_all add: pool_def)
  then have alloc: "alloc_page env c = alloc_page env c1" using c1(1) by (simp add: alloc_page_def)
  have kept: "kept ps fs = take ?h ps" by (simp add: kept_def Nil)
  show thesis by (rule that [OF c1(2) [unfolded drop, folded kept] alloc c1(3) [folded kept]]) (simp add: Nil)
next
  case (Cons f fs1)
  then have kept: "kept ps fs = ps" by (simp add: kept_def)
  have "caching env S bs k c (kept ps fs) (f # fs1) v" "unseen S c ps v c (kept ps fs) v" using c by (simp_all add: Cons kept [unfolded Cons])
  from that [OF this(1) refl this(2)] Cons show thesis by blast
qed

end
