(* ===== verification/FileAccess.thy ===== *)
theory FileAccess
  imports Eviction
begin

text \<open>
  Writing and reading pages of files through the page cache, with pages thrown out to the SSD cache when there is no
  room, and read back from it when they are not there.
\<close>

section \<open>Changes\<close>

text \<open>
  What a call leaves alone: memory outside \<open>A\<close> and the pages, the bytes of the pages of files outside \<open>K\<close>; only
  pages of \<open>N\<close> come into use.
\<close>

definition page_changes :: "(memory \<times> 'd) storage \<Rightarrow> 'd page_cache \<Rightarrow> nat list \<Rightarrow> cache_view \<Rightarrow> u64 set \<Rightarrow> key set \<Rightarrow> key set \<Rightarrow>
    'd page_cache \<Rightarrow> nat list \<Rightarrow> cache_view \<Rightarrow> bool" where
  "page_changes S c ps v A K N c' ps' v' \<longleftrightarrow> phys_base c' = phys_base c \<and> (\<forall>a. a \<notin> A \<union> page_memory c \<longrightarrow> mem c' a = mem c a)
     \<and> (\<forall>key x. page_ok key \<longrightarrow> key \<notin> K \<longrightarrow> x < frame_size \<longrightarrow> seen S c' ps' v' key x = seen S c ps v key x)
     \<and> page_key (lists c') ` set ps' \<subseteq> page_key (lists c) ` set ps \<union> N"

lemma same_memory_pages: "phys_base c' = phys_base c \<Longrightarrow> page_memory c' = page_memory c"
  by (simp add: page_memory_def)

lemma keys_trans: "X1 \<subseteq> X \<union> N \<Longrightarrow> X2 \<subseteq> X1 \<union> N' \<Longrightarrow> N \<subseteq> M \<Longrightarrow> N' \<subseteq> M \<Longrightarrow> X2 \<subseteq> X \<union> M"
  by blast

lemma page_changes_trans:
  assumes "page_changes S c ps v A K N c1 ps1 v1" and "page_changes S c1 ps1 v1 A' K' N' c2 ps2 v2"
    and "A \<subseteq> B" "A' \<subseteq> B" "K \<subseteq> L" "K' \<subseteq> L" "N \<subseteq> M" "N' \<subseteq> M"
  shows "page_changes S c ps v B L M c2 ps2 v2"
proof -
  have base: "phys_base c1 = phys_base c" "phys_base c2 = phys_base c" using assms(1,2) by (simp_all add: page_changes_def)
  note first = assms(1) [unfolded page_changes_def same_memory_pages [OF base(1), symmetric]]
  note second = assms(2) [unfolded page_changes_def]
  have "mem c2 a = mem c a" if a: "a \<notin> B \<union> page_memory c1" for a
  proof -
    have "a \<notin> A \<union> page_memory c1" "a \<notin> A' \<union> page_memory c1" using a assms(3,4) by blast+
    with first second show ?thesis by simp
  qed
  moreover have "seen S c2 ps2 v2 key x = seen S c ps v key x" if x: "page_ok key" "key \<notin> L" "x < frame_size" for key x
  proof -
    have "key \<notin> K" "key \<notin> K'" using x(2) assms(5,6) by blast+
    with first second x(1,3) show ?thesis by (cases key) simp
  qed
  moreover have "page_key (lists c2) ` set ps2 \<subseteq> page_key (lists c) ` set ps \<union> M"
  proof -
    have "page_key (lists c1) ` set ps1 \<subseteq> page_key (lists c) ` set ps \<union> N" using first by (elim conjE)
    moreover have "page_key (lists c2) ` set ps2 \<subseteq> page_key (lists c1) ` set ps1 \<union> N'" using second by (elim conjE)
    ultimately show ?thesis by (rule keys_trans [OF _ _ assms(7,8)])
  qed
  ultimately show ?thesis
    unfolding page_changes_def same_memory_pages [OF base(1), symmetric] using base(2) by (intro conjI allI impI) simp_all
qed

lemma page_changes_mono:
  "page_changes S c ps v A K N c' ps' v' \<Longrightarrow> A \<subseteq> B \<Longrightarrow> K \<subseteq> L \<Longrightarrow> N \<subseteq> M \<Longrightarrow> page_changes S c ps v B L M c' ps' v'"
  unfolding page_changes_def by (intro conjI allI impI) (blast+)

lemma unseen_changes: "unseen S c ps v c' ps' v' \<Longrightarrow> page_changes S c ps v {} {} {} c' ps' v'"
  by (auto simp: unseen_def page_changes_def image_iff)

text \<open>What a write into free pages leaves alone: everything but the memory and the lists.\<close>

definition only_memory :: "'d page_cache \<Rightarrow> 'd page_cache \<Rightarrow> bool" where
  "only_memory c c' \<longleftrightarrow> process c' = process c \<and> pio_nodes c' = pio_nodes c \<and> map_base c' = map_base c \<and> phys_base c' = phys_base c
     \<and> objects (host_machine c') = objects (host_machine c) \<and> shm_name (host_machine c') = shm_name (host_machine c)
     \<and> next_object (host_machine c') = next_object (host_machine c) \<and> snd (world (host_machine c')) = snd (world (host_machine c))"

lemma only_memory_copy: "only_memory c ((copy_bytes dst src n c)\<lparr>lists := l\<rparr>)"
  by (simp add: only_memory_def copy_bytes_def)

lemma only_memory_trans: "only_memory c c1 \<Longrightarrow> only_memory c1 c2 \<Longrightarrow> only_memory c c2"
  by (simp add: only_memory_def)

section \<open>Writing\<close>

lemma write_pages_alloc:
  assumes "alloc_page env c = alloc_page env c1"
  shows "write_pages env name buf len b off i c = write_pages env name buf len b off i c1"
  by (subst (1 2) write_pages.simps) (simp only: assms)

text \<open>A page of the page cache gets a key, bytes, and its place in the list.\<close>

lemma place_bytes:
  assumes c: "caching env S bs k c ps (f # fs) v" and ok: "page_ok (name, i)" and m: "m \<le> frame_size"
    and l': "pool l' (f # ps) fs" "page_key l' f = (name, i)" "\<And>p. p \<in> set ps \<Longrightarrow> page_key l' p = page_key (lists c) p"
      "card (dom (hash_heap l')) \<le> Suc (card (dom (hash_heap (lists c))))"
    and apart: "area src m \<inter> page_memory c = {}"
  defines "c' \<equiv> (copy_bytes (page_data c f) src m c)\<lparr>lists := l'\<rparr>"
  shows "caching env S bs k c' (f # ps) fs v" and "page_changes S c ps v {} {(name, i)} {(name, i)} c' (f # ps) v"
    and "x < m \<Longrightarrow> seen S c' (f # ps) v (name, i) x = mem c (src + of_nat x)"
  and "m \<le> x \<Longrightarrow> x < frame_size \<Longrightarrow> seen S c' (f # ps) v (name, i) x = mem c (page_data c f + of_nat x)"
proof -
  note C = cachingD [OF c]
  have small: "m \<le> 2 ^ 63" using m by simp
  have fs: "f < CACHE_SIZE" "f \<notin> set ps" using C(2,3) by (auto simp: pool_def)
  have mem: "mem c' = memcpy (page_data c f) src m (mem c)" by (simp add: c'_def)
  have data: "page_data c' p = page_data c p" for p by (simp add: c'_def)
  have lists: "lists c' = l'" by (simp add: c'_def)
  have files: "files S c' v = files S c v" unfolding c'_def using copy_keeps_ssd(2) [OF C(1)] by simp
  have "on_ssd env S bs k c' v" unfolding c'_def using copy_keeps_ssd(1) [OF C(1)] by simp
  then show "caching env S bs k c' (f # ps) fs v"
    using C(3,4,5,6) l' ok unfolding caching_def lists by auto
  have own: "holder l' (f # ps) (name, i) = Some f" by (simp add: holder_def l'(2))
  show "seen S c' (f # ps) v (name, i) x = mem c (src + of_nat x)" if "x < m"
    using memcpy_inside [OF small that] by (simp add: seen_def lists own mem data)
  show "seen S c' (f # ps) v (name, i) x = mem c (page_data c f + of_nat x)" if "m \<le> x" "x < frame_size"
    using that by (simp add: seen_def lists own mem data memcpy_def unat_of_nat)
  have in_frame: "area (page_data c f) m \<subseteq> area (page_data c f) frame_size" by (rule area_mono [OF m])
  have outside: "mem c' a = mem c a" if "a \<notin> area (page_data c f) frame_size" for a
    unfolding mem using that in_frame by (intro memcpy_outside [OF small]) blast
  have "seen S c' (f # ps) v key x = seen S c ps v key x" if "key \<noteq> (name, i)" "x < frame_size" for key x
  proof -
    have "holder l' (f # ps) key = holder l' ps key" using that(1) l'(2) by (simp add: holder_def)
    also have "\<dots> = holder (lists c) ps key" by (rule holder_cong) (rule l'(3))
    finally have hold: "holder l' (f # ps) key = holder (lists c) ps key" .
    have "mem c' (page_data c p + of_nat x) = mem c (page_data c p + of_nat x)" if p: "p \<in> set ps" for p
    proof (rule outside)
      have "p \<noteq> f" "p < CACHE_SIZE" using p fs C(3) by auto
      from frames_apart [OF this(1,2) fs(1)] show "page_data c p + of_nat x \<notin> area (page_data c f) frame_size"
        using areaI [OF \<open>x < frame_size\<close>] by blast
    qed
    then show ?thesis by (auto simp: seen_def lists hold data files dest: holder_in split: option.split)
  qed
  moreover have "mem c' a = mem c a" if "a \<notin> page_memory c" for a
    using that frame_in_memory [OF fs(1), of c] by (intro outside) blast
  moreover have "page_key l' ` set (f # ps) \<subseteq> page_key (lists c) ` set ps \<union> {(name, i)}" using l'(2,3) by auto
  ultimately show "page_changes S c ps v {} {(name, i)} {(name, i)} c' (f # ps) v"
    by (simp add: page_changes_def lists) (simp add: c'_def)
qed


lemma write_one:
  assumes c: "caching env S bs k c ps fs v" and ok: "page_ok (name, i)" and new: "(name, i) \<notin> page_key (lists c) ` set ps"
    and n: "n < unat len" and apart: "area buf (unat len) \<inter> page_memory c = {}"
  obtains c' f fs' v' where
    "write_pages env name buf len False (of_nat n) i c = (if unat len - n \<le> frame_size then Some (c', len)
       else write_pages env name buf len False (of_nat (n + frame_size)) (i + 1) c')"
    "caching env S bs k c' (f # kept ps fs) fs' v'" "fs \<noteq> [] \<longrightarrow> f # fs' = fs \<and> only_memory c c'"
    "page_changes S c ps v {} {(name, i)} {(name, i)} c' (f # kept ps fs) v'"
    "\<forall>x. x < frame_size \<longrightarrow> n + x < unat len \<longrightarrow> seen S c' (f # kept ps fs) v' (name, i) x = mem c (buf + of_nat (n + x))"
    "page_key (lists c') ` set (f # kept ps fs) \<subseteq> page_key (lists c) ` set (kept ps fs) \<union> {(name, i)}"
    "fs \<noteq> [] \<longrightarrow> (\<forall>x < frame_size. unat len - n \<le> x \<longrightarrow> seen S c' (f # kept ps fs) v' (name, i) x = mem c (page_data c f + of_nat x))"
proof -
  obtain c1 f fs1 v1 where c1: "caching env S bs k c1 (kept ps fs) (f # fs1) v1" "alloc_page env c = alloc_page env c1"
    "unseen S c ps v c1 (kept ps fs) v1" "fs \<noteq> [] \<longrightarrow> f # fs1 = fs \<and> c1 = c" by (rule alloc_page_room [OF c])
  note C = cachingD [OF c1(1)]
  have un: "mem c1 = mem c" "phys_base c1 = phys_base c" "set (kept ps fs) \<subseteq> set ps"
    "\<And>q. q \<in> set (kept ps fs) \<Longrightarrow> page_key (lists c1) q = page_key (lists c) q" using c1(3) by (auto simp: unseen_def)
  have new1: "(name, i) \<notin> page_key (lists c1) ` set (kept ps fs)" using new un(3,4) by (auto simp: image_iff)
  have "length (kept ps fs) \<le> CACHE_SIZE" using caching_pages [OF c1(1)] by simp
  then have room: "card (dom (hash_heap (lists c1))) < 2 ^ 64 - 1" using C(6) by (simp add: CACHE_SIZE_def)
  let ?m = "min (unat len - n) frame_size"
  obtain l' where step: "write_pages env name buf len False (of_nat n) i c1 =
      (let c' = (copy_bytes (page_data c1 f) (buf + of_nat n) ?m c1)\<lparr>lists := l'\<rparr>
       in if unat len - n \<le> frame_size then Some (c', len) else write_pages env name buf len False (of_nat (n + frame_size)) (i + 1) c')"
    and l': "pool l' (f # kept ps fs) fs1" "page_key l' f = (name, i)" "\<And>p. p \<in> set (kept ps fs) \<Longrightarrow> page_key l' p = page_key (lists c1) p"
    "card (dom (hash_heap l')) \<le> Suc (card (dom (hash_heap (lists c1))))"
    by (rule write_pages_step [OF C(2) new1 C(5) room n]) blast
  have "area (buf + of_nat n) ?m \<subseteq> area buf (unat len)"
    by (rule order_trans [OF area_shift area_mono]) (use n in simp)
  then have apart1: "area (buf + of_nat n) ?m \<inter> page_memory c1 = {}" using apart same_memory_pages [OF un(2)] by blast
  note placed = place_bytes [OF c1(1) ok min.cobounded2 l' apart1]
  let ?c = "(copy_bytes (page_data c1 f) (buf + of_nat n) ?m c1)\<lparr>lists := l'\<rparr>"
  show thesis
  proof (rule that [OF _ placed(1)])
    show "fs \<noteq> [] \<longrightarrow> f # fs1 = fs \<and> only_memory c ?c" using c1(4) only_memory_copy by blast
    show "write_pages env name buf len False (of_nat n) i c = (if unat len - n \<le> frame_size then Some (?c, len)
       else write_pages env name buf len False (of_nat (n + frame_size)) (i + 1) ?c)"
      unfolding write_pages_alloc [OF c1(2)] step Let_def ..
    show "page_changes S c ps v {} {(name, i)} {(name, i)} ?c (f # kept ps fs) v1"
      by (rule page_changes_trans [OF unseen_changes [OF c1(3)] placed(2)]) simp_all
    have "page_key (lists c1) ` set (kept ps fs) = page_key (lists c) ` set (kept ps fs)" using un(4) by (intro image_cong refl)
    with placed(2) show "page_key (lists ?c) ` set (f # kept ps fs) \<subseteq> page_key (lists c) ` set (kept ps fs) \<union> {(name, i)}"
      by (simp add: page_changes_def)
    show "\<forall>x. x < frame_size \<longrightarrow> n + x < unat len \<longrightarrow> seen S ?c (f # kept ps fs) v1 (name, i) x = mem c (buf + of_nat (n + x))"
      using placed(3) by (auto simp: un(1) add.assoc)
    show "fs \<noteq> [] \<longrightarrow> (\<forall>x < frame_size. unat len - n \<le> x \<longrightarrow> seen S ?c (f # kept ps fs) v1 (name, i) x = mem c (page_data c f + of_nat x))"
      using placed(4) c1(4) by auto
  qed
qed

text \<open>The pages of a range of a file.\<close>

definition page_range :: "path \<Rightarrow> u32 \<Rightarrow> nat \<Rightarrow> key set" where
  "page_range name i num = (\<lambda>j. (name, i + of_nat j)) ` {..<num}"

lemma page_range_Suc: "page_range name i (Suc num) = insert (name, i) (page_range name (i + 1) num)"
proof -
  have "{..<Suc num} = insert 0 (Suc ` {..<num})" by (auto simp: image_iff less_Suc_eq_0_disj)
  then show ?thesis by (simp add: page_range_def image_image add.assoc)
qed

lemma page_range_next: "num < 2 ^ 32 \<Longrightarrow> (name, i) \<notin> page_range name (i + 1) (num - 1)"
proof
  assume num: "num < 2 ^ 32" and "(name, i) \<in> page_range name (i + 1) (num - 1)"
  then obtain j where j: "j < num - 1" "i + 1 + of_nat j = i" by (auto simp: page_range_def)
  have "Suc j < 2 ^ 32" using j(1) num by simp
  from next_index [OF this] j(2) show False by blast
qed

lemma disjoint_step: "insert k R \<inter> A = {} \<Longrightarrow> k \<notin> R \<Longrightarrow> A' \<subseteq> A \<union> {k} \<Longrightarrow> R \<inter> A' = {}"
  by blast

lemma write_range:
  assumes "caching env S bs k c ps fs v" and "n < unat len" and "num = (unat len - n + 4095) div frame_size"
    and "num < 2 ^ 32" and "page_range name i num \<inter> page_key (lists c) ` set ps = {}" and "\<forall>key \<in> page_range name i num. page_ok key"
    and "area buf (unat len) \<inter> page_memory c = {}"
  shows "\<exists>c' ps' fs' v'. write_pages env name buf len False (of_nat n) i c = Some (c', len) \<and> caching env S bs k c' ps' fs' v'
    \<and> page_changes S c ps v {} (page_range name i num) (page_range name i num) c' ps' v'
    \<and> (\<forall>j < num. \<forall>x < frame_size. n + frame_size * j + x < unat len \<longrightarrow>
         seen S c' ps' v' (name, i + of_nat j) x = mem c (buf + of_nat (n + frame_size * j + x)))
    \<and> (num \<le> length fs \<longrightarrow> only_memory c c')"
  using assms
proof (induction num arbitrary: c ps fs v n i)
  case 0
  have "0 < (unat len - n + 4095) div frame_size" using 0(2) by (simp add: div_greater_zero_iff)
  with 0(3) show ?case by simp
next
  case (Suc num)
  note range = Suc.prems(5,6) [unfolded page_range_Suc]
  have ok: "page_ok (name, i)" and new: "(name, i) \<notin> page_key (lists c) ` set ps" using range by blast+
  have fresh: "(name, i) \<notin> page_range name (i + 1) num" using page_range_next [OF Suc.prems(4), of name i] by simp
  obtain c1 f fs1 v1 where c1:
    "write_pages env name buf len False (of_nat n) i c = (if unat len - n \<le> frame_size then Some (c1, len)
       else write_pages env name buf len False (of_nat (n + frame_size)) (i + 1) c1)"
    "caching env S bs k c1 (f # kept ps fs) fs1 v1" "fs \<noteq> [] \<longrightarrow> f # fs1 = fs \<and> only_memory c c1"
    "page_changes S c ps v {} {(name, i)} {(name, i)} c1 (f # kept ps fs) v1"
    "\<forall>x. x < frame_size \<longrightarrow> n + x < unat len \<longrightarrow> seen S c1 (f # kept ps fs) v1 (name, i) x = mem c (buf + of_nat (n + x))"
    by (rule write_one [OF Suc.prems(1) ok new Suc.prems(2,7)])
  show ?case
  proof (cases "unat len - n \<le> frame_size")
    case True
    have "Suc num = 1" unfolding Suc.prems(3) using True Suc.prems(2) by (intro div_nat_eqI) auto
    then have num: "num = 0" by simp
    have single: "page_range name i (Suc num) = {(name, i)}" unfolding num page_range_Suc by (simp add: page_range_def)
    have room: "Suc num \<le> length fs \<longrightarrow> only_memory c c1" using c1(3) by auto
    have ran: "write_pages env name buf len False (of_nat n) i c = Some (c1, len)" using c1(1) True by simp
    show ?thesis unfolding single
      by (rule exI [of _ c1], rule exI [of _ "f # kept ps fs"], rule exI [of _ fs1], rule exI [of _ v1])
        (use ran c1(2,4,5) room num in simp)
  next
    case False
    have len: "n + frame_size < unat len" "num = (unat len - (n + frame_size) + 4095) div frame_size"
      using False Suc.prems(3) by auto
    have base: "phys_base c1 = phys_base c" and keys: "page_key (lists c1) ` set (f # kept ps fs) \<subseteq> page_key (lists c) ` set ps \<union> {(name, i)}"
      using c1(4) by (simp_all add: page_changes_def)
    have next_new: "page_range name (i + 1) num \<inter> page_key (lists c1) ` set (f # kept ps fs) = {}"
      by (rule disjoint_step [OF range(1) fresh keys])
    have small: "num < 2 ^ 32" and next_ok: "\<forall>key \<in> page_range name (i + 1) num. page_ok key" using Suc.prems(4) range(2) by auto
    have apart: "area buf (unat len) \<inter> page_memory c1 = {}" using Suc.prems(7) same_memory_pages [OF base] by simp
    obtain c' ps' fs' v' where c': "write_pages env name buf len False (of_nat (n + frame_size)) (i + 1) c1 = Some (c', len)"
      "caching env S bs k c' ps' fs' v'"
      "page_changes S c1 (f # kept ps fs) v1 {} (page_range name (i + 1) num) (page_range name (i + 1) num) c' ps' v'"
      "\<forall>j < num. \<forall>x < frame_size. n + frame_size + frame_size * j + x < unat len \<longrightarrow>
         seen S c' ps' v' (name, i + 1 + of_nat j) x = mem c1 (buf + of_nat (n + frame_size + frame_size * j + x))"
      "num \<le> length fs1 \<longrightarrow> only_memory c1 c'"
      using Suc.IH [OF c1(2) len small next_new next_ok apart] by blast
    have buffer: "mem c1 (buf + of_nat y) = mem c (buf + of_nat y)" if "y < unat len" for y
      using c1(4) areaI [OF that, of buf] Suc.prems(7) unfolding page_changes_def by blast
    have bytes: "seen S c' ps' v' (name, i + of_nat j) x = mem c (buf + of_nat (n + frame_size * j + x))"
      if j: "j < Suc num" and x: "x < frame_size" "n + frame_size * j + x < unat len" for j x
    proof (cases j)
      case 0
      have "seen S c' ps' v' (name, i) x = seen S c1 (f # kept ps fs) v1 (name, i) x"
        using c'(3) fresh ok x(1) by (auto simp: page_changes_def)
      with c1(5) x 0 show ?thesis by simp
    next
      case (Suc j')
      have eq: "n + frame_size + frame_size * j' + x = n + frame_size * j + x" using Suc by simp
      have "seen S c' ps' v' (name, i + 1 + of_nat j') x = mem c1 (buf + of_nat (n + frame_size * j + x))"
        using c'(4) j x Suc unfolding eq [symmetric] by simp
      then show ?thesis using buffer [OF x(2)] Suc by (simp add: add.assoc)
    qed
    have "page_changes S c ps v {} (page_range name i (Suc num)) (page_range name i (Suc num)) c' ps' v'"
      unfolding page_range_Suc by (rule page_changes_trans [OF c1(4) c'(3)]) auto
    moreover have "Suc num \<le> length fs \<longrightarrow> only_memory c c'"
    proof
      assume room: "Suc num \<le> length fs"
      then have "f # fs1 = fs" "only_memory c c1" using c1(3) by auto
      with room c'(5) show "only_memory c c'" using only_memory_trans by fastforce
    qed
    ultimately show ?thesis using c1(1) False c'(1,2) bytes by (intro exI conjI) auto
  qed
qed


section \<open>Reading\<close>

text \<open>The middle of a round of \<open>uread\<close> for a page that is not there.\<close>

definition fetch_page :: "'d env \<Rightarrow> path \<Rightarrow> u32 \<Rightarrow> 'd page_cache \<Rightarrow> ('d page_cache \<times> nat) option" where
  "fetch_page env name i c = do {
     (c, p) \<leftarrow> alloc_page env c;
     let c = c\<lparr>lists := upd_page p (\<lambda>q. q\<lparr>pg_flag := pg_flag q OR PG_lru, pg_index := i, pg_path := Some name\<rparr>) (lists c)\<rparr>;
     c \<leftarrow> read_pio env p c;
     l \<leftarrow> add_to_lru_head (malloc_entry env) p (lists c);
     Some (c\<lparr>lists := l\<rparr>, p) }"

lemma fetch_page_done:
  assumes c: "caching env S bs k c ps fs v" and ok: "page_ok (name, i)" and new: "(name, i) \<notin> page_key (lists c) ` set ps"
  obtains c' f fs' v' where "fetch_page env name i c = Some (c', f)" "caching env S bs k c' (f # kept ps fs) fs' v'" "f < CACHE_SIZE"
    "page_changes S c ps v {} {} {(name, i)} c' (f # kept ps fs) v'"
    "\<forall>x < frame_size. mem c' (page_data c' f + of_nat x) = seen S c ps v (name, i) x" "fs \<noteq> [] \<longrightarrow> f # fs' = fs"
    "page_key (lists c') ` set (f # kept ps fs) = insert (name, i) (page_key (lists c) ` set (kept ps fs))"
proof -
  obtain c1 f fs1 v1 where c1: "caching env S bs k c1 (kept ps fs) (f # fs1) v1" "alloc_page env c = alloc_page env c1"
    "unseen S c ps v c1 (kept ps fs) v1" "fs \<noteq> [] \<longrightarrow> f # fs1 = fs \<and> c1 = c" by (rule alloc_page_room [OF c])
  let ?ps = "kept ps fs"
  note C = cachingD [OF c1(1)]
  have un: "phys_base c1 = phys_base c" "set ?ps \<subseteq> set ps" "\<And>q. q \<in> set ?ps \<Longrightarrow> page_key (lists c1) q = page_key (lists c) q"
    using c1(3) by (auto simp: unseen_def)
  have new1: "(name, i) \<notin> page_key (lists c1) ` set ?ps" using new un(2,3) by (auto simp: image_iff)
  have f: "f < CACHE_SIZE" "f \<notin> set ?ps" using C(2,3) by (auto simp: pool_def)
  have "length ?ps \<le> CACHE_SIZE" using caching_pages [OF c1(1)] by simp
  then have room: "card (dom (hash_heap (lists c1))) < 2 ^ 64 - 1" using C(6) by (simp add: CACHE_SIZE_def)
  let ?l = "upd_page f (\<lambda>p. p\<lparr>pg_flag := pg_flag p OR PG_lru, pg_index := i, pg_path := Some name\<rparr>) (take_free f (lists c1))"
  let ?c2 = "c1\<lparr>lists := ?l\<rparr>"
  obtain l' where l': "add_to_lru_head (malloc_entry env) f ?l = Some l'" "pool l' (f # ?ps) fs1" "page_key l' f = (name, i)"
    "\<And>p. p \<in> set ?ps \<Longrightarrow> page_key l' p = page_key (lists c1) p" "card (dom (hash_heap l')) \<le> Suc (card (dom (hash_heap (lists c1))))"
    by (rule place_page [OF C(2) new1 C(5) room]) blast
  have ssd: "on_ssd env S bs k ?c2 v1" using C(1) by simp
  obtain c3 v3 where c3: "submit_page env name i READ (page_data c1 f) ?c2 = Some c3" "on_ssd env S bs k c3 v3"
    "lists c3 = lists ?c2" "phys_base c3 = phys_base ?c2" "same_pages (files S c3 v3) (files S ?c2 v1)"
    "\<forall>x < frame_size. mem c3 (page_data c1 f + of_nat x) = page_byte (files S ?c2 v1) (name, i) x"
    "\<forall>a. a \<notin> area (page_data c1 f) frame_size \<longrightarrow> mem c3 a = mem ?c2 a"
    by (rule submit_page_read [OF ssd ok])
  let ?c = "c3\<lparr>lists := l'\<rparr>"
  have data: "page_data c3 p = page_data c1 p" for p using c3(4) by (simp add: page_data_def)
  have read: "read_pio env f ?c2 = Some c3" using c3(1) by (simp add: read_pio_def)
  have run: "fetch_page env name i c = Some (?c, f)"
    using l'(1) read c3(3) unfolding fetch_page_def c1(2) alloc_page_free [OF C(2)] by simp
  have new_caching: "caching env S bs k ?c (f # ?ps) fs1 v3" using c3(2) C(3-6) l'(2-5) ok unfolding caching_def by auto
  have none: "holder (lists c1) ?ps (name, i) = None" using new1 by (simp add: holder_None)
  have fetched: "mem ?c (page_data ?c f + of_nat x) = seen S c1 ?ps v1 (name, i) x" if "x < frame_size" for x
    using c3(6) that by (simp add: data seen_def none)
  have own: "holder l' (f # ?ps) (name, i) = Some f" by (simp add: holder_def l'(3))
  have "seen S ?c (f # ?ps) v3 key x = seen S c1 ?ps v1 key x" if key: "page_ok key" "x < frame_size" for key x
  proof (cases "key = (name, i)")
    case True
    with fetched [OF key(2)] own show ?thesis by (simp add: seen_def)
  next
    case False
    have "holder l' (f # ?ps) key = holder l' ?ps key" using False l'(3) by (simp add: holder_def)
    also have "\<dots> = holder (lists c1) ?ps key" by (rule holder_cong) (rule l'(4))
    finally have hold: "holder l' (f # ?ps) key = holder (lists c1) ?ps key" .
    have "mem c3 (page_data c1 p + of_nat x) = mem c1 (page_data c1 p + of_nat x)" if p: "p \<in> set ?ps" for p
    proof -
      have "p \<noteq> f" "p < CACHE_SIZE" using p f C(3) by auto
      from frames_apart [OF this(1,2) f(1)] have "page_data c1 p + of_nat x \<notin> area (page_data c1 f) frame_size"
        using areaI [OF key(2)] by blast
      with c3(7) show ?thesis by simp
    qed
    moreover have "page_byte (files S c3 v3) key x = page_byte (files S c1 v1) key x"
      using c3(5) key unfolding same_pages_def by (cases key) simp
    ultimately show ?thesis by (auto simp: seen_def hold data dest: holder_in split: option.split)
  qed
  moreover have "mem c3 a = mem c1 a" if "a \<notin> page_memory c1" for a
    using c3(7) that frame_in_memory [OF f(1), of c1] by auto
  moreover have "page_key l' ` set (f # ?ps) \<subseteq> page_key (lists c1) ` set ?ps \<union> {(name, i)}" using l'(3,4) by auto
  ultimately have "page_changes S c1 ?ps v1 {} {} {(name, i)} ?c (f # ?ps) v3" using c3(4) by (simp add: page_changes_def)
  from page_changes_trans [OF unseen_changes [OF c1(3)] this, of "{}" "{}" "{(name, i)}"]
  have change: "page_changes S c ps v {} {} {(name, i)} ?c (f # ?ps) v3" by simp
  have "\<forall>x < frame_size. mem ?c (page_data ?c f + of_nat x) = seen S c ps v (name, i) x"
    using fetched c1(3) ok by (simp add: unseen_def)
  moreover have "fs \<noteq> [] \<longrightarrow> f # fs1 = fs" using c1(4) by blast
  moreover have "page_key (lists ?c) ` set (f # ?ps) = insert (name, i) (page_key (lists c) ` set ?ps)"
  proof -
    have "page_key l' ` set ?ps = page_key (lists c) ` set ?ps" using l'(4) un(3) by (intro image_cong) auto
    with l'(3) show ?thesis by simp
  qed
  ultimately show thesis by (rule that [OF run new_caching f(1) change])
qed


text \<open>Copying bytes out of the pages.\<close>

lemma copy_out:
  assumes c: "caching env S bs k c ps fs v" and m: "m \<le> frame_size" and apart: "area dst m \<inter> page_memory c = {}"
  shows "caching env S bs k (copy_bytes dst src m c) ps fs v"
    and "page_changes S c ps v (area dst m) {} {} (copy_bytes dst src m c) ps v"
    and "x < m \<Longrightarrow> mem (copy_bytes dst src m c) (dst + of_nat x) = mem c (src + of_nat x)"
proof -
  note C = cachingD [OF c]
  have small: "m \<le> 2 ^ 63" using m by simp
  show "caching env S bs k (copy_bytes dst src m c) ps fs v"
    using c copy_keeps_ssd(1) [OF C(1)] by (simp add: caching_def)
  show "mem (copy_bytes dst src m c) (dst + of_nat x) = mem c (src + of_nat x)" if "x < m"
    using memcpy_inside [OF small that] by simp
  have outside: "mem (copy_bytes dst src m c) a = mem c a" if "a \<notin> area dst m" for a
    using memcpy_outside [OF small that] by simp
  have "mem (copy_bytes dst src m c) (page_data c p + of_nat x) = mem c (page_data c p + of_nat x)"
    if "p \<in> set ps" "x < frame_size" for p x
  proof (rule outside)
    have "p < CACHE_SIZE" using that(1) C(3) by auto
    from frame_in_memory [OF this, of c] areaI [OF that(2), of "page_data c p"] apart
    show "page_data c p + of_nat x \<notin> area dst m" by blast
  qed
  then have "seen S (copy_bytes dst src m c) ps v key x = seen S c ps v key x" if "x < frame_size" for key x
    using that copy_keeps_ssd(2) [OF C(1), of dst src m]
    by (auto simp del: copy_bytes_fields(5) simp: seen_def dest: holder_in split: option.split)
  with outside show "page_changes S c ps v (area dst m) {} {} (copy_bytes dst src m c) ps v"
    by (simp add: page_changes_def)
qed

lemma read_pages_miss:
  assumes look: "hash_table_lookup (lists c) name i = Some 0"
    and fetch: "fetch_page env name i c = Some (c', f)" and n: "n < unat req"
    and len: "ck = (if is_first then (if req \<le> PAGE_SIZE then req else PAGE_SIZE)
        else if req - cl \<le> PAGE_SIZE then req - cl else PAGE_SIZE)"
  shows "read_pages env name buf req is_first cl (of_nat n) i c
    = read_pages env name buf req False ck (of_nat n + ck) (i + 1) (copy_bytes (buf + of_nat n) (page_data c' f) (unat ck) c')"
proof -
  have "unat (of_nat n :: u32) = n" using n unsigned_less [of req, where 'a = nat] by (simp add: unat_of_nat_u32)
  then have less: "of_nat n < req" using n by (simp add: word_less_nat_alt)
  have off: "(ucast (of_nat n :: u32) :: u64) = of_nat n" using chunk_words(2) [of n req] n by simp
  obtain c1 where c1: "alloc_page env c = Some (c1, f)" "(do {
     c \<leftarrow> read_pio env f (c1\<lparr>lists := upd_page f (\<lambda>q. q\<lparr>pg_flag := pg_flag q OR PG_lru, pg_index := i, pg_path := Some name\<rparr>) (lists c1)\<rparr>);
     l \<leftarrow> add_to_lru_head (malloc_entry env) f (lists c);
     Some (c\<lparr>lists := l\<rparr>) }) = Some c'"
    using fetch by (auto simp: fetch_page_def bind_eq_Some_conv Let_def)
  then show ?thesis
    by (subst read_pages.simps) (auto simp: less off look len [symmetric] Let_def bind_eq_Some_conv)
qed

lemma read_one:
  assumes c: "caching env S bs k c ps fs v" and ok: "page_ok (name, i)" and new: "(name, i) \<notin> page_key (lists c) ` set ps"
    and n: "n < unat req" and m: "unat ck = m" "m \<le> frame_size"
    and len: "ck = (if is_first then (if req \<le> PAGE_SIZE then req else PAGE_SIZE)
        else if req - cl \<le> PAGE_SIZE then req - cl else PAGE_SIZE)"
    and apart: "area (buf + of_nat n) m \<inter> page_memory c = {}"
  obtains c' f fs' v' where
    "read_pages env name buf req is_first cl (of_nat n) i c = read_pages env name buf req False ck (of_nat n + ck) (i + 1) c'"
    "caching env S bs k c' (f # kept ps fs) fs' v'"
    "page_changes S c ps v (area (buf + of_nat n) m) {} {(name, i)} c' (f # kept ps fs) v'"
    "\<forall>x < m. mem c' (buf + of_nat (n + x)) = seen S c ps v (name, i) x"
proof -
  obtain c1 f fs1 v1 where c1: "fetch_page env name i c = Some (c1, f)" "caching env S bs k c1 (f # kept ps fs) fs1 v1" "f < CACHE_SIZE"
    "page_changes S c ps v {} {} {(name, i)} c1 (f # kept ps fs) v1"
    "\<forall>x < frame_size. mem c1 (page_data c1 f + of_nat x) = seen S c ps v (name, i) x"
    by (rule fetch_page_done [OF c ok new])
  have look: "hash_table_lookup (lists c) name i = Some 0" using pool_lookup [OF cachingD(2) [OF c], of name i] new by auto
  have base: "phys_base c1 = phys_base c" using c1(4) by (simp add: page_changes_def)
  have apart1: "area (buf + of_nat n) m \<inter> page_memory c1 = {}" using apart same_memory_pages [OF base] by simp
  let ?c = "copy_bytes (buf + of_nat n) (page_data c1 f) m c1"
  note out = copy_out [OF c1(2) m(2) apart1, where src = "page_data c1 f"]
  show thesis
  proof (rule that [OF _ out(1)])
    show "read_pages env name buf req is_first cl (of_nat n) i c = read_pages env name buf req False ck (of_nat n + ck) (i + 1) ?c"
      using read_pages_miss [OF look c1(1) n len] unfolding m(1) .
    show "page_changes S c ps v (area (buf + of_nat n) m) {} {(name, i)} ?c (f # kept ps fs) v1"
      by (rule page_changes_trans [OF c1(4) out(2)]) auto
    show "\<forall>x < m. mem ?c (buf + of_nat (n + x)) = seen S c ps v (name, i) x"
    proof (intro allI impI)
      fix x assume x: "x < m"
      have "mem ?c (buf + of_nat n + of_nat x) = mem c1 (page_data c1 f + of_nat x)" by (rule out(3) [OF x])
      also have "\<dots> = seen S c ps v (name, i) x" using c1(5) x m(2) by simp
      finally show "mem ?c (buf + of_nat (n + x)) = seen S c ps v (name, i) x" by (simp only: of_nat_add add.assoc)
    qed
  qed
qed


text \<open>The number of bytes a round of \<open>uread\<close> takes; a page at most.\<close>

definition next_chunk :: "bool \<Rightarrow> u32 \<Rightarrow> u32 \<Rightarrow> u32" where
  "next_chunk is_first cl req = (if is_first then (if req \<le> PAGE_SIZE then req else PAGE_SIZE)
     else if req - cl \<le> PAGE_SIZE then req - cl else PAGE_SIZE)"

lemma first_chunk: "frame_size \<le> unat req \<Longrightarrow> next_chunk is_first 0 req = PAGE_SIZE"
  by (auto simp: next_chunk_def word_le_nat_alt config_eqs word_unat_eq_iff)

lemma later_chunk: "8192 \<le> unat req \<Longrightarrow> next_chunk False PAGE_SIZE req = PAGE_SIZE"
proof -
  assume req: "8192 \<le> unat req"
  have "unat (req - PAGE_SIZE) = unat req - frame_size"
    using chunk_words(1) [of frame_size req] req by (simp add: PAGE_SIZE_eq)
  then have "req - PAGE_SIZE \<le> PAGE_SIZE \<Longrightarrow> req - PAGE_SIZE = PAGE_SIZE"
    using req by (auto simp: word_le_nat_alt config_eqs word_unat_eq_iff)
  then show ?thesis by (auto simp: next_chunk_def)
qed

end
