(* ===== verification/CachedReads.thy ===== *)
theory CachedReads
  imports FileAccess
begin

text \<open>
  Reading pages of files, whether they are in memory or not. A page that is there is copied and moved to the front, which
  leaves the list of pages in use without a back link (\<^verbatim>\<open>LruProps\<close>); everything a later read without eviction
  needs stays as it was, and that is what \<open>serving\<close> says.
\<close>

section \<open>Other links\<close>

text \<open>The same table, names and free pages; the links between the pages in use may differ.\<close>

definition relinked :: "nat list \<Rightarrow> page_lists \<Rightarrow> page_lists \<Rightarrow> bool" where
  "relinked fs l l' \<longleftrightarrow> hash_tbl l' = hash_tbl l \<and> hash_heap l' = hash_heap l \<and> free_head l' = free_head l \<and> nr_free l' = nr_free l
     \<and> (\<forall>p. pg_path (mem_map l' p) = pg_path (mem_map l p) \<and> pg_index (mem_map l' p) = pg_index (mem_map l p))
     \<and> (\<forall>p \<in> set fs. pg_next (mem_map l' p) = pg_next (mem_map l p))"

definition inner :: "page_lists \<Rightarrow> nat list \<Rightarrow> bool" where
  "inner l ps \<longleftrightarrow> (\<forall>p \<in> set ps. \<forall>q. pg_prev (mem_map l p) = Some q \<longrightarrow> q \<in> set ps)"

lemma relinked_refl [simp]: "relinked fs l l"
  by (simp add: relinked_def)

lemma relinked_key: "relinked fs l l' \<Longrightarrow> page_key l' = page_key l"
  by (simp add: relinked_def page_key_def fun_eq_iff)

lemma relinked_lookup: "relinked fs l l' \<Longrightarrow> hash_table_lookup l' = hash_table_lookup l"
  by (rule ext, rule ext) (simp add: relinked_def hash_table_lookup_def)

lemma relinked_finds: "relinked fs l l' \<Longrightarrow> finds l' = finds l"
  by (rule ext, rule ext, rule ext) (simp only: finds_def relinked_lookup, simp add: relinked_def)

lemma dseg_prev: "dseg m q p xs q' p' \<Longrightarrow> x \<in> set xs \<Longrightarrow> pg_prev (m x) = q \<or> pg_prev (m x) \<in> Some ` set xs"
  by (induction m q p xs q' p' rule: dseg.induct) auto

lemma pool_inner: "pool l ps fs \<Longrightarrow> inner l ps"
  by (auto simp: pool_def lru_list_def inner_def dest!: dseg_prev)

lemma page_key_move: "page_key (move_to_lru_head p l) = page_key l"
  by (auto simp: page_key_def move_to_lru_head_def Let_def fun_eq_iff split: option.split)

lemma relinked_move:
  assumes "relinked fs l l'" and "inner l' ps" and "p \<in> set ps" and "distinct (ps @ fs)"
  shows "relinked fs l (move_to_lru_head p l')" and "inner (move_to_lru_head p l') ps"
proof -
  have "q \<notin> set fs" if "pg_prev (mem_map l' p) = Some q" for q using assms that by (auto simp: inner_def)
  moreover have "p \<notin> set fs" using assms(3,4) by auto
  ultimately show "relinked fs l (move_to_lru_head p l')"
    using assms(1) by (auto simp: relinked_def move_to_lru_head_def Let_def split: option.split)
  show "inner (move_to_lru_head p l') ps"
    using assms(2,3) by (auto simp: inner_def move_to_lru_head_def Let_def split: option.splits if_splits)
qed

text \<open>A free page gets its key and its place at the head.\<close>

abbreviation named_page :: "nat \<Rightarrow> path \<Rightarrow> u32 \<Rightarrow> page_lists \<Rightarrow> page_lists" where
  "named_page f name i l \<equiv> upd_page f (\<lambda>p. p\<lparr>pg_flag := pg_flag p OR PG_lru, pg_index := i, pg_path := Some name\<rparr>) (take_free f l)"

lemma relinked_named: "relinked (f # fs) l l' \<Longrightarrow> f \<notin> set fs \<Longrightarrow> relinked fs (named_page f name i l) (named_page f name i l')"
  by (auto simp: relinked_def frames)

lemma relinked_link: "relinked fs l l' \<Longrightarrow> f \<notin> set fs \<Longrightarrow> relinked fs (link_head f l) (link_head f l')"
proof -
  assume l: "relinked fs l l'" and f: "f \<notin> set fs"
  have "pg_next (mem_map (link_head f l') p) = pg_next (mem_map (link_head f l) p)" if p: "p \<in> set fs" for p
  proof -
    have "p \<noteq> f" using p f by blast
    with l p show ?thesis by (simp add: relinked_def frames)
  qed
  with l show ?thesis by (simp add: relinked_def frames)
qed

lemma relinked_add:
  assumes "relinked fs l l'" and "f \<notin> set fs" and "add_to_lru_head malloc f l = Some k"
  shows "\<exists>k'. add_to_lru_head malloc f l' = Some k' \<and> relinked fs k k' \<and> mem_map k' = mem_map (link_head f l')"
  using relinked_link [OF assms(1,2)] assms(3) unfolding add_to_lru_head_link
  by (auto simp: hash_table_insert_def relinked_def Let_def bind_eq_Some_conv split: if_splits)

lemma inner_link:
  assumes "inner l ps" and "f \<notin> set ps" and "pg_prev (mem_map l f) = None"
  shows "inner (link_head f l) (f # ps)"
  using assms by (auto simp: inner_def link_head_def Let_def split: option.splits if_splits)

lemma inner_named: "inner l ps \<Longrightarrow> f \<notin> set ps \<Longrightarrow> inner (named_page f name i l) ps"
  by (auto simp: inner_def frames)

lemma inner_map: "inner l ps \<Longrightarrow> mem_map l' = mem_map l \<Longrightarrow> inner l' ps"
  by (simp add: inner_def)

section \<open>Fetching a page\<close>

lemma submit_page_lists:
  "submit_page env name i op buf (c\<lparr>lists := l\<rparr>) = map_option (\<lambda>c'. c'\<lparr>lists := l\<rparr>) (submit_page env name i op buf c)"
proof -
  obtain h req where h: "create_pio (malloc_pio env) (pio_nodes c) name 0 i op buf 1 = (h, req)" by fastforce
  show ?thesis
  proof (cases "submit_pio (env_sys env) h (process c, host_machine c) req")
    case (Some r)
    then show ?thesis by (cases r; cases "free_pio h req") (auto simp: submit_page_def h)
  qed (simp add: submit_page_def h)
qed

lemma alloc_page_head:
  assumes "nr_free (lists c) \<noteq> 0" and "free_head (lists c) = Some f"
  shows "alloc_page env c = Some (c\<lparr>lists := take_free f (lists c)\<rparr>, f)"
  using assms by (simp add: alloc_page_def take_free_def blank_page_def upd_page_def)

lemma fetch_relinked:
  assumes pool: "pool l ps (f # fs)" and links: "relinked (f # fs) l (lists c)" "inner (lists c) ps"
    and fetch: "fetch_page env name i (c\<lparr>lists := l\<rparr>) = Some (c', q)"
  shows "\<exists>l'. fetch_page env name i c = Some (c'\<lparr>lists := l'\<rparr>, q) \<and> relinked fs (lists c') l' \<and> inner l' (f # ps)"
proof -
  have f: "f \<notin> set fs" "f \<notin> set ps" using pool by (auto simp: pool_def)
  have head: "nr_free l \<noteq> 0" "free_head l = Some f" using pool by (simp_all add: pool_def)
  have alloc0: "alloc_page env (c\<lparr>lists := l\<rparr>) = Some (c\<lparr>lists := take_free f l\<rparr>, f)" using alloc_page_head [of "c\<lparr>lists := l\<rparr>" f env] head by simp
  have alloc: "alloc_page env c = Some (c\<lparr>lists := take_free f (lists c)\<rparr>, f)"
    using links(1) head by (intro alloc_page_head) (simp_all add: relinked_def)
  obtain d where d: "submit_page env name i READ (page_data c f) c = Some d" "q = f"
    "\<exists>k. add_to_lru_head (malloc_entry env) f (named_page f name i l) = Some k \<and> c' = d\<lparr>lists := k\<rparr>"
    using fetch by (auto simp: fetch_page_def alloc0 read_pio_def submit_page_lists bind_eq_Some_conv)
  then obtain k where k: "add_to_lru_head (malloc_entry env) f (named_page f name i l) = Some k" "c' = d\<lparr>lists := k\<rparr>" by blast
  obtain k' where k': "add_to_lru_head (malloc_entry env) f (named_page f name i (lists c)) = Some k'" "relinked fs k k'"
    "mem_map k' = mem_map (link_head f (named_page f name i (lists c)))"
    using relinked_add [OF relinked_named [OF links(1) f(1)] f(1) k(1)] by blast
  have "inner (link_head f (named_page f name i (lists c))) (f # ps)"
    by (rule inner_link [OF inner_named [OF links(2) f(2)] f(2)]) (simp add: frames blank_page_def)
  then have "inner k' (f # ps)" by (rule inner_map) (rule k'(3))
  moreover have "fetch_page env name i c = Some (d\<lparr>lists := k'\<rparr>, f)"
    using d(1) k'(1) by (simp add: fetch_page_def alloc read_pio_def submit_page_lists)
  ultimately show ?thesis using d(2) k(2) k'(2) by (intro exI [of _ k']) simp
qed

section \<open>Serving reads\<close>

text \<open>
  A page cache like one in use (\<open>caching\<close>), but for the links between the pages in use. It can serve reads as long as no
  page has to be thrown out.
\<close>

definition serving :: "'d env \<Rightarrow> (memory \<times> 'd) storage \<Rightarrow> nat \<Rightarrow> nat \<Rightarrow> 'd page_cache \<Rightarrow> nat list \<Rightarrow> nat list \<Rightarrow> cache_view \<Rightarrow> bool" where
  "serving env S bs k c ps fs v \<longleftrightarrow> (\<exists>l. caching env S bs k (c\<lparr>lists := l\<rparr>) ps fs v \<and> relinked fs l (lists c) \<and> inner (lists c) ps)"

lemma caching_serving: "caching env S bs k c ps fs v \<Longrightarrow> serving env S bs k c ps fs v"
  unfolding serving_def by (rule exI [of _ "lists c"]) (simp add: pool_inner [OF cachingD(2)])

lemma relinked_seen: "relinked fs l (lists c) \<Longrightarrow> seen S (c\<lparr>lists := l\<rparr>) ps v = seen S c ps v"
  by (simp add: seen_def fun_eq_iff holder_def relinked_key split: option.split)

lemma relinked_changes:
  assumes "relinked fs l (lists c)" and "relinked fs' (lists c') l'"
  shows "page_changes S (c\<lparr>lists := l\<rparr>) ps v A K N c' ps' v' \<longleftrightarrow> page_changes S c ps v A K N (c'\<lparr>lists := l'\<rparr>) ps' v'"
proof -
  have "seen S (c'\<lparr>lists := l'\<rparr>) ps' v' = seen S c' ps' v'"
    using relinked_seen [of fs' "lists c'" "c'\<lparr>lists := l'\<rparr>" S ps' v'] assms(2) by simp
  then show ?thesis by (simp add: page_changes_def relinked_seen [OF assms(1)] relinked_key [OF assms(1)] relinked_key [OF assms(2)])
qed

lemma serving_finds:
  assumes "serving env S bs k c ps fs v"
  shows "p \<in> set ps \<Longrightarrow> page_key (lists c) p = (name, i) \<Longrightarrow> finds (lists c) name i p"
    and "(name, i) \<notin> page_key (lists c) ` set ps \<Longrightarrow> hash_table_lookup (lists c) name i = Some 0"
proof -
  obtain l where l: "caching env S bs k (c\<lparr>lists := l\<rparr>) ps fs v" "relinked fs l (lists c)" using assms by (auto simp: serving_def)
  note pool = cachingD(2) [OF l(1), simplified]
  show "p \<in> set ps \<Longrightarrow> page_key (lists c) p = (name, i) \<Longrightarrow> finds (lists c) name i p"
    using pool_finds [OF pool] by (simp add: relinked_key [OF l(2)] relinked_finds [OF l(2)])
  show "(name, i) \<notin> page_key (lists c) ` set ps \<Longrightarrow> hash_table_lookup (lists c) name i = Some 0"
    using pool_lookup [OF pool, of name i] by (auto simp: relinked_key [OF l(2)] relinked_lookup [OF l(2)])
qed

lemma serving_fetch:
  assumes c: "serving env S bs k c ps (f # fs) v" and ok: "page_ok (name, i)" and new: "(name, i) \<notin> page_key (lists c) ` set ps"
  obtains c' v' where "fetch_page env name i c = Some (c', f)" "serving env S bs k c' (f # ps) fs v'" "f < CACHE_SIZE"
    "page_changes S c ps v {} {} {(name, i)} c' (f # ps) v'"
    "\<forall>x < frame_size. mem c' (page_data c' f + of_nat x) = seen S c ps v (name, i) x"
    "page_key (lists c') ` set (f # ps) = insert (name, i) (page_key (lists c) ` set ps)"
proof -
  obtain l where l: "caching env S bs k (c\<lparr>lists := l\<rparr>) ps (f # fs) v" "relinked (f # fs) l (lists c)" "inner (lists c) ps"
    using c by (auto simp: serving_def)
  have pool: "pool l ps (f # fs)" using cachingD(2) [OF l(1)] by simp
  have new0: "(name, i) \<notin> page_key (lists (c\<lparr>lists := l\<rparr>)) ` set ps" using new by (simp add: relinked_key [OF l(2)])
  obtain c1 q fs1 v1 where c1: "fetch_page env name i (c\<lparr>lists := l\<rparr>) = Some (c1, q)" "caching env S bs k c1 (q # kept ps (f # fs)) fs1 v1"
    "q < CACHE_SIZE" "page_changes S (c\<lparr>lists := l\<rparr>) ps v {} {} {(name, i)} c1 (q # kept ps (f # fs)) v1"
    "\<forall>x < frame_size. mem c1 (page_data c1 q + of_nat x) = seen S (c\<lparr>lists := l\<rparr>) ps v (name, i) x" "f # fs \<noteq> [] \<longrightarrow> q # fs1 = f # fs"
    "page_key (lists c1) ` set (q # kept ps (f # fs)) = insert (name, i) (page_key (lists (c\<lparr>lists := l\<rparr>)) ` set (kept ps (f # fs)))"
    by (rule fetch_page_done [OF l(1) ok new0])
  from c1(6) have eq: "q = f" "fs1 = fs" "kept ps (f # fs) = ps" by (simp_all add: kept_def)
  note c1 = c1 [unfolded eq]
  obtain l' where l': "fetch_page env name i c = Some (c1\<lparr>lists := l'\<rparr>, f)" "relinked fs (lists c1) l'" "inner l' (f # ps)"
    using fetch_relinked [OF pool l(2,3) c1(1)] by blast
  have new_serving: "serving env S bs k (c1\<lparr>lists := l'\<rparr>) (f # ps) fs v1"
    using c1(2) l'(2,3) unfolding serving_def by (intro exI [of _ "lists c1"]) simp
  have "page_changes S c ps v {} {} {(name, i)} (c1\<lparr>lists := l'\<rparr>) (f # ps) v1"
    using c1(4) relinked_changes [OF l(2) l'(2)] by simp
  moreover have "\<forall>x < frame_size. mem (c1\<lparr>lists := l'\<rparr>) (page_data (c1\<lparr>lists := l'\<rparr>) f + of_nat x) = seen S c ps v (name, i) x"
    using c1(5) by (simp add: relinked_seen [OF l(2)])
  moreover have "page_key (lists (c1\<lparr>lists := l'\<rparr>)) ` set (f # ps) = insert (name, i) (page_key (lists c) ` set ps)"
    using c1(7) by (simp add: relinked_key [OF l(2)] relinked_key [OF l'(2)])
  ultimately show thesis by (rule that [OF l'(1) new_serving c1(3)])
qed

section \<open>One page of a request\<close>

lemma serving_copy_out:
  assumes c: "serving env S bs k c ps fs v" and m: "m \<le> frame_size" and apart: "area dst m \<inter> page_memory c = {}"
  shows "serving env S bs k (copy_bytes dst src m c) ps fs v"
    and "page_changes S c ps v (area dst m) {} {} (copy_bytes dst src m c) ps v"
    and "x < m \<Longrightarrow> mem (copy_bytes dst src m c) (dst + of_nat x) = mem c (src + of_nat x)"
proof -
  obtain l where l: "caching env S bs k (c\<lparr>lists := l\<rparr>) ps fs v" "relinked fs l (lists c)" "inner (lists c) ps"
    using c by (auto simp: serving_def)
  have copy: "copy_bytes dst src m (c\<lparr>lists := l\<rparr>) = (copy_bytes dst src m c)\<lparr>lists := l\<rparr>" by (simp add: copy_bytes_def)
  have apart': "area dst m \<inter> page_memory (c\<lparr>lists := l\<rparr>) = {}" using apart by simp
  note out = copy_out [OF l(1) m apart', where src = src, unfolded copy]
  show "serving env S bs k (copy_bytes dst src m c) ps fs v"
    using out(1) l(2,3) unfolding serving_def by (intro exI [of _ l]) simp
  have lists: "(copy_bytes dst src m c)\<lparr>lists := lists c\<rparr> = copy_bytes dst src m c" by (simp add: copy_bytes_def)
  show "page_changes S c ps v (area dst m) {} {} (copy_bytes dst src m c) ps v"
    using out(2) relinked_changes [OF l(2), of fs "(copy_bytes dst src m c)\<lparr>lists := l\<rparr>" "lists c"] l(2) lists by simp
  show "mem (copy_bytes dst src m c) (dst + of_nat x) = mem c (src + of_nat x)" if "x < m"
    using out(3) [OF that] by simp
qed

lemma serving_hit:
  assumes c: "serving env S bs k c ps fs v" and p: "p \<in> set ps" and key: "page_key (lists c) p = (name, i)"
    and m: "m \<le> frame_size" and apart: "area dst m \<inter> page_memory c = {}"
  shows "serving env S bs k (read_hit dst p m c) ps fs v"
    and "page_changes S c ps v (area dst m) {} {} (read_hit dst p m c) ps v"
    and "x < m \<Longrightarrow> mem (read_hit dst p m c) (dst + of_nat x) = seen S c ps v (name, i) x"
proof -
  let ?d = "copy_bytes dst (page_data c p) m c"
  note out = serving_copy_out [OF c m apart, where src = "page_data c p"]
  obtain l where l: "caching env S bs k (?d\<lparr>lists := l\<rparr>) ps fs v" "relinked fs l (lists ?d)" "inner (lists ?d) ps"
    using out(1) by (auto simp: serving_def)
  have pool: "pool l ps fs" using cachingD(2) [OF l(1)] by simp
  then have "distinct (ps @ fs)" by (simp add: pool_def)
  note moved = relinked_move [OF l(2,3) p this]
  have hit: "read_hit dst p m c = ?d\<lparr>lists := move_to_lru_head p (lists ?d)\<rparr>" by (simp add: read_hit_def)
  show "serving env S bs k (read_hit dst p m c) ps fs v"
    using l(1) moved unfolding serving_def hit by (intro exI [of _ l]) simp
  have same: "relinked fs l (lists (c\<lparr>lists := l\<rparr>))" by simp
  have c_links: "relinked fs l (lists c)" using l(2) by simp
  have "page_changes S (c\<lparr>lists := l\<rparr>) ps v (area dst m) {} {} (?d\<lparr>lists := l\<rparr>) ps v"
  proof -
    have undo: "?d\<lparr>lists := l\<rparr>\<lparr>lists := lists c\<rparr> = ?d" by (simp add: copy_bytes_def)
    have "relinked fs (lists (?d\<lparr>lists := l\<rparr>)) (lists c)" using c_links by simp
    from relinked_changes [OF c_links this] show ?thesis unfolding undo using out(2) by blast
  qed
  then show "page_changes S c ps v (area dst m) {} {} (read_hit dst p m c) ps v"
    using relinked_changes [OF c_links, of fs "?d\<lparr>lists := l\<rparr>" "move_to_lru_head p (lists ?d)"] moved(1) unfolding hit by simp
  have "holder (lists c) ps (name, i) = Some p"
    using holder_Some [OF pool p] key by (simp add: holder_def relinked_key [OF c_links])
  then show "mem (read_hit dst p m c) (dst + of_nat x) = seen S c ps v (name, i) x" if "x < m"
    using read_hit_bytes(1) [OF m that, of dst p c] by (simp add: seen_def)
qed

text \<open>
  A page cache that can serve the pages of a set: none of them is in memory and pages may have to be thrown out, or those
  that are not in memory fit into the free pages.
\<close>

definition readable :: "bool \<Rightarrow> 'd env \<Rightarrow> (memory \<times> 'd) storage \<Rightarrow> nat \<Rightarrow> nat \<Rightarrow> 'd page_cache \<Rightarrow> nat list \<Rightarrow> nat list \<Rightarrow> cache_view \<Rightarrow>
    key set \<Rightarrow> bool" where
  "readable evicts env S bs k c ps fs v K \<longleftrightarrow>
     (if evicts then caching env S bs k c ps fs v \<and> K \<inter> page_key (lists c) ` set ps = {}
      else serving env S bs k c ps fs v \<and> card (K - page_key (lists c) ` set ps) \<le> length fs)"

lemma readable_cases:
  assumes c: "readable evicts env S bs k c ps fs v (insert key K)" and K: "key \<notin> K" "finite K"
  obtains (away) evicts "caching env S bs k c ps fs v" "key \<notin> page_key (lists c) ` set ps" "K \<inter> page_key (lists c) ` set ps = {}"
    | (hit) p where "\<not> evicts" "serving env S bs k c ps fs v" "card (K - page_key (lists c) ` set ps) \<le> length fs"
        "p \<in> set ps" "page_key (lists c) p = key"
    | (miss) f fs1 where "\<not> evicts" "serving env S bs k c ps (f # fs1) v" "fs = f # fs1" "key \<notin> page_key (lists c) ` set ps"
        "card (K - page_key (lists c) ` set ps) \<le> length fs1"
proof (cases evicts)
  case True
  with c show thesis by (intro away) (auto simp: readable_def)
next
  case False
  let ?keys = "page_key (lists c) ` set ps"
  have S: "serving env S bs k c ps fs v" and few: "card (insert key K - ?keys) \<le> length fs" using c False by (simp_all add: readable_def)
  show thesis
  proof (cases "key \<in> ?keys")
    case True
    then obtain p where p: "p \<in> set ps" "page_key (lists c) p = key" by auto
    have "card (K - ?keys) \<le> length fs" using few True by (simp add: insert_Diff_if)
    from hit [OF False S this p] show thesis .
  next
    case new: False
    then have "Suc (card (K - ?keys)) \<le> length fs" using few K by (simp add: insert_Diff_if)
    then obtain f fs1 where fs: "fs = f # fs1" "card (K - ?keys) \<le> length fs1" by (cases fs) auto
    from miss [OF False S [unfolded fs(1)] fs(1) new fs(2)] show thesis .
  qed
qed

lemma readable_one:
  assumes c: "readable evicts env S bs k c ps fs v (insert (name, i) K)" and K: "(name, i) \<notin> K" "finite K" and ok: "page_ok (name, i)"
    and n: "n < unat req" and m: "unat ck = m" "m \<le> frame_size" and ck: "ck = next_chunk is_first cl req"
    and apart: "area (buf + of_nat n) m \<inter> page_memory c = {}"
  obtains c' ps' fs' v' where
    "read_pages env name buf req is_first cl (of_nat n) i c = read_pages env name buf req False ck (of_nat n + ck) (i + 1) c'"
    "readable evicts env S bs k c' ps' fs' v' K"
    "page_changes S c ps v (area (buf + of_nat n) m) {} {(name, i)} c' ps' v'"
    "\<forall>x < m. mem c' (buf + of_nat (n + x)) = seen S c ps v (name, i) x"
proof -
  note len = ck [unfolded next_chunk_def]
  let ?keys = "page_key (lists c) ` set ps"
  show thesis
  proof (cases rule: readable_cases [OF c K, case_names away hit miss])
    case away
    obtain c' f fs' v' where c':
      "read_pages env name buf req is_first cl (of_nat n) i c = read_pages env name buf req False ck (of_nat n + ck) (i + 1) c'"
      "caching env S bs k c' (f # kept ps fs) fs' v'"
      "page_changes S c ps v (area (buf + of_nat n) m) {} {(name, i)} c' (f # kept ps fs) v'"
      "\<forall>x < m. mem c' (buf + of_nat (n + x)) = seen S c ps v (name, i) x"
      by (rule read_one [OF away(2) ok away(3) n m len apart])
    have keys: "page_key (lists c') ` set (f # kept ps fs) \<subseteq> ?keys \<union> {(name, i)}"
      using c'(3) unfolding page_changes_def by (elim conjE)
    have "insert (name, i) K \<inter> ?keys = {}" unfolding insert_disjoint using away(3,4) by (rule conjI)
    from disjoint_step [OF this K(1) keys] have "readable evicts env S bs k c' (f # kept ps fs) fs' v' K"
      unfolding readable_def using away(1) c'(2) by (simp only: if_True simp_thms)
    from that [OF c'(1) this c'(3,4)] show thesis .
  next
    case (hit p)
    note step = serving_hit [OF hit(2,4,5) m(2) apart]
    have found: "finds (lists c) name i p" by (rule serving_finds(1) [OF hit(2,4,5)])
    have keys: "page_key (lists (read_hit (buf + of_nat n) p m c)) ` set ps = ?keys" by (simp add: read_hit_def page_key_move)
    show thesis
    proof (rule that [of "read_hit (buf + of_nat n) p m c" ps fs v])
      show "read_pages env name buf req is_first cl (of_nat n) i c
          = read_pages env name buf req False ck (of_nat n + ck) (i + 1) (read_hit (buf + of_nat n) p m c)"
        using read_pages_hit [OF found n len] unfolding m(1) .
      show "readable evicts env S bs k (read_hit (buf + of_nat n) p m c) ps fs v K" using hit(1,3) step(1) keys by (simp add: readable_def)
      show "page_changes S c ps v (area (buf + of_nat n) m) {} {(name, i)} (read_hit (buf + of_nat n) p m c) ps v"
        by (rule page_changes_mono [OF step(2)]) auto
      show "\<forall>x < m. mem (read_hit (buf + of_nat n) p m c) (buf + of_nat (n + x)) = seen S c ps v (name, i) x"
        using step(3) by (simp add: add.assoc)
    qed
  next
    case (miss f fs1)
    obtain c1 v1 where c1: "fetch_page env name i c = Some (c1, f)" "serving env S bs k c1 (f # ps) fs1 v1" "f < CACHE_SIZE"
      "page_changes S c ps v {} {} {(name, i)} c1 (f # ps) v1"
      "\<forall>x < frame_size. mem c1 (page_data c1 f + of_nat x) = seen S c ps v (name, i) x"
      "page_key (lists c1) ` set (f # ps) = insert (name, i) ?keys"
      by (rule serving_fetch [OF miss(2) ok miss(4)])
    have base: "phys_base c1 = phys_base c" using c1(4) by (simp add: page_changes_def)
    have apart1: "area (buf + of_nat n) m \<inter> page_memory c1 = {}" using apart same_memory_pages [OF base] by simp
    let ?c = "copy_bytes (buf + of_nat n) (page_data c1 f) m c1"
    note out = serving_copy_out [OF c1(2) m(2) apart1, where src = "page_data c1 f"]
    have "K - page_key (lists ?c) ` set (f # ps) = K - ?keys" unfolding copy_bytes_fields c1(6) using K(1) by blast
    with miss(1,5) out(1) have ready: "readable evicts env S bs k ?c (f # ps) fs1 v1 K" by (simp only: readable_def if_False)
    show thesis
    proof (rule that [OF _ ready])
      show "read_pages env name buf req is_first cl (of_nat n) i c = read_pages env name buf req False ck (of_nat n + ck) (i + 1) ?c"
        using read_pages_miss [OF serving_finds(2) [OF miss(2,4)] c1(1) n len] unfolding m(1) .
      show "page_changes S c ps v (area (buf + of_nat n) m) {} {(name, i)} ?c (f # ps) v1"
        by (rule page_changes_trans [OF c1(4) out(2)]) auto
      show "\<forall>x < m. mem ?c (buf + of_nat (n + x)) = seen S c ps v (name, i) x"
        using out(3) c1(5) m(2) by (simp add: add.assoc)
    qed
  qed
qed

section \<open>Whole requests\<close>

text \<open>The rounds of a request of at most two pages, or of whole pages, copy what is left of it, a page at most.\<close>

definition exact_size :: "nat \<Rightarrow> bool" where
  "exact_size n \<longleftrightarrow> n \<le> 2 * frame_size \<or> frame_size dvd n"

lemma chunk_start: "next_chunk is_first 0 req = of_nat (min (unat req) frame_size)"
  by (auto simp: next_chunk_def word_le_nat_alt config_eqs min_def)

lemma chunk_next:
  assumes "exact_size (unat req)" and "frame_size dvd n" and "n + frame_size < unat req"
  shows "next_chunk False PAGE_SIZE req = of_nat (min (unat req - (n + frame_size)) frame_size)"
proof (cases "unat req \<le> 2 * frame_size")
  case True
  from assms(2) obtain d where d: "n = frame_size * d" by (rule dvdE)
  have "d = 0" using True assms(3) d by (cases d) simp_all
  then have n: "n = 0" by (simp add: d)
  have sub: "unat (req - PAGE_SIZE) = unat req - frame_size" "req - PAGE_SIZE \<le> PAGE_SIZE"
    using chunk_words(1,3) [of frame_size req] True assms(3) by (simp_all add: PAGE_SIZE_eq)
  have "next_chunk False PAGE_SIZE req = req - PAGE_SIZE" using sub(2) by (simp add: next_chunk_def)
  also have "\<dots> = of_nat (unat req - frame_size)" by (simp flip: sub(1))
  finally show ?thesis using True by (simp add: n min_def)
next
  case False
  then have "frame_size dvd unat req" using assms(1) by (simp add: exact_size_def)
  with assms(2) have "frame_size dvd unat req - (n + frame_size)" by (intro dvd_diff_nat) auto
  then have "frame_size \<le> unat req - (n + frame_size)" using assms(3) by (intro dvd_imp_le) auto
  then have "8192 \<le> unat req" "min (unat req - (n + frame_size)) frame_size = frame_size" by auto
  then show ?thesis using later_chunk [of req] by (simp add: PAGE_SIZE_eq)
qed

lemma range_finite [simp]: "finite (page_range name i num)"
  by (simp add: page_range_def)

lemma readable_pages:
  assumes "readable evicts env S bs k c ps fs v (page_range name i num)" and "exact_size (unat req)" and "n \<le> unat req" and "frame_size dvd n"
    and "num = (unat req - n + 4095) div frame_size" and "n < unat req \<longrightarrow> next_chunk is_first cl req = of_nat (min (unat req - n) frame_size)"
    and "num < 2 ^ 32" and "\<forall>key \<in> page_range name i num. page_ok key" and "area (buf + of_nat n) (unat req - n) \<inter> page_memory c = {}"
  shows "\<exists>c' ps' fs' v'. read_pages env name buf req is_first cl (of_nat n) i c = Some (c', req)
    \<and> readable evicts env S bs k c' ps' fs' v' {}
    \<and> page_changes S c ps v (area (buf + of_nat n) (unat req - n)) {} (page_range name i num) c' ps' v'
    \<and> (\<forall>j < num. \<forall>x < frame_size. n + frame_size * j + x < unat req \<longrightarrow>
         mem c' (buf + of_nat (n + frame_size * j + x)) = seen S c ps v (name, i + of_nat j) x)"
  using assms
proof (induction num arbitrary: c ps fs v n i is_first cl)
  case 0
  have "n = unat req" using 0(3,5) by (simp add: div_eq_0_iff)
  then have n: "n < 2 ^ 32" "of_nat n = req" using unsigned_less [of req, where 'a = nat] by simp_all
  have "read_pages env name buf req is_first cl (of_nat n) i c = Some (c, req)" using read_pages_end [of req n] \<open>n = unat req\<close> n by simp
  then show ?case using 0(1) by (auto simp: page_changes_def page_range_def)
next
  case (Suc num)
  have n: "n < unat req" using Suc.prems(5) by (cases "unat req - n") simp_all
  let ?m = "min (unat req - n) frame_size"
  have fresh: "(name, i) \<notin> page_range name (i + 1) num" using page_range_next [OF Suc.prems(7), of name i] by simp
  have ok: "page_ok (name, i)" and next_ok: "\<forall>key \<in> page_range name (i + 1) num. page_ok key"
    using Suc.prems(8) unfolding page_range_Suc by simp_all
  have ck: "of_nat ?m = next_chunk is_first cl req" using Suc.prems(6) n by simp
  have m: "unat (of_nat ?m :: u32) = ?m" "?m \<le> frame_size" "0 < ?m" using n by (simp_all add: unat_of_nat_u32)
  have sub: "area (buf + of_nat n) ?m \<subseteq> area (buf + of_nat n) (unat req - n)" by (rule area_mono) simp
  then have apart: "area (buf + of_nat n) ?m \<inter> page_memory c = {}" using Suc.prems(9) by blast
  obtain c1 ps1 fs1 v1 where c1:
    "read_pages env name buf req is_first cl (of_nat n) i c = read_pages env name buf req False (of_nat ?m) (of_nat n + of_nat ?m) (i + 1) c1"
    "readable evicts env S bs k c1 ps1 fs1 v1 (page_range name (i + 1) num)"
    "page_changes S c ps v (area (buf + of_nat n) ?m) {} {(name, i)} c1 ps1 v1"
    "\<forall>x < ?m. mem c1 (buf + of_nat (n + x)) = seen S c ps v (name, i) x"
    by (rule readable_one [OF Suc.prems(1) [unfolded page_range_Suc] fresh range_finite ok n m(1,2) ck apart])
  show ?case
  proof (cases "unat req - n \<le> frame_size")
    case True
    have "Suc num = 1" unfolding Suc.prems(5) using True n by (intro div_nat_eqI) auto
    then have num: "num = 0" by simp
    have single: "page_range name i (Suc num) = {(name, i)}" and none: "page_range name (i + 1) num = {}"
      unfolding num page_range_Suc by (simp_all add: page_range_def)
    have all: "?m = unat req - n" using True by simp
    have "of_nat n + of_nat ?m = (of_nat (unat req) :: u32)" unfolding all using n by (metis le_add_diff_inverse less_imp_le of_nat_add)
    then have "read_pages env name buf req is_first cl (of_nat n) i c = Some (c1, req)"
      using c1(1) read_pages_end [of req "unat req"] unsigned_less [of req, where 'a = nat] by simp
    with c1(2-4) num show ?thesis unfolding single none all
      by (intro exI [of _ c1] exI [of _ ps1] exI [of _ fs1] exI [of _ v1]) auto
  next
    case False
    then have more: "?m = frame_size" "n + frame_size < unat req" by auto
    have base: "phys_base c1 = phys_base c" using c1(3) by (simp add: page_changes_def)
    have off: "of_nat n + of_nat ?m = (of_nat (n + frame_size) :: u32)" "of_nat ?m = PAGE_SIZE" by (simp_all add: PAGE_SIZE_eq more(1))
    have shift: "buf + of_nat (n + frame_size) = buf + of_nat n + of_nat frame_size" by simp
    have next_area: "area (buf + of_nat (n + frame_size)) (unat req - (n + frame_size)) \<subseteq> area (buf + of_nat n) (unat req - n)"
      unfolding shift by (rule order_trans [OF area_shift area_mono]) (use more in simp)
    have hyps: "n + frame_size \<le> unat req" "frame_size dvd n + frame_size" "num = (unat req - (n + frame_size) + 4095) div frame_size"
      "num < 2 ^ 32" "area (buf + of_nat (n + frame_size)) (unat req - (n + frame_size)) \<inter> page_memory c1 = {}"
      using more Suc.prems(4,5,7,9) next_area unfolding same_memory_pages [OF base] by auto
    have next_ck: "n + frame_size < unat req \<longrightarrow> next_chunk False PAGE_SIZE req = of_nat (min (unat req - (n + frame_size)) frame_size)"
      using chunk_next [OF Suc.prems(2,4) more(2)] by blast
    obtain c' ps' fs' v' where c': "read_pages env name buf req False PAGE_SIZE (of_nat (n + frame_size)) (i + 1) c1 = Some (c', req)"
      "readable evicts env S bs k c' ps' fs' v' {}"
      "page_changes S c1 ps1 v1 (area (buf + of_nat (n + frame_size)) (unat req - (n + frame_size))) {} (page_range name (i + 1) num) c' ps' v'"
      "\<forall>j < num. \<forall>x < frame_size. n + frame_size + frame_size * j + x < unat req \<longrightarrow>
         mem c' (buf + of_nat (n + frame_size + frame_size * j + x)) = seen S c1 ps1 v1 (name, i + 1 + of_nat j) x"
      using Suc.IH [OF c1(2) Suc.prems(2) hyps(1-3) next_ck hyps(4) next_ok hyps(5)] by blast
    have bytes: "mem c' (buf + of_nat (n + frame_size * j + x)) = seen S c ps v (name, i + of_nat j) x"
      if j: "j < Suc num" "x < frame_size" "n + frame_size * j + x < unat req" for j x
    proof (cases j)
      case 0
      let ?a = "buf + of_nat (n + x)"
      have "?a \<in> area (buf + of_nat n) frame_size" using areaI [OF j(2), of "buf + of_nat n"] by (simp add: add.assoc)
      moreover have "area (buf + of_nat n) frame_size \<inter> area (buf + of_nat (n + frame_size)) (unat req - (n + frame_size)) = {}"
        by (rule area_apart) (use more unsigned_less [of req, where 'a = nat] in simp_all)
      ultimately have "?a \<notin> area (buf + of_nat (n + frame_size)) (unat req - (n + frame_size)) \<union> page_memory c1"
        using apart unfolding same_memory_pages [OF base] more(1) by blast
      with c'(3) have "mem c' ?a = mem c1 ?a" unfolding page_changes_def by blast
      with c1(4) j more(1) 0 show ?thesis by simp
    next
      case (Suc j')
      have key: "page_ok (name, i + 1 + of_nat j')" using next_ok j(1) Suc by (auto simp: page_range_def)
      have eq: "n + frame_size + frame_size * j' + x = n + frame_size * j + x" using Suc by simp
      have "mem c' (buf + of_nat (n + frame_size * j + x)) = seen S c1 ps1 v1 (name, i + 1 + of_nat j') x"
        using c'(4) j Suc unfolding eq [symmetric] by simp
      also have "\<dots> = seen S c ps v (name, i + 1 + of_nat j') x" using c1(3) key j(2) by (simp add: page_changes_def)
      finally show ?thesis using Suc by (simp add: add.assoc)
    qed
    have "page_changes S c ps v (area (buf + of_nat n) (unat req - n)) {} (page_range name i (Suc num)) c' ps' v'"
      unfolding page_range_Suc by (rule page_changes_trans [OF c1(3) c'(3) sub next_area]) auto
    with c1(1) off c'(1,2) bytes show ?thesis by (intro exI conjI) auto
  qed
qed

end
