(* ===== verification/FileProps.thy ===== *)
theory FileProps
  imports CachedReads Machine UPageSystem
begin

text \<open>
  The whole program: \<open>uwrite\<close> and \<open>uread\<close> with the page cache, the SSD cache and the files below them. Pages that are
  thrown out go to the SSD cache or the file, and come back from there.
\<close>

section \<open>Whole calls\<close>

lemma page_range_one: "page_range name i 1 = {(name, i)}"
  by (auto simp: page_range_def)

lemma pages_bound: "n \<le> frame_size * CACHE_SIZE \<Longrightarrow> (n + 4095) div frame_size \<le> CACHE_SIZE"
proof -
  assume "n \<le> frame_size * CACHE_SIZE"
  then have "(n + 4095) div frame_size \<le> (frame_size * CACHE_SIZE + 4095) div frame_size" by (intro div_le_mono) simp
  then show ?thesis by (simp add: CACHE_SIZE_def)
qed

lemma uwrite_pages:
  assumes mode: "u_mode stream AND U_OWRITE \<noteq> 0" and size: "unat esize * unat count = n" "esize \<noteq> 0"
    and n: "0 < n" "n \<le> frame_size * CACHE_SIZE"
    and run: "write_pages env (u_path stream) buf (ucast (esize * count)) False (of_nat 0) (file_page stream) c = Some (c', ucast (esize * count))"
  shows "uwrite env buf esize count stream c = Some (c', count)"
proof -
  have small: "n < 2 ^ 32" using n(2) by (simp add: CACHE_SIZE_def)
  note words = request_words [OF size(1) small size(2)]
  have "\<not> data_pages (ucast (esize * count)) > of_nat CACHE_SIZE" by (rule data_pages_small) (use words(1) n in simp)
  then show ?thesis
    using run mode size(2) words(2) by (simp add: uwrite_def Let_def write_pages_first flip: file_page_def)
qed

lemma write_file:
  assumes c: "caching env S bs k c ps fs v" and mode: "u_mode stream AND U_OWRITE \<noteq> 0"
    and size: "unat esize * unat count = n" "esize \<noteq> 0" and n: "0 < n" "n \<le> frame_size * CACHE_SIZE"
    and num: "num = (n + 4095) div frame_size"
    and new: "page_range (u_path stream) (file_page stream) num \<inter> page_key (lists c) ` set ps = {}"
    and ok: "\<forall>key \<in> page_range (u_path stream) (file_page stream) num. page_ok key"
    and apart: "area buf n \<inter> page_memory c = {}"
  shows "\<exists>c' ps' fs' v'. uwrite env buf esize count stream c = Some (c', count) \<and> caching env S bs k c' ps' fs' v'
    \<and> page_changes S c ps v {} (page_range (u_path stream) (file_page stream) num)
        (page_range (u_path stream) (file_page stream) num) c' ps' v'
    \<and> (\<forall>j < num. \<forall>x < frame_size. frame_size * j + x < n \<longrightarrow>
         seen S c' ps' v' (u_path stream, file_page stream + of_nat j) x = mem c (buf + of_nat (frame_size * j + x)))
    \<and> (num \<le> length fs \<longrightarrow> only_memory c c')"
proof -
  let ?len = "ucast (esize * count) :: u32"
  have small: "n < 2 ^ 32" using n(2) by (simp add: CACHE_SIZE_def)
  note words = request_words(1) [OF size(1) small size(2)]
  have hyps: "0 < unat ?len" "num = (unat ?len - 0 + 4095) div frame_size" "num < 2 ^ 32" "area buf (unat ?len) \<inter> page_memory c = {}"
    using n num pages_bound [OF n(2)] apart words by (simp_all add: CACHE_SIZE_def)
  from write_range [OF c hyps(1-3) new ok hyps(4)] obtain c' ps' fs' v' where
    c': "write_pages env (u_path stream) buf ?len False (of_nat 0) (file_page stream) c = Some (c', ?len)" "caching env S bs k c' ps' fs' v'"
    "page_changes S c ps v {} (page_range (u_path stream) (file_page stream) num) (page_range (u_path stream) (file_page stream) num) c' ps' v'"
    "\<forall>j < num. \<forall>x < frame_size. frame_size * j + x < n \<longrightarrow>
       seen S c' ps' v' (u_path stream, file_page stream + of_nat j) x = mem c (buf + of_nat (frame_size * j + x))"
    "num \<le> length fs \<longrightarrow> only_memory c c'"
    unfolding words by auto
  from uwrite_pages [OF mode size n c'(1)] c'(2-) show ?thesis by blast
qed

lemma read_file:
  assumes c: "readable evicts env S bs k c ps fs v (page_range (u_path stream) (file_page stream) num)"
    and size: "unat esize * unat count = n" "esize \<noteq> 0" and n: "exact_size n" "0 < n" "n \<le> frame_size * CACHE_SIZE"
    and num: "num = (n + 4095) div frame_size"
    and ok: "\<forall>key \<in> page_range (u_path stream) (file_page stream) num. page_ok key"
    and apart: "area buf n \<inter> page_memory c = {}"
  shows "\<exists>c' ps' fs' v'. uread env buf esize count stream c = Some (c', count) \<and> readable evicts env S bs k c' ps' fs' v' {}
    \<and> page_changes S c ps v (area buf n) {} (page_range (u_path stream) (file_page stream) num) c' ps' v'
    \<and> (\<forall>j < num. \<forall>x < frame_size. frame_size * j + x < n \<longrightarrow>
         mem c' (buf + of_nat (frame_size * j + x)) = seen S c ps v (u_path stream, file_page stream + of_nat j) x)"
proof -
  let ?len = "ucast (esize * count) :: u32"
  have small: "n < 2 ^ 32" using n(3) by (simp add: CACHE_SIZE_def)
  note words = request_words [OF size(1) small size(2)]
  have hyps: "exact_size (unat ?len)" "0 \<le> unat ?len" "frame_size dvd 0" "num = (unat ?len - 0 + 4095) div frame_size" "num < 2 ^ 32"
    "area (buf + of_nat 0) (unat ?len - 0) \<inter> page_memory c = {}"
    using n num pages_bound [OF n(3)] apart words(1) by (simp_all add: CACHE_SIZE_def)
  have chunk: "0 < unat ?len \<longrightarrow> next_chunk (indeterminate_first env) 0 ?len = of_nat (min (unat ?len - 0) frame_size)"
    using chunk_start [of "indeterminate_first env" ?len] by simp
  from readable_pages [OF c hyps(1-4) chunk hyps(5) ok hyps(6)] obtain c' ps' fs' v' where
    c': "read_pages env (u_path stream) buf ?len (indeterminate_first env) 0 0 (file_page stream) c = Some (c', ?len)"
    "readable evicts env S bs k c' ps' fs' v' {}"
    "page_changes S c ps v (area buf n) {} (page_range (u_path stream) (file_page stream) num) c' ps' v'"
    "\<forall>j < num. \<forall>x < frame_size. frame_size * j + x < n \<longrightarrow>
       mem c' (buf + of_nat (frame_size * j + x)) = seen S c ps v (u_path stream, file_page stream + of_nat j) x"
    unfolding words(1) by auto
  have "\<not> data_pages ?len > of_nat CACHE_SIZE" by (rule data_pages_small) (use words(1) n in simp)
  then have "uread env buf esize count stream c = Some (c', count)"
    using c'(1) size(2) words(2) by (simp add: uread_def Let_def flip: file_page_def)
  with c'(2-) show ?thesis by blast
qed

text \<open>Whole pages that are not in memory.\<close>

lemma read_whole_pages:
  assumes c: "caching env S bs k c ps fs v" and new: "page_range (u_path stream) (file_page stream) num \<inter> page_key (lists c) ` set ps = {}"
    and size: "unat esize * unat count = frame_size * num" "esize \<noteq> 0" and num: "0 < num" "num \<le> CACHE_SIZE"
    and ok: "\<forall>key \<in> page_range (u_path stream) (file_page stream) num. page_ok key" and apart: "area buf (frame_size * num) \<inter> page_memory c = {}"
  shows "\<exists>c'. uread env buf esize count stream c = Some (c', count)
    \<and> (\<forall>j < num. \<forall>x < frame_size. mem c' (buf + of_nat (frame_size * j + x)) = seen S c ps v (u_path stream, file_page stream + of_nat j) x)"
proof -
  have ready: "readable True env S bs k c ps fs v (page_range (u_path stream) (file_page stream) num)" using c new by (simp add: readable_def)
  have n: "exact_size (frame_size * num)" "0 < frame_size * num" "frame_size * num \<le> frame_size * CACHE_SIZE"
    "num = (frame_size * num + 4095) div frame_size" using num by (simp_all add: exact_size_def)
  have "frame_size * j + x < frame_size * num" if "j < num" "x < frame_size" for j x
  proof -
    have "frame_size * Suc j \<le> frame_size * num" using that(1) by (intro mult_le_mono2) simp
    with that(2) show ?thesis by simp
  qed
  with read_file [OF ready size n ok apart] show ?thesis by blast
qed

text \<open>The two ways to be ready for a read.\<close>

lemma read_file_ready:
  assumes c: "caching env S bs k c ps fs v \<and> page_range (u_path stream) (file_page stream) num \<inter> page_key (lists c) ` set ps = {}
      \<or> serving env S bs k c ps fs v \<and> card (page_range (u_path stream) (file_page stream) num - page_key (lists c) ` set ps) \<le> length fs"
    and size: "unat esize * unat count = n" "esize \<noteq> 0" and n: "exact_size n" "0 < n" "n \<le> frame_size * CACHE_SIZE"
    and num: "num = (n + 4095) div frame_size"
    and ok: "\<forall>key \<in> page_range (u_path stream) (file_page stream) num. page_ok key"
    and apart: "area buf n \<inter> page_memory c = {}"
  shows "\<exists>c' ps' fs' v'. uread env buf esize count stream c = Some (c', count) \<and> serving env S bs k c' ps' fs' v'
    \<and> (caching env S bs k c ps fs v \<and> page_range (u_path stream) (file_page stream) num \<inter> page_key (lists c) ` set ps = {}
        \<longrightarrow> caching env S bs k c' ps' fs' v')
    \<and> page_changes S c ps v (area buf n) {} (page_range (u_path stream) (file_page stream) num) c' ps' v'
    \<and> (\<forall>j < num. \<forall>x < frame_size. frame_size * j + x < n \<longrightarrow>
         mem c' (buf + of_nat (frame_size * j + x)) = seen S c ps v (u_path stream, file_page stream + of_nat j) x)"
proof (cases "caching env S bs k c ps fs v \<and> page_range (u_path stream) (file_page stream) num \<inter> page_key (lists c) ` set ps = {}")
  case True
  then have "readable True env S bs k c ps fs v (page_range (u_path stream) (file_page stream) num)" by (simp add: readable_def)
  from read_file [OF this size n num ok apart] show ?thesis unfolding readable_def if_True by (blast intro: caching_serving)
next
  case False
  with c have "readable False env S bs k c ps fs v (page_range (u_path stream) (file_page stream) num)" by (simp add: readable_def)
  from read_file [OF this size n num ok apart] False show ?thesis unfolding readable_def if_False by blast
qed

text \<open>One page more than the cache holds: the older half of the pages goes, and is read back.\<close>

lemma evicted_page:
  assumes c: "caching env S bs k c ps [] v" and p: "p \<in> set (drop (CACHE_SIZE div 2) ps)"
    and key: "page_key (lists c) p = (u_path old, file_page old)"
    and mode: "u_mode stream AND U_OWRITE \<noteq> 0" and size: "unat esize * unat count = n" "esize \<noteq> 0" and n: "0 < n" "n \<le> frame_size"
    and new: "(u_path stream, file_page stream) \<notin> page_key (lists c) ` set ps" and ok: "page_ok (u_path stream, file_page stream)"
    and apart: "area buf n \<inter> page_memory c = {}" "area dest frame_size \<inter> page_memory c = {}"
    and size': "unat esize' * unat count' = frame_size" "esize' \<noteq> 0"
  shows "\<exists>c1 c2. uwrite env buf esize count stream c = Some (c1, count) \<and> uread env dest esize' count' old c1 = Some (c2, count')
    \<and> (\<forall>x < frame_size. mem c2 (dest + of_nat x) = mem c (page_data c p + of_nat x))"
proof -
  let ?h = "CACHE_SIZE div 2"
  let ?len = "ucast (esize * count) :: u32"
  let ?key = "(u_path stream, file_page stream)" and ?old = "(u_path old, file_page old)"
  note C = cachingD [OF c]
  have n': "n < 2 ^ 32" "n \<le> frame_size * CACHE_SIZE" using n(2) by (simp_all add: CACHE_SIZE_def)
  note words = request_words(1) [OF size(1) n'(1) size(2)]
  have len: "0 < unat ?len" "area buf (unat ?len) \<inter> page_memory c = {}" using n(1) apart(1) words by simp_all
  obtain c1 f fs1 v1 where c1:
    "write_pages env (u_path stream) buf ?len False (of_nat 0) (file_page stream) c = (if unat ?len - 0 \<le> frame_size then Some (c1, ?len)
       else write_pages env (u_path stream) buf ?len False (of_nat (0 + frame_size)) (file_page stream + 1) c1)"
    "caching env S bs k c1 (f # kept ps []) fs1 v1" "page_changes S c ps v {} {?key} {?key} c1 (f # kept ps []) v1"
    "page_key (lists c1) ` set (f # kept ps []) \<subseteq> page_key (lists c) ` set (kept ps []) \<union> {?key}"
    by (rule write_one [OF c ok new len])
  have kept: "kept ps [] = take ?h ps" by (simp add: kept_def)
  have "uwrite env buf esize count stream c = Some (c1, count)"
    by (rule uwrite_pages [OF mode size n(1) n'(2)]) (use c1(1) words n(2) in simp)
  have p': "p \<in> set ps" "page_key (lists c) p = ?old" using p key in_set_dropD by fast+
  have "?old \<noteq> ?key" using new p' by (metis imageI)
  have "?old \<notin> page_key (lists c) ` set (take ?h ps)"
  proof
    assume "?old \<in> page_key (lists c) ` set (take ?h ps)"
    then obtain q where q: "q \<in> set (take ?h ps)" "page_key (lists c) q = page_key (lists c) p" using p'(2) by auto
    have "distinct (map (page_key (lists c)) (take ?h ps @ drop ?h ps))" using C(2) by (simp add: pool_def)
    with p q show False unfolding map_append distinct_append by (metis disjoint_iff image_eqI set_map)
  qed
  with c1(4) \<open>?old \<noteq> ?key\<close> have gone: "?old \<notin> page_key (lists c1) ` set (f # kept ps [])" unfolding kept by blast
  note range = page_range_one [of "u_path old" "file_page old"]
  have base: "phys_base c1 = phys_base c" using c1(3) by (simp add: page_changes_def)
  have old_ok: "page_ok ?old" using C(4) [OF p'(1)] p'(2) by simp
  have new_old: "page_range (u_path old) (file_page old) 1 \<inter> page_key (lists c1) ` set (f # kept ps []) = {}" unfolding range using gone by blast
  have whole: "unat esize' * unat count' = frame_size * 1" "area dest (frame_size * 1) \<inter> page_memory c1 = {}" "(1 :: nat) \<le> CACHE_SIZE"
    using size'(1) apart(2) same_memory_pages [OF base] by (simp_all add: CACHE_SIZE_def)
  have old_pages: "\<forall>key \<in> page_range (u_path old) (file_page old) 1. page_ok key" unfolding range using old_ok by blast
  from read_whole_pages [OF c1(2) new_old whole(1) size'(2) zero_less_one whole(3) old_pages whole(2)] obtain c2 where
    c2: "uread env dest esize' count' old c1 = Some (c2, count')"
    "\<forall>x < frame_size. mem c2 (dest + of_nat x) = seen S c1 (f # kept ps []) v1 ?old x" by auto
  have "seen S c1 (f # kept ps []) v1 ?old x = mem c (page_data c p + of_nat x)" if "x < frame_size" for x
    using c1(3) old_ok \<open>?old \<noteq> ?key\<close> that holder_Some [OF C(2) p'(1)] p'(2) by (simp add: page_changes_def seen_def)
  with c2 \<open>uwrite env buf esize count stream c = Some (c1, count)\<close> show ?thesis by auto
qed


lemma write_back_half:
  assumes c: "caching env S bs k c ps fs v" and many: "CACHE_SIZE div 2 \<le> length ps"
  shows "\<exists>c' v'. write_back_thread env c = Some c' \<and> unseen S c ps v c' (take (length ps - CACHE_SIZE div 2) ps) v'
    \<and> caching env S bs k c' (take (length ps - CACHE_SIZE div 2) ps) (drop (length ps - CACHE_SIZE div 2) ps @ fs) v'"
proof -
  let ?k = "length ps - CACHE_SIZE div 2"
  have len: "length (drop ?k ps) = CACHE_SIZE div 2" using many by simp
  have "caching env S bs k c (take ?k ps @ drop ?k ps) fs v" using c by simp
  from evict_many [OF this] show ?thesis unfolding len append_take_drop_id write_back_thread_def by blast
qed

section \<open>A concrete stack\<close>

text \<open>A page cache on a new SSD cache of two blocks, with empty files; the memory holds the low byte of each address.\<close>

definition stack_env :: "drives env" where
  "stack_env = \<lparr>env_os = quiet_os, env_sys = machine_system, malloc_entry = first_free, malloc_pio = (\<lambda>_. 1),
     alloc_dma = (\<lambda>_ w. (2 ^ 40, w)), free_dma = (\<lambda>_ w. w), indeterminate_first = True\<rparr>"

definition stack_cache :: "drives page_cache" where
  "stack_cache = \<lparr>lists = new_lists, map_base = 2 ^ 41, phys_base = 2 ^ 40,
     process = \<lparr>shared_cache = Some 0, spdk_target = reset_ctrlr_and_ns\<rparr>,
     host_machine = \<lparr>objects = (\<lambda>_. sample_cache (small_cache 2)), shm_name = Some 0, next_object = 1,
       world = (\<lambda>a. ucast a, \<lparr>m_flash = (\<lambda>_. 0), m_disk = (\<lambda>_ _. 0), m_open = []\<rparr>)\<rparr>,
     pio_nodes = Map.empty\<rparr>"

abbreviation new_view :: cache_view where
  "new_view \<equiv> v_init 2 6 (\<lambda>_. ([], 0))"

lemma machine_memory_first: "memory_first machine_storage"
  by (simp add: memory_first_def machine_storage_def)

lemma stack_attached: "attached machine_storage 3 stack_cache new_view"
proof -
  have "device_ok (sample_cache (small_cache 2)) 3"
    by (rule sample_cache_device [OF two_blocks_rep]) (simp add: v_init_def)
  moreover have "mrep (cache_map (sample_cache (small_cache 2))) new_view" by (simp add: sample_cache_def two_blocks_rep)
  ultimately show ?thesis
    by (simp add: attached_def stack_cache_def usable_def keys_ok_def clean_blocks_def v_init_def) (simp add: sample_cache_def)
qed

lemma stack_caching: "caching stack_env machine_storage 512 3 stack_cache [] (rev [0..<CACHE_SIZE]) new_view"
proof -
  have "on_ssd stack_env machine_storage 512 3 stack_cache new_view"
    using stack_attached machine_reliable machine_memory_first by (simp add: on_ssd_def stack_env_def stack_cache_def)
  moreover have "pool (lists stack_cache) [] (rev [0..<CACHE_SIZE])" using new_lists_pool by (simp add: stack_cache_def)
  moreover have "card (dom (hash_heap (lists stack_cache))) = 0" by (simp add: stack_cache_def new_lists_def fill_free_heap empty_lists_def)
  ultimately show ?thesis by (simp add: caching_def stack_env_def first_free_allocates atLeast0LessThan)
qed

lemma stack_mem: "mem stack_cache a = ucast a"
  by (simp add: mem_def stack_cache_def)

lemma sample_stream_pages: "num \<le> 2 ^ 20 \<Longrightarrow> \<forall>key \<in> page_range (u_path sample_stream) (file_page sample_stream) num. page_ok key"
proof -
  assume num: "num \<le> 2 ^ 20"
  have "unat (of_nat j :: u32) < 2 ^ 20" if "j < num" for j using that num by (simp add: unat_of_nat_u32)
  then show ?thesis by (auto simp: page_range_def page_ok_def sample_stream_def new_stream_def file_page_def config_eqs Let_def)
qed

text \<open>The cache filled with one file.\<close>

lemma pool_unique: "pool l ps fs \<Longrightarrow> pool l ps' fs' \<Longrightarrow> ps = ps' \<and> fs = fs'"
proof -
  assume pool: "pool l ps fs" "pool l ps' fs'"
  then have "nexts (mem_map l) (lru_head l) ps" "nexts (mem_map l) (lru_head l) ps'"
    by (auto simp: pool_def lru_list_def intro: dseg_nexts)
  from nexts_unique [OF this] have "ps = ps'" .
  moreover have "fs = fs'" using nexts_unique [of "mem_map l" "free_head l" fs fs'] pool by (simp add: pool_def)
  ultimately show ?thesis ..
qed

lemma full_stack:
  obtains c v where "uwrite stack_env (of_nat (2 ^ 30)) 1 (2 ^ 29) sample_stream stack_cache = Some (c, 2 ^ 29)"
    "caching stack_env machine_storage 512 3 c [0..<CACHE_SIZE] [] v" "phys_base c = 2 ^ 40"
    "page_key (lists c) 131071 = (u_path sample_stream, file_page sample_stream)"
    "\<forall>x < frame_size. mem c (page_data c 131071 + of_nat x) = ucast (of_nat (2 ^ 30 + x) :: u64)"
    "page_key (lists c) ` set [0..<CACHE_SIZE] \<subseteq> page_range (u_path sample_stream) (file_page sample_stream) CACHE_SIZE"
proof -
  let ?buf = "of_nat (2 ^ 30) :: u64" and ?count = "2 ^ 29 :: u64" and ?name = "u_path sample_stream" and ?i = "file_page sample_stream"
  have mode: "u_mode sample_stream AND U_OWRITE \<noteq> 0" by (rule sample_stream_mode)
  have size: "unat (1 :: u64) * unat ?count = 2 ^ 29" "(1 :: u64) \<noteq> 0" by simp_all
  have n: "0 < (2 ^ 29 :: nat)" "2 ^ 29 \<le> frame_size * CACHE_SIZE" by (simp_all add: CACHE_SIZE_def)
  have num: "CACHE_SIZE = (2 ^ 29 + 4095) div frame_size" by (simp add: CACHE_SIZE_def)
  have ok: "\<forall>key \<in> page_range ?name ?i CACHE_SIZE. page_ok key" by (rule sample_stream_pages) (simp add: CACHE_SIZE_def)
  have apart: "area ?buf (2 ^ 29) \<inter> page_memory stack_cache = {}" by (rule high_buffers) (simp_all add: stack_cache_def)
  have none: "page_range ?name ?i CACHE_SIZE \<inter> page_key (lists stack_cache) ` set [] = {}" by simp
  obtain c ps fs v where c: "uwrite stack_env ?buf 1 ?count sample_stream stack_cache = Some (c, ?count)"
    "caching stack_env machine_storage 512 3 c ps fs v"
    "page_changes machine_storage stack_cache [] new_view {} (page_range ?name ?i CACHE_SIZE) (page_range ?name ?i CACHE_SIZE) c ps v"
    "\<forall>j < CACHE_SIZE. \<forall>x < frame_size. frame_size * j + x < 2 ^ 29 \<longrightarrow>
       seen machine_storage c ps v (?name, ?i + of_nat j) x = mem stack_cache (?buf + of_nat (frame_size * j + x))"
    using write_file [OF stack_caching mode size n num none ok apart] by blast
  have pool: "pool (lists stack_cache) [] (rev [0..<CACHE_SIZE] @ [])" using cachingD(2) [OF stack_caching] by simp
  have "\<exists>c'. uwrite stack_env ?buf 1 ?count sample_stream stack_cache = Some (c', ?count) \<and> pool (lists c') (rev (rev [0..<CACHE_SIZE]) @ []) []
    \<and> phys_base c' = phys_base stack_cache \<and> (\<forall>j < length (rev [0..<CACHE_SIZE]). page_key (lists c') (rev [0..<CACHE_SIZE] ! j) = (?name, ?i + of_nat j))
    \<and> (\<forall>p \<in> set []. page_key (lists c') p = page_key (lists stack_cache) p)
    \<and> holds_bytes (mem c') (page_data stack_cache) (rev [0..<CACHE_SIZE]) (mem stack_cache) ?buf 0 (2 ^ 29)
    \<and> (\<forall>a. a \<notin> (\<Union>q \<in> set (rev [0..<CACHE_SIZE]). area (page_data stack_cache q) frame_size) \<longrightarrow> mem c' a = mem stack_cache a)"
  proof (rule uwrite_new [OF pool mode size n])
    show "length (rev [0..<CACHE_SIZE]) = (2 ^ 29 + 4095) div frame_size" unfolding num [symmetric] by simp
    show "set (rev [0..<CACHE_SIZE]) \<subseteq> {..<CACHE_SIZE}" by auto
    show "area ?buf (2 ^ 29) \<inter> page_memory stack_cache = {}" by (rule apart)
    show "allocates (malloc_entry stack_env)" by (rule cachingD(5) [OF stack_caching])
    have "card (dom (hash_heap (lists stack_cache))) = 0" using cachingD(6) [OF stack_caching] by simp
    moreover have "CACHE_SIZE < 2 ^ 64" by (simp add: CACHE_SIZE_def)
    ultimately show "card (dom (hash_heap (lists stack_cache))) + length (rev [0..<CACHE_SIZE]) < 2 ^ 64" by simp
  qed simp
  with c(1) have d: "pool (lists c) [0..<CACHE_SIZE] []" "phys_base c = phys_base stack_cache"
    "\<forall>j < length (rev [0..<CACHE_SIZE]). page_key (lists c) (rev [0..<CACHE_SIZE] ! j) = (?name, ?i + of_nat j)"
    by (simp_all del: length_rev)
  have eq: "ps = [0..<CACHE_SIZE]" "fs = []" using pool_unique [OF cachingD(2) [OF c(2)] d(1)] by blast+
  have pos: "0 < CACHE_SIZE" "CACHE_SIZE - Suc 0 = 131071" by (simp_all add: CACHE_SIZE_def)
  then have "rev [0..<CACHE_SIZE] ! 0 = 131071" by (simp add: rev_nth)
  with d(3) [rule_format, of 0] pos(1) have key: "page_key (lists c) 131071 = (?name, ?i)" by simp
  have "CACHE_SIZE - Suc 0 < CACHE_SIZE" using pos(1) by simp
  then have "131071 \<in> set ps" unfolding eq(1) set_upt pos(2) by simp
  from holder_Some [OF cachingD(2) [OF c(2)] this] have hold: "holder (lists c) ps (?name, ?i) = Some 131071" unfolding key .
  have bytes: "mem c (page_data c 131071 + of_nat x) = ucast (of_nat (2 ^ 30 + x) :: u64)" if x: "x < frame_size" for x
  proof -
    have "frame_size * 0 + x < 2 ^ 29" using x by simp
    from c(4) [rule_format, OF pos(1) x this] show ?thesis by (simp add: seen_def hold stack_mem)
  qed
  show thesis
  proof (rule that [OF c(1)])
    show "caching stack_env machine_storage 512 3 c [0..<CACHE_SIZE] [] v" using c(2) unfolding eq .
    show "phys_base c = 2 ^ 40" using d(2) by (simp add: stack_cache_def)
    show "page_key (lists c) ` set [0..<CACHE_SIZE] \<subseteq> page_range ?name ?i CACHE_SIZE" using c(3) unfolding eq page_changes_def by simp
    show "page_key (lists c) 131071 = (?name, ?i)" by (rule key)
    show "\<forall>x < frame_size. mem c (page_data c 131071 + of_nat x) = ucast (of_nat (2 ^ 30 + x) :: u64)" using bytes by blast
  qed
qed


text \<open>The concrete stack with one page written.\<close>

lemma one_page_written:
  obtains c ps fs v where "uwrite stack_env (of_nat (2 ^ 30)) 1 4096 sample_stream stack_cache = Some (c, 4096)"
    "serving stack_env machine_storage 512 3 c ps fs v"
    "card (page_range (u_path sample_stream) (file_page sample_stream) 2 - page_key (lists c) ` set ps) \<le> length fs"
    "phys_base c = 2 ^ 40"
    "seen machine_storage c ps v (u_path sample_stream, file_page sample_stream + of_nat 0) 5 = ucast (of_nat (2 ^ 30 + 5) :: u64)"
    "seen machine_storage c ps v (u_path sample_stream, file_page sample_stream + of_nat 1) 5 = 0"
proof -
  let ?name = "u_path sample_stream" and ?i = "file_page sample_stream"
  have size: "unat (1 :: u64) * unat (4096 :: u64) = 4096" "(1 :: u64) \<noteq> 0" by simp_all
  have n: "0 < (4096 :: nat)" "(4096 :: nat) \<le> frame_size * CACHE_SIZE" "1 = (4096 + 4095) div frame_size" by (simp_all add: CACHE_SIZE_def)
  have ok: "\<forall>key \<in> page_range ?name ?i 1. page_ok key" by (rule sample_stream_pages) simp
  have apart: "area (of_nat (2 ^ 30)) 4096 \<inter> page_memory stack_cache = {}" by (rule high_buffers) (simp_all add: stack_cache_def)
  have none: "page_range ?name ?i 1 \<inter> page_key (lists stack_cache) ` set [] = {}" by simp
  obtain c ps fs v where c: "uwrite stack_env (of_nat (2 ^ 30)) 1 4096 sample_stream stack_cache = Some (c, 4096)"
    "caching stack_env machine_storage 512 3 c ps fs v"
    "page_changes machine_storage stack_cache [] new_view {} (page_range ?name ?i 1) (page_range ?name ?i 1) c ps v"
    "\<forall>j < 1. \<forall>x < frame_size. frame_size * j + x < 4096 \<longrightarrow>
         seen machine_storage c ps v (?name, ?i + of_nat j) x = mem stack_cache (of_nat (2 ^ 30) + of_nat (frame_size * j + x))"
    using write_file [OF stack_caching sample_stream_mode size n none ok apart] by blast
  have one: "page_range ?name ?i 1 = {(?name, ?i)}" by (rule page_range_one)
  have keys: "page_key (lists c) ` set ps \<subseteq> {(?name, ?i)}" using c(3) unfolding page_changes_def one by simp
  have "phys_base c = phys_base stack_cache" using c(3) unfolding page_changes_def by (elim conjE)
  then have base: "phys_base c = 2 ^ 40" by (simp add: stack_cache_def)
  have "distinct (map (page_key (lists c)) ps)" using cachingD(2) [OF c(2)] by (simp add: pool_def)
  then have "length ps = card (page_key (lists c) ` set ps)" using distinct_card by fastforce
  also have "\<dots> \<le> 1" using card_mono [OF _ keys] by simp
  finally have "length ps \<le> 1" .
  with caching_pages [OF c(2)] have "2 \<le> length fs" by (simp add: CACHE_SIZE_def)
  moreover have "card (page_range ?name ?i 2 - page_key (lists c) ` set ps) \<le> 2"
    using card_image_le [of "{..<2}" "\<lambda>j. (?name, ?i + of_nat j)"] by (intro order_trans [OF card_mono [OF _ Diff_subset]]) (simp_all add: page_range_def)
  ultimately have room: "card (page_range ?name ?i 2 - page_key (lists c) ` set ps) \<le> length fs" by linarith
  have page0: "seen machine_storage c ps v (?name, ?i + of_nat 0) 5 = ucast (of_nat (2 ^ 30 + 5) :: u64)"
    using c(4) [rule_format, of 0 5] by (simp add: stack_mem)
  have other: "(?name, ?i + of_nat 1) \<notin> page_range ?name ?i 1" unfolding one by simp
  have "(?name, ?i + of_nat 1) \<in> page_range ?name ?i 2" unfolding page_range_def by (rule imageI) simp
  then have ok1: "page_ok (?name, ?i + of_nat 1)" using sample_stream_pages [of 2] by simp
  have "seen machine_storage c ps v (?name, ?i + of_nat 1) 5 = seen machine_storage stack_cache [] new_view (?name, ?i + of_nat 1) 5"
    using c(3) ok1 other unfolding page_changes_def by simp
  also have "\<dots> = 0" by (simp add: seen_def holder_def page_byte_def files_def content_def v_init_def stack_cache_def machine_storage_def)
  finally show thesis by (rule that [OF c(1) caching_serving [OF c(2)] room base page0])
qed

section \<open>Properties\<close>

text \<open>
  C4. \<open>uwrite\<close> writes the file. From any state of the page cache and the SSD cache below it, a write of pages that are not
  in the page cache returns the number of items, even when it has to throw pages out: a user then sees the
  bytes of the buffer in the pages written, the old bytes in every other page of every file, and unchanged memory
  outside the pages of the cache. What the last page holds past the end of the request is not claimed to be
  the file's, and is not: \<open>write_pages\<close> does not read a page before it writes a part of it (see \<^verbatim>\<open>Restart\<close>).
\<close>

theorem uwrite_writes_file:
  assumes "caching env S bs k c ps fs v" and "u_mode stream AND U_OWRITE \<noteq> 0" and "unat esize * unat count = n" and "esize \<noteq> 0"
    and "0 < n" and "n \<le> frame_size * CACHE_SIZE" and "num = (n + 4095) div frame_size"
    and "page_range (u_path stream) (file_page stream) num \<inter> page_key (lists c) ` set ps = {}"
    and "\<forall>key \<in> page_range (u_path stream) (file_page stream) num. page_ok key" and "area buf n \<inter> page_memory c = {}"
  shows "\<exists>c' ps' fs' v'. uwrite env buf esize count stream c = Some (c', count) \<and> caching env S bs k c' ps' fs' v'
    \<and> page_changes S c ps v {} (page_range (u_path stream) (file_page stream) num)
        (page_range (u_path stream) (file_page stream) num) c' ps' v'
    \<and> (\<forall>j < num. \<forall>x < frame_size. frame_size * j + x < n \<longrightarrow>
         seen S c' ps' v' (u_path stream, file_page stream + of_nat j) x = mem c (buf + of_nat (frame_size * j + x)))"
  using write_file [OF assms] by blast

theorem uwrite_writes_file_witness:
  "\<exists>c' ps' v'. uwrite stack_env (of_nat (2 ^ 30)) 1 8192 sample_stream stack_cache = Some (c', 8192)
    \<and> seen machine_storage c' ps' v' (''f'', 1) 5 = ucast (of_nat (2 ^ 30 + 4101) :: u64)"
proof -
  let ?name = "u_path sample_stream" and ?i = "file_page sample_stream"
  have size: "unat (1 :: u64) * unat (8192 :: u64) = 8192" "(1 :: u64) \<noteq> 0" by simp_all
  have n: "0 < (8192 :: nat)" "(8192 :: nat) \<le> frame_size * CACHE_SIZE" "2 = (8192 + 4095) div frame_size" by (simp_all add: CACHE_SIZE_def)
  have ok: "\<forall>key \<in> page_range ?name ?i 2. page_ok key" by (rule sample_stream_pages) simp
  have apart: "area (of_nat (2 ^ 30)) 8192 \<inter> page_memory stack_cache = {}" by (rule high_buffers) (simp_all add: stack_cache_def)
  have none: "page_range ?name ?i 2 \<inter> page_key (lists stack_cache) ` set [] = {}" by simp
  obtain c' ps' v' where c': "uwrite stack_env (of_nat (2 ^ 30)) 1 8192 sample_stream stack_cache = Some (c', 8192)"
    "\<forall>j < 2. \<forall>x < frame_size. frame_size * j + x < 8192 \<longrightarrow>
         seen machine_storage c' ps' v' (?name, ?i + of_nat j) x = mem stack_cache (of_nat (2 ^ 30) + of_nat (frame_size * j + x))"
    using uwrite_writes_file [OF stack_caching sample_stream_mode size n none ok apart] by blast
  have key: "(?name, ?i + of_nat 1) = (''f'', 1)" by (simp add: sample_stream_def new_stream_def file_page_def Let_def)
  have "seen machine_storage c' ps' v' (?name, ?i + of_nat 1) 5 = mem stack_cache (of_nat (2 ^ 30) + of_nat (frame_size * 1 + 5))"
    by (rule c'(2) [rule_format]) simp_all
  then have "seen machine_storage c' ps' v' (''f'', 1) 5 = ucast (of_nat (2 ^ 30 + 4101) :: u64)" unfolding key by (simp add: stack_mem)
  with c'(1) show ?thesis by blast
qed

text \<open>
  C5. \<open>uread\<close> reads the file. A read of at most two pages, or of whole pages, returns the number of items, and the
  destination then has the bytes of the file as a user sees them, wherever they were: in the page cache, in the SSD
  cache or in the file. Memory outside the destination and the pages, and the bytes of all pages of all files, stay
  as they are. Either none of the pages is in memory, the page cache is in order, and pages are thrown out when there is
  no room; then it is in order afterwards. Or some of the pages are in memory and there are free pages for the
  others; the page cache then goes on serving reads.
\<close>

theorem uread_reads_file:
  assumes "caching env S bs k c ps fs v \<and> page_range (u_path stream) (file_page stream) num \<inter> page_key (lists c) ` set ps = {}
      \<or> serving env S bs k c ps fs v \<and> card (page_range (u_path stream) (file_page stream) num - page_key (lists c) ` set ps) \<le> length fs"
    and "unat esize * unat count = n" and "esize \<noteq> 0" and "exact_size n" and "0 < n" and "n \<le> frame_size * CACHE_SIZE"
    and "num = (n + 4095) div frame_size"
    and "\<forall>key \<in> page_range (u_path stream) (file_page stream) num. page_ok key" and "area dest n \<inter> page_memory c = {}"
  shows "\<exists>c' ps' fs' v'. uread env dest esize count stream c = Some (c', count) \<and> serving env S bs k c' ps' fs' v'
    \<and> (caching env S bs k c ps fs v \<and> page_range (u_path stream) (file_page stream) num \<inter> page_key (lists c) ` set ps = {}
        \<longrightarrow> caching env S bs k c' ps' fs' v')
    \<and> page_changes S c ps v (area dest n) {} (page_range (u_path stream) (file_page stream) num) c' ps' v'
    \<and> (\<forall>j < num. \<forall>x < frame_size. frame_size * j + x < n \<longrightarrow>
         mem c' (dest + of_nat (frame_size * j + x)) = seen S c ps v (u_path stream, file_page stream + of_nat j) x)"
  by (rule read_file_ready [OF assms])

text \<open>A page is written, then it and the next one are read: one comes from the page cache, the other from the file.\<close>

theorem uread_reads_file_witness:
  "\<exists>c c'. uwrite stack_env (of_nat (2 ^ 30)) 1 4096 sample_stream stack_cache = Some (c, 4096)
    \<and> uread stack_env (of_nat (2 ^ 31)) 1 5000 sample_stream c = Some (c', 5000)
    \<and> mem c' (of_nat (2 ^ 31) + of_nat 5) = ucast (of_nat (2 ^ 30 + 5) :: u64) \<and> mem c' (of_nat (2 ^ 31) + of_nat 4101) = 0"
proof -
  let ?name = "u_path sample_stream" and ?i = "file_page sample_stream"
  obtain c ps fs v where c: "uwrite stack_env (of_nat (2 ^ 30)) 1 4096 sample_stream stack_cache = Some (c, 4096)"
    "serving stack_env machine_storage 512 3 c ps fs v" "card (page_range ?name ?i 2 - page_key (lists c) ` set ps) \<le> length fs"
    "phys_base c = 2 ^ 40" "seen machine_storage c ps v (?name, ?i + of_nat 0) 5 = ucast (of_nat (2 ^ 30 + 5) :: u64)"
    "seen machine_storage c ps v (?name, ?i + of_nat 1) 5 = 0"
    by (rule one_page_written)
  have size: "unat (1 :: u64) * unat (5000 :: u64) = 5000" "(1 :: u64) \<noteq> 0" by simp_all
  have n: "exact_size 5000" "0 < (5000 :: nat)" "5000 \<le> frame_size * CACHE_SIZE" "2 = (5000 + 4095) div frame_size"
    by (simp_all add: CACHE_SIZE_def exact_size_def)
  have ok: "\<forall>key \<in> page_range ?name ?i 2. page_ok key" by (rule sample_stream_pages) simp
  have apart: "area (of_nat (2 ^ 31)) 5000 \<inter> page_memory c = {}" by (rule high_buffers [OF c(4)]) simp
  obtain c' where c': "uread stack_env (of_nat (2 ^ 31)) 1 5000 sample_stream c = Some (c', 5000)"
    "\<forall>j < 2. \<forall>x < frame_size. frame_size * j + x < 5000 \<longrightarrow>
       mem c' (of_nat (2 ^ 31) + of_nat (frame_size * j + x)) = seen machine_storage c ps v (?name, ?i + of_nat j) x"
    using uread_reads_file [OF disjI2 [OF conjI [OF c(2,3)]] size n ok apart] by blast
  have "mem c' (of_nat (2 ^ 31) + of_nat (frame_size * 0 + 5)) = seen machine_storage c ps v (?name, ?i + of_nat 0) 5"
    "mem c' (of_nat (2 ^ 31) + of_nat (frame_size * 1 + 5)) = seen machine_storage c ps v (?name, ?i + of_nat 1) 5"
    by (rule c'(2) [rule_format]; simp)+
  with c(1,5,6) c'(1) show ?thesis by auto
qed

text \<open>
  C6. A page that is thrown out comes back. When the page cache is full, a write of one more page throws the older half
  of the pages out; a later read of a page of that half gets it through the SSD cache, byte for byte as it was.
\<close>

theorem evicted_page_comes_back:
  assumes "caching env S bs k c ps [] v" and "p \<in> set (drop (CACHE_SIZE div 2) ps)" and "page_key (lists c) p = (u_path old, file_page old)"
    and "u_mode stream AND U_OWRITE \<noteq> 0" and "unat esize * unat count = n" and "esize \<noteq> 0" and "0 < n" and "n \<le> frame_size"
    and "(u_path stream, file_page stream) \<notin> page_key (lists c) ` set ps" and "page_ok (u_path stream, file_page stream)"
    and "area buf n \<inter> page_memory c = {}" and "area dest frame_size \<inter> page_memory c = {}"
    and "unat esize' * unat count' = frame_size" and "esize' \<noteq> 0"
  shows "\<exists>c1 c2. uwrite env buf esize count stream c = Some (c1, count) \<and> uread env dest esize' count' old c1 = Some (c2, count')
    \<and> (\<forall>x < frame_size. mem c2 (dest + of_nat x) = mem c (page_data c p + of_nat x))"
  by (rule evicted_page [OF assms])

theorem evicted_page_comes_back_witness:
  "\<exists>c c1 c2. uwrite stack_env (of_nat (2 ^ 30)) 1 (2 ^ 29) sample_stream stack_cache = Some (c, 2 ^ 29)
    \<and> uwrite stack_env (of_nat (2 ^ 32)) 1 100 (new_stream ''g'' ''w'') c = Some (c1, 100)
    \<and> uread stack_env (of_nat (2 ^ 33)) 1 4096 sample_stream c1 = Some (c2, 4096)
    \<and> (\<forall>x < frame_size. mem c2 (of_nat (2 ^ 33) + of_nat x) = ucast (of_nat (2 ^ 30 + x) :: u64))"
proof -
  let ?g = "new_stream ''g'' ''w''"
  obtain c v where c: "uwrite stack_env (of_nat (2 ^ 30)) 1 (2 ^ 29) sample_stream stack_cache = Some (c, 2 ^ 29)"
    "caching stack_env machine_storage 512 3 c [0..<CACHE_SIZE] [] v" "phys_base c = 2 ^ 40"
    "page_key (lists c) 131071 = (u_path sample_stream, file_page sample_stream)"
    "\<forall>x < frame_size. mem c (page_data c 131071 + of_nat x) = ucast (of_nat (2 ^ 30 + x) :: u64)"
    "page_key (lists c) ` set [0..<CACHE_SIZE] \<subseteq> page_range (u_path sample_stream) (file_page sample_stream) CACHE_SIZE"
    by (rule full_stack)
  have half: "CACHE_SIZE div 2 \<le> 131071" "131071 < CACHE_SIZE" by (simp_all add: CACHE_SIZE_def)
  have old: "131071 \<in> set (drop (CACHE_SIZE div 2) [0..<CACHE_SIZE])" unfolding drop_upt set_upt using half by simp
  have mode: "u_mode ?g AND U_OWRITE \<noteq> 0" by (simp add: new_stream_def U_OWRITE_def Let_def)
  have size: "unat (1 :: u64) * unat (100 :: u64) = 100" "(1 :: u64) \<noteq> 0" "0 < (100 :: nat)" "(100 :: nat) \<le> frame_size"
    "unat (1 :: u64) * unat (4096 :: u64) = frame_size" by simp_all
  have "(u_path ?g, file_page ?g) \<notin> page_range (u_path sample_stream) (file_page sample_stream) CACHE_SIZE"
    by (auto simp: page_range_def sample_stream_def new_stream_def Let_def)
  then have new: "(u_path ?g, file_page ?g) \<notin> page_key (lists c) ` set [0..<CACHE_SIZE]" using c(6) by blast
  have ok: "page_ok (u_path ?g, file_page ?g)" by (simp add: page_ok_def new_stream_def file_page_def config_eqs Let_def)
  have apart: "area (of_nat (2 ^ 32)) 100 \<inter> page_memory c = {}" "area (of_nat (2 ^ 33)) frame_size \<inter> page_memory c = {}"
    by (rule high_buffers [OF c(3)]; simp)+
  from evicted_page_comes_back [OF c(2) old c(4) mode size(1-4) new ok apart size(5,2)] obtain c1 c2 where
    "uwrite stack_env (of_nat (2 ^ 32)) 1 100 ?g c = Some (c1, 100)" "uread stack_env (of_nat (2 ^ 33)) 1 4096 sample_stream c1 = Some (c2, 4096)"
    "\<forall>x < frame_size. mem c2 (of_nat (2 ^ 33) + of_nat x) = mem c (page_data c 131071 + of_nat x)" by blast
  with c(1,5) show ?thesis by (intro exI [of _ c] exI [of _ c1] exI [of _ c2] conjI) simp_all
qed

text \<open>
  C7. Making room loses nothing. When at least half of the pages are in use, \<open>write_back_thread\<close> returns; it gives the least
  recently used half back, keeps the others in their order, and every page of every file has the bytes it had,
  to a user of the page cache, whose memory stays as it is.
\<close>

theorem write_back_keeps_files:
  assumes "caching env S bs k c ps fs v" and "CACHE_SIZE div 2 \<le> length ps"
  shows "\<exists>c' v'. write_back_thread env c = Some c' \<and> unseen S c ps v c' (take (length ps - CACHE_SIZE div 2) ps) v'
    \<and> caching env S bs k c' (take (length ps - CACHE_SIZE div 2) ps) (drop (length ps - CACHE_SIZE div 2) ps @ fs) v'"
  by (rule write_back_half [OF assms])

theorem write_back_keeps_files_witness:
  "\<exists>c v c' v'. write_back_thread stack_env c = Some c'
    \<and> unseen machine_storage c [0..<CACHE_SIZE] v c' (take (CACHE_SIZE - CACHE_SIZE div 2) [0..<CACHE_SIZE]) v'"
proof -
  obtain c v where "caching stack_env machine_storage 512 3 c [0..<CACHE_SIZE] [] v" by (rule full_stack)
  moreover have "CACHE_SIZE div 2 \<le> length [0..<CACHE_SIZE]" by simp
  ultimately show ?thesis using write_back_keeps_files by fastforce
qed

end
