(* ===== verification/Restart.thy ===== *)
theory Restart
  imports FileProps
begin

text \<open>
  From one process to the next: \<open>init_page_cache\<close> in a new process, and what of the files survives
  \<open>exit_page_cache\<close>, during which the migration thread may still work.
\<close>

section \<open>The environment\<close>

text \<open>Calls that set up, and do not touch the files.\<close>

definition keeps_disk :: "'w storage \<Rightarrow> ('w \<Rightarrow> 'w) \<Rightarrow> bool" where
  "keeps_disk S f \<longleftrightarrow> (\<forall>w. disk S (f w) = disk S w)"

definition files_apart :: "'d env \<Rightarrow> (memory \<times> 'd) storage \<Rightarrow> bool" where
  "files_apart env S \<longleftrightarrow> (let os = env_os env; sys = env_sys env in
     (\<forall>create. keeps_disk S (\<lambda>w. snd (sys_shm_open os create w))) \<and> (\<forall>fd. keeps_disk S (\<lambda>w. snd (sys_ftruncate os fd w)))
   \<and> (\<forall>fd. keeps_disk S (\<lambda>w. snd (sys_mmap os fd w))) \<and> keeps_disk S (\<lambda>w. snd (sys_shm_unlink os w))
   \<and> keeps_disk S (\<lambda>w. snd (sys_thread_create os w)) \<and> keeps_disk S (\<lambda>w. snd (env_init sys w))
   \<and> keeps_disk S (\<lambda>w. snd (nvme_probe sys w)) \<and> (\<forall>c. keeps_disk S (\<lambda>w. snd (alloc_io_qpair sys c w)))
   \<and> (\<forall>n. keeps_disk S (\<lambda>w. snd (alloc_dma env n w))))"

lemma files_apartD:
  assumes "files_apart env S"
  shows "disk S (snd (sys_shm_open (env_os env) create w)) = disk S w" "disk S (snd (sys_ftruncate (env_os env) fd w)) = disk S w"
    "disk S (snd (sys_mmap (env_os env) fd w)) = disk S w" "disk S (snd (sys_shm_unlink (env_os env) w)) = disk S w"
    "disk S (snd (sys_thread_create (env_os env) w)) = disk S w" "disk S (snd (env_init (env_sys env) w)) = disk S w"
    "disk S (snd (nvme_probe (env_sys env) w)) = disk S w" "disk S (snd (alloc_io_qpair (env_sys env) k w)) = disk S w"
    "disk S (snd (alloc_dma env n w)) = disk S w"
  using assms by (simp_all add: files_apart_def Let_def keeps_disk_def del: split_paired_All)

text \<open>
  Calls of a process that ends, and its migration thread until it has ended: what they do to the rest of the machine, the files
  and the device among it, and what they return do not depend on the memory of the process. The migration thread may
  still write files; the bytes it writes come from the device, through a buffer that it fills first.
\<close>

definition blind :: "(memory \<times> 'd \<Rightarrow> 'r \<times> memory \<times> 'd) \<Rightarrow> bool" where
  "blind f \<longleftrightarrow> (\<forall>m m' d. fst (f (m, d)) = fst (f (m', d)) \<and> snd (snd (f (m, d))) = snd (snd (f (m', d))))"

definition exit_blind :: "'d env \<Rightarrow> bool" where
  "exit_blind env \<longleftrightarrow> (let os = env_os env; sys = env_sys env in
     (\<forall>a. blind (\<lambda>w. ((), free_dma env a w))) \<and> (\<forall>t c. blind (sys_thread_stop os t c)) \<and> (\<forall>q. blind (\<lambda>w. ((), free_io_qpair sys q w)))
   \<and> (\<forall>c. blind (\<lambda>w. ((), nvme_detach sys c w))) \<and> blind (\<lambda>w. ((), env_fini sys w)) \<and> blind (sys_munmap os)
   \<and> blind (sys_shm_unlink os))"

text \<open>
  The calls that \<open>init_ssd_cache\<close> cannot do without succeed, and bring up a device of at least 1 GB. Removing the name of the
  shared memory succeeds when there is one; without one it may well fail.
\<close>

definition shm_works :: "'w os \<Rightarrow> bool" where
  "shm_works os \<longleftrightarrow> (\<forall>create w. fst (sys_shm_open os create w) \<noteq> - 1) \<and> (\<forall>fd w. fst (sys_ftruncate os fd w) \<noteq> - 1)
     \<and> (\<forall>fd w. fst (sys_mmap os fd w))"

definition name_goes :: "'w os \<Rightarrow> 'w machine \<Rightarrow> bool" where
  "name_goes os M \<longleftrightarrow> shm_name M = None \<or> fst (sys_shm_unlink os (world M)) \<noteq> - 1"

definition dma_works :: "'d env \<Rightarrow> bool" where
  "dma_works env \<longleftrightarrow> (\<forall>n w. fst (alloc_dma env n w) \<noteq> 0)"

definition device_comes_up :: "'w system \<Rightarrow> 'w storage \<Rightarrow> u32 \<Rightarrow> bool" where
  "device_comes_up sys S bs \<longleftrightarrow> (\<forall>t w. \<exists>t' w' ds. init_spdk sys (t, w) = Some ((t', w'), 0)
     \<and> get_device_info sys t' = Some (bs, ds) \<and> 2 ^ 30 \<le> unat ds \<and> reliable sys t' S (unat bs))"

section \<open>Setting up and taking down\<close>

lemma unlink_shm_name:
  assumes "name_goes os M"
  shows "snd (unlink_shm os M) = M\<lparr>world := snd (sys_shm_unlink os (world M)), shm_name := None\<rparr>"
proof (cases "fst (sys_shm_unlink os (world M)) = - 1")
  case True
  with assms have "shm_name M = None" by (simp add: name_goes_def)
  then have "M\<lparr>world := w, shm_name := None\<rparr> = M\<lparr>world := w\<rparr>" for w by (cases M) simp
  with True show ?thesis by (simp add: unlink_shm_def case_prod_unfold)
qed (simp add: unlink_shm_def case_prod_unfold)

lemma alloc_shm_works:
  assumes "shm_works os" and "shm_name M = None"
  shows "\<exists>M'. alloc_shm os M = (Some (next_object M), M')"
  using assms by (simp add: alloc_shm_def shm_works_def case_prod_unfold Let_def)

lemma alloc_shm_disk:
  assumes "files_apart env S" and "alloc_shm (env_os env) M = (r, M')"
  shows "disk S (world M') = disk S (world M)"
  using assms(2) by (auto simp: alloc_shm_def case_prod_unfold Let_def files_apartD [OF assms(1)] split: if_splits option.splits)

lemma create_qpair_disk: "files_apart env S \<Longrightarrow> disk S (snd (create_qpair (env_sys env) q tw)) = disk S (snd tw)"
  by (cases tw) (simp add: create_qpair_def case_prod_unfold files_apartD)

lemma init_spdk_disk:
  assumes "files_apart env S" and "init_spdk (env_sys env) (t, w) = Some ((t', w'), rc)"
  shows "disk S w' = disk S w"
proof -
  let ?w = "snd (nvme_probe (env_sys env) (snd (env_init (env_sys env) w)))"
  from assms(2) have "w' = snd (env_init (env_sys env) w) \<or> w' = ?w
      \<or> (\<exists>tg. create_qpair (env_sys env) MG_QUEUE (create_qpair (env_sys env) IO_QUEUE (tg, ?w)) = (t', w'))"
    by (auto simp: init_spdk_def case_prod_unfold bind_eq_Some_conv Let_def split: if_splits)
  then show ?thesis
  proof (elim disjE exE)
    fix tg assume "create_qpair (env_sys env) MG_QUEUE (create_qpair (env_sys env) IO_QUEUE (tg, ?w)) = (t', w')"
    then have "w' = snd (create_qpair (env_sys env) MG_QUEUE (create_qpair (env_sys env) IO_QUEUE (tg, ?w)))" by (metis snd_conv)
    then show ?thesis by (simp add: create_qpair_disk [OF assms(1)] files_apartD [OF assms(1)])
  qed (simp_all add: files_apartD [OF assms(1)])
qed

lemma wakeup_disk:
  assumes "files_apart env S" and "wakeup_mg_worker (env_os env) P M = (rc, M')"
  shows "disk S (world M') = disk S (world M)"
  using assms(2) by (auto simp: wakeup_mg_worker_def case_prod_unfold Let_def files_apartD [OF assms(1)] split: if_splits option.splits)

lemma init_ssd_cache_disk:
  assumes "files_apart env S" and "init_ssd_cache (env_os env) (env_sys env) (P, M) = Some ((P', M'), rc)"
  shows "disk S (world M') = disk S (world M)"
proof -
  obtain ptr M1 where shm: "alloc_shm (env_os env) M = (ptr, M1)" by fastforce
  note first = alloc_shm_disk [OF assms(1) shm]
  have wake: "disk S (world (snd (wakeup_mg_worker (env_os env) Q N))) = disk S (world N)" for Q N
    using wakeup_disk [OF assms(1)] by (metis prod.collapse)
  show ?thesis
  proof (cases ptr)
    case None
    then show ?thesis using assms(2) first by (simp add: init_ssd_cache_def shm)
  next
    case (Some a)
    show ?thesis
    proof (cases "running (cache_state (cache_at a M1))")
      case True
      then show ?thesis using assms(2) first Some by (simp add: init_ssd_cache_def shm)
    next
      case False
      then obtain t w rc1 where spdk: "init_spdk (env_sys env) (spdk_target P, world M1) = Some ((t, w), rc1)"
        using assms(2) Some by (auto simp: init_ssd_cache_def shm bind_eq_Some_conv)
      have "disk S (world M') = disk S w"
      proof (cases "rc1 = 0")
        case True
        obtain d where "describe_device (env_sys env) t (cache_dev (cache_at a M1)) = Some d"
          using assms(2) False Some spdk True by (auto simp: init_ssd_cache_def shm bind_eq_Some_conv Let_def)
        then show ?thesis using assms(2) False Some spdk True
          by (auto simp add: init_ssd_cache_def shm Let_def case_prod_unfold wake split: if_splits)
      next
        case False
        then show ?thesis using assms(2) \<open>\<not> running (cache_state (cache_at a M1))\<close> Some spdk by (auto simp: init_ssd_cache_def shm Let_def)
      qed
      then show ?thesis using first init_spdk_disk [OF assms(1) spdk] by simp
    qed
  qed
qed

text \<open>A process that has not used the library yet, and a cache that nobody else is linked to.\<close>

definition fresh_process :: "'d env \<Rightarrow> 'd page_cache \<Rightarrow> bool" where
  "fresh_process env c \<longleftrightarrow> pool (lists c) [] [] \<and> hash_heap (lists c) = Map.empty \<and> shared_cache (process c) = None
     \<and> malloc_pio env (pio_nodes c) \<noteq> 0 \<and> pio_nodes c (malloc_pio env (pio_nodes c)) = None"

definition no_users :: "'d page_cache \<Rightarrow> bool" where
  "no_users c \<longleftrightarrow> (case shared_cache (process c) of None \<Rightarrow> False | Some a \<Rightarrow>
     cache_state (objects (host_machine c) a) = \<lparr>running = True, user_count = 0, state_lock = \<lparr>locked = 0\<rparr>\<rparr>)"

text \<open>An empty SSD cache of full size.\<close>

definition empty_view :: "nat \<Rightarrow> cache_view" where
  "empty_view ps = v_init CACHE_BLOCK_NUMBER (of_nat (ps + 3)) (\<lambda>_. ([], 0))"

lemma empty_view_usable:
  assumes "mrep (cache_map c) (empty_view ps)" and "device_ok c ps"
  shows "usable S ps {} c (empty_view ps) w" and "stored S (empty_view ps) w = disk S w"
  using assms by (simp_all add: usable_def keys_ok_def clean_blocks_def empty_view_def v_init_def content_def)

lemma new_process_starts:
  assumes apart: "files_apart env S" and os: "shm_works (env_os env)" and dev: "device_comes_up (env_sys env) S bs"
    and ps: "ps \<le> 12" "bs = 2 ^ (12 - ps)" and mf: "memory_first S" and malloc: "allocates (malloc_entry env)"
    and fresh: "fresh_process env c" and name: "name_goes (env_os env) (host_machine c)" and dma: "dma_works env"
  shows "\<exists>c'. init_page_cache env c = Some (c', 0) \<and> caching env S (unat bs) ps c' [] (rev [0..<CACHE_SIZE]) (empty_view ps)
    \<and> disk S (world (host_machine c')) = disk S (world (host_machine c)) \<and> no_users c'
    \<and> (\<exists>w. phys_base c' = fst (alloc_dma env (of_nat CACHE_SIZE * ucast PAGE_SIZE) w))"
proof -
  let ?M = "(host_machine c)\<lparr>world := snd (sys_shm_unlink (env_os env) (world (host_machine c))), shm_name := None\<rparr>"
  have none: "shared_cache (process c) = None" using fresh by (simp add: fresh_process_def)
  have force: "force_exit_ssd_cache (env_os env) (process c, host_machine c) = (process c, ?M)"
    by (simp add: force_exit_ssd_cache_def shutdown_mg_worker_def none unlink_shm_name [OF name])
  obtain a M1 where shm: "alloc_shm (env_os env) ?M = (Some a, M1)" using alloc_shm_works [OF os, of ?M] by auto
  obtain t w ds where up: "init_spdk (env_sys env) (spdk_target (process c), world M1) = Some ((t, w), 0)"
    "get_device_info (env_sys env) t = Some (bs, ds)" "2 ^ 30 \<le> unat ds" "reliable (env_sys env) t S (unat bs)"
    using dev [unfolded device_comes_up_def, rule_format, of "spdk_target (process c)" "world M1"] by blast
  have unnamed: "shm_name ?M = None" by simp
  obtain M2 where M2: "init_ssd_cache (env_os env) (env_sys env) (process c, ?M) =
      Some (((process c)\<lparr>shared_cache := Some a, spdk_target := t\<rparr>, M2), 0)"
    "cache_state (cache_at a M2) = \<lparr>running = True, user_count = 0, state_lock = \<lparr>locked = 0\<rparr>\<rparr>"
    "mrep (cache_map (cache_at a M2)) (empty_view ps)" "device_ok (cache_at a M2) ps"
    using init_ssd_cache_done [OF unnamed shm up(1,2) ps up(3)] unfolding empty_view_def by blast
  have disk2: "disk S (world M2) = disk S (world (host_machine c))"
    using init_ssd_cache_disk [OF apart M2(1)] by (simp add: files_apartD [OF apart])
  let ?P = "(process c)\<lparr>shared_cache := Some a, spdk_target := t\<rparr>"
  obtain marr w1 where marr: "alloc_dma env (of_nat CACHE_SIZE * sizeof_page) (world M2) = (marr, w1)" by (meson surj_pair)
  obtain base w2 where base: "alloc_dma env (of_nat CACHE_SIZE * ucast PAGE_SIZE) w1 = (base, w2)" by (meson surj_pair)
  let ?c = "(set_world w2 (c\<lparr>process := ?P, host_machine := M2\<rparr>))\<lparr>map_base := marr, phys_base := base,
    lists := fill_free 0 CACHE_SIZE (lists c)\<rparr>"
  have run: "init_page_cache env c = Some (?c, 0)"
    using dma [unfolded dma_works_def, rule_format, of "of_nat CACHE_SIZE * sizeof_page" "world M2"]
    by (simp add: init_page_cache_def force M2(1) marr base Let_def set_world_def del: fill_free.simps)
  have disk: "disk S w2 = disk S (world M2)"
    using files_apartD(9) [OF apart] marr base by (metis snd_conv)
  have "attached S ps ?c (empty_view ps)"
    using empty_view_usable(1) [OF M2(3,4)] M2(2) by (simp add: attached_def set_world_def cache_at_def)
  moreover have "unat bs * 2 ^ ps = 4096" using shift_value(4) [OF ps] ps(1) by (simp add: power_add [symmetric])
  ultimately have ssd: "on_ssd env S (unat bs) ps ?c (empty_view ps)"
    using up(4) mf fresh by (simp add: on_ssd_def set_world_def fresh_process_def)
  have "pool (lists ?c) [] (rev [0..<CACHE_SIZE])"
    using fill_free_pool [of "lists c" "[]" 0 CACHE_SIZE] fresh by (simp add: fresh_process_def)
  moreover have "card (dom (hash_heap (lists ?c))) = 0" using fresh by (simp add: fill_free_heap fresh_process_def)
  ultimately have "caching env S (unat bs) ps ?c [] (rev [0..<CACHE_SIZE]) (empty_view ps)"
    using ssd malloc by (simp add: caching_def atLeast0LessThan)
  moreover have "no_users ?c" using M2(2) by (simp add: no_users_def set_world_def cache_at_def)
  moreover have "phys_base ?c = fst (alloc_dma env (of_nat CACHE_SIZE * ucast PAGE_SIZE) w1)" by (simp add: base)
  ultimately show ?thesis using run disk disk2 by (intro exI [of _ ?c] conjI exI [of _ w1]) (simp_all add: set_world_def)
qed

text \<open>What a user sees of the files in a new process is what is on the disk.\<close>

lemma new_process_sees:
  assumes "caching env S bs ps c [] fs (empty_view ps)"
  shows "seen S c [] (empty_view ps) k x = page_byte (disk S (world (host_machine c))) k x"
  by (simp add: seen_def holder_def files_def content_def empty_view_def v_init_def page_byte_def)

lemma blindD: "blind f \<Longrightarrow> snd w = snd w' \<Longrightarrow> fst (f w) = fst (f w') \<and> snd (snd (f w)) = snd (snd (f w'))"
  by (cases w; cases w') (simp add: blind_def)

lemma exit_blindD:
  assumes "exit_blind env" and "snd w = snd w'"
  shows "snd (free_dma env a w) = snd (free_dma env a w')"
    and "fst (sys_thread_stop (env_os env) t c w) = fst (sys_thread_stop (env_os env) t c w')
      \<and> snd (snd (sys_thread_stop (env_os env) t c w)) = snd (snd (sys_thread_stop (env_os env) t c w'))"
    and "snd (free_io_qpair (env_sys env) q w) = snd (free_io_qpair (env_sys env) q w')"
    and "snd (nvme_detach (env_sys env) k w) = snd (nvme_detach (env_sys env) k w')"
    and "snd (env_fini (env_sys env) w) = snd (env_fini (env_sys env) w')"
    and "fst (sys_munmap (env_os env) w) = fst (sys_munmap (env_os env) w')
      \<and> snd (snd (sys_munmap (env_os env) w)) = snd (snd (sys_munmap (env_os env) w'))"
    and "fst (sys_shm_unlink (env_os env) w) = fst (sys_shm_unlink (env_os env) w')
      \<and> snd (snd (sys_shm_unlink (env_os env) w)) = snd (snd (sys_shm_unlink (env_os env) w'))"
  using assms(1) [unfolded exit_blind_def Let_def] blindD [OF _ assms(2), of "\<lambda>w. ((), free_dma env a w)"]
    blindD [OF _ assms(2), of "\<lambda>w. ((), free_io_qpair (env_sys env) q w)"]
    blindD [OF _ assms(2), of "\<lambda>w. ((), nvme_detach (env_sys env) k w)"]
  by (auto dest: blindD [OF _ assms(2)] simp del: split_paired_All)

text \<open>Machines that differ in the memory of the process only.\<close>

definition same_drives :: "(memory \<times> 'd) machine \<Rightarrow> (memory \<times> 'd) machine \<Rightarrow> bool" where
  "same_drives M N \<longleftrightarrow> objects N = objects M \<and> shm_name N = shm_name M \<and> next_object N = next_object M \<and> snd (world N) = snd (world M)"

lemma shutdown_same_drives:
  assumes "exit_blind env" and "same_drives M N"
  shows "same_drives (snd (shutdown_mg_worker (env_os env) P M)) (snd (shutdown_mg_worker (env_os env) P N))"
proof (cases "shared_cache P")
  case (Some a)
  have "snd (world N) = snd (world M)" "cache_at a N = cache_at a M" "objects N = objects M" "shm_name N = shm_name M" "next_object N = next_object M"
    using assms(2) by (simp_all add: same_drives_def cache_at_def)
  with Some exit_blindD(2) [OF assms(1) this(1), of "mg_worker (cache_at a M)" "cache_at a M"] show ?thesis
    by (simp add: shutdown_mg_worker_def same_drives_def upd_cache_def case_prod_unfold)
qed (use assms in \<open>simp add: shutdown_mg_worker_def\<close>)

lemma exit_spdk_same_drives:
  assumes "exit_blind env" and "snd w = snd w'"
  shows "fst (exit_spdk (env_sys env) (t, w)) = fst (exit_spdk (env_sys env) (t, w'))
    \<and> snd (snd (exit_spdk (env_sys env) (t, w))) = snd (snd (exit_spdk (env_sys env) (t, w')))"
  using assms by (auto simp: exit_spdk_def destroy_qpair_def case_prod_unfold intro!: exit_blindD)

lemma unmap_same_drives:
  assumes "exit_blind env" and "same_drives M N"
  shows "fst (unmap_shm (env_os env) N) = fst (unmap_shm (env_os env) M)
    \<and> same_drives (snd (unmap_shm (env_os env) M)) (snd (unmap_shm (env_os env) N))"
    and "fst (unlink_shm (env_os env) N) = fst (unlink_shm (env_os env) M)
    \<and> same_drives (snd (unlink_shm (env_os env) M)) (snd (unlink_shm (env_os env) N))"
proof -
  have "snd (world N) = snd (world M)" using assms(2) by (simp add: same_drives_def)
  from exit_blindD(6,7) [OF assms(1) this] assms(2)
  show "fst (unmap_shm (env_os env) N) = fst (unmap_shm (env_os env) M)
    \<and> same_drives (snd (unmap_shm (env_os env) M)) (snd (unmap_shm (env_os env) N))"
    and "fst (unlink_shm (env_os env) N) = fst (unlink_shm (env_os env) M)
    \<and> same_drives (snd (unlink_shm (env_os env) M)) (snd (unlink_shm (env_os env) N))"
    by (simp_all add: unmap_shm_def unlink_shm_def same_drives_def case_prod_unfold Let_def)
qed

text \<open>What \<open>exit_page_cache\<close> leaves does not depend on the memory, where the pages are.\<close>

definition exit_machine :: "'d env \<Rightarrow> proc \<Rightarrow> (memory \<times> 'd) machine \<Rightarrow> (memory \<times> 'd) machine" where
  "exit_machine env P M =
     (let M = snd (shutdown_mg_worker (env_os env) P M);
          M = M\<lparr>world := snd (exit_spdk (env_sys env) (spdk_target P, world M))\<rparr>;
          r = unmap_shm (env_os env) M
      in if fst r \<noteq> 0 then snd r else snd (unlink_shm (env_os env) (snd r)))"

lemma exit_machine_same_drives:
  assumes "exit_blind env" and "same_drives M N"
  shows "same_drives (exit_machine env P M) (exit_machine env P N)"
proof -
  let ?M = "snd (shutdown_mg_worker (env_os env) P M)" and ?N = "snd (shutdown_mg_worker (env_os env) P N)"
  let ?M1 = "?M\<lparr>world := snd (exit_spdk (env_sys env) (spdk_target P, world ?M))\<rparr>"
    and ?N1 = "?N\<lparr>world := snd (exit_spdk (env_sys env) (spdk_target P, world ?N))\<rparr>"
  have one: "same_drives ?M ?N" by (rule shutdown_same_drives [OF assms])
  then have "snd (world ?N) = snd (world ?M)" by (simp add: same_drives_def)
  from exit_spdk_same_drives [OF assms(1) this, of "spdk_target P"] one have two: "same_drives ?M1 ?N1" by (simp add: same_drives_def)
  note three = unmap_same_drives(1) [OF assms(1) two]
  from three unmap_same_drives(2) [OF assms(1) conjunct2 [OF three]] show ?thesis by (simp add: exit_machine_def Let_def)
qed

lemma exit_page_cache_machine:
  assumes alone: "no_users c"
  shows "\<exists>c'. exit_page_cache env c = Some (c', 0) \<and> host_machine c' =
    exit_machine env (process c) ((host_machine c)\<lparr>world := free_dma env (phys_base c) (free_dma env (map_base c) (world (host_machine c)))\<rparr>)"
proof -
  let ?os = "env_os env" and ?sys = "env_sys env"
  define M where "M = (host_machine c)\<lparr>world := free_dma env (phys_base c) (free_dma env (map_base c) (world (host_machine c)))\<rparr>"
  obtain a where a: "shared_cache (process c) = Some a"
    "cache_state (cache_at a M) = \<lparr>running = True, user_count = 0, state_lock = \<lparr>locked = 0\<rparr>\<rparr>"
    using alone by (auto simp: no_users_def M_def cache_at_def split: option.splits)
  have wait: "wait_users ?os (cache_at a M) w = Some (cache_at a M, w)" for w
    by (subst wait_users_step) (simp_all add: a(2))
  have same: "(upd_cache a (\<lambda>_. cache_at a M) M)\<lparr>world := world M\<rparr> = M" by (simp add: upd_cache_def cache_at_def)
  have "\<exists>P rc. exit_ssd_cache ?os ?sys (process c, M) = Some ((P, exit_machine env (process c) M), rc)"
    by (simp add: exit_ssd_cache_def exit_machine_def a wait same case_prod_unfold Let_def)
  then show ?thesis by (auto simp: exit_page_cache_def Let_def set_world_def M_def)
qed

lemma exit_forgets_memory:
  assumes blind: "exit_blind env" and mf: "memory_first S" and alone: "no_users c" and "only_memory c c1"
  shows "\<exists>c0 c2. exit_page_cache env c = Some (c0, 0) \<and> exit_page_cache env c1 = Some (c2, 0)
    \<and> disk S (world (host_machine c2)) = disk S (world (host_machine c0))"
proof -
  have same: "same_drives (host_machine c) (host_machine c1)" "process c1 = process c" "map_base c1 = map_base c" "phys_base c1 = phys_base c"
    using assms(4) by (auto simp: only_memory_def same_drives_def)
  then have alone1: "no_users c1" using alone by (simp add: no_users_def same_drives_def split: option.splits)
  let ?w = "\<lambda>c. free_dma env (phys_base c) (free_dma env (map_base c) (world (host_machine c)))"
  have "snd (world (host_machine c1)) = snd (world (host_machine c))" using same(1) by (simp add: same_drives_def)
  then have "snd (?w c1) = snd (?w c)" unfolding same(3,4) by (intro exit_blindD(1) [OF blind])
  with same(1) have "same_drives ((host_machine c)\<lparr>world := ?w c\<rparr>) ((host_machine c1)\<lparr>world := ?w c1\<rparr>)" by (simp add: same_drives_def)
  note gone = exit_machine_same_drives [OF blind this, of "process c"]
  obtain c0 where c0: "exit_page_cache env c = Some (c0, 0)" "host_machine c0 = exit_machine env (process c) ((host_machine c)\<lparr>world := ?w c\<rparr>)"
    using exit_page_cache_machine [OF alone] by blast
  obtain c2 where c2: "exit_page_cache env c1 = Some (c2, 0)" "host_machine c2 = exit_machine env (process c) ((host_machine c1)\<lparr>world := ?w c1\<rparr>)"
    using exit_page_cache_machine [OF alone1] unfolding same(2) by blast
  have "snd (world (host_machine c2)) = snd (world (host_machine c0))" using gone by (simp add: same_drives_def c0(2) c2(2))
  then have "disk S (world (host_machine c2)) = disk S (world (host_machine c0))"
    using memory_firstD(3) [OF mf] by (metis prod.collapse)
  with c0(1) c2(1) show ?thesis by blast
qed

text \<open>A write that ends inside of a page.\<close>

lemma write_part:
  assumes c: "caching env S bs k c ps (f # fs) v" and mode: "u_mode stream AND U_OWRITE \<noteq> 0"
    and size: "unat esize * unat count = n" "esize \<noteq> 0" and n: "0 < n" "n \<le> frame_size"
    and new: "(u_path stream, file_page stream) \<notin> page_key (lists c) ` set ps" and ok: "page_ok (u_path stream, file_page stream)"
    and apart: "area buf n \<inter> page_memory c = {}"
  shows "\<exists>c' v'. uwrite env buf esize count stream c = Some (c', count) \<and> caching env S bs k c' (f # ps) fs v'
    \<and> (\<forall>x < n. seen S c' (f # ps) v' (u_path stream, file_page stream) x = mem c (buf + of_nat x))
    \<and> (\<forall>x < frame_size. n \<le> x \<longrightarrow> seen S c' (f # ps) v' (u_path stream, file_page stream) x = mem c (page_data c f + of_nat x))"
proof -
  let ?len = "ucast (esize * count) :: u32"
  have n': "n < 2 ^ 32" "n \<le> frame_size * CACHE_SIZE" using n(2) by (simp_all add: CACHE_SIZE_def)
  note words = request_words(1) [OF size(1) n'(1) size(2)]
  have len: "0 < unat ?len" "area buf (unat ?len) \<inter> page_memory c = {}" using n(1) apart words by simp_all
  obtain c1 g fs1 v1 where c1:
    "write_pages env (u_path stream) buf ?len False (of_nat 0) (file_page stream) c = (if unat ?len - 0 \<le> frame_size then Some (c1, ?len)
       else write_pages env (u_path stream) buf ?len False (of_nat (0 + frame_size)) (file_page stream + 1) c1)"
    "caching env S bs k c1 (g # kept ps (f # fs)) fs1 v1" "f # fs \<noteq> [] \<longrightarrow> g # fs1 = f # fs \<and> only_memory c c1"
    "\<forall>x. x < frame_size \<longrightarrow> 0 + x < unat ?len \<longrightarrow>
       seen S c1 (g # kept ps (f # fs)) v1 (u_path stream, file_page stream) x = mem c (buf + of_nat (0 + x))"
    "f # fs \<noteq> [] \<longrightarrow> (\<forall>x < frame_size. unat ?len - 0 \<le> x \<longrightarrow>
       seen S c1 (g # kept ps (f # fs)) v1 (u_path stream, file_page stream) x = mem c (page_data c g + of_nat x))"
    by (rule write_one [OF c ok new len])
  have eq: "g = f" "fs1 = fs" "kept ps (f # fs) = ps" using c1(3) by (simp_all add: kept_def)
  have "uwrite env buf esize count stream c = Some (c1, count)"
    by (rule uwrite_pages [OF mode size n(1) n'(2)]) (use c1(1) words n(2) in simp)
  then show ?thesis using c1(2,4,5) n(2) unfolding eq words by auto
qed

text \<open>What a write leaves to the next process.\<close>

definition reads_back :: "'d env \<Rightarrow> u64 \<Rightarrow> u64 \<Rightarrow> u64 \<Rightarrow> uFILE \<Rightarrow> nat \<Rightarrow> store \<Rightarrow> 'd page_cache \<Rightarrow> bool" where
  "reads_back env dest esize count stream num st d \<longleftrightarrow>
     (\<exists>d1. init_page_cache env d = Some (d1, 0) \<and> (area dest (frame_size * num) \<inter> page_memory d1 = {} \<longrightarrow>
        (\<exists>d2. uread env dest esize count stream d1 = Some (d2, count) \<and> (\<forall>j < num. \<forall>x < frame_size.
           mem d2 (dest + of_nat (frame_size * j + x)) = page_byte st (u_path stream, file_page stream + of_nat j) x))))"

lemma new_process_reads_back:
  assumes apart: "files_apart env S" and os: "shm_works (env_os env)" and dev: "device_comes_up (env_sys env) S bs"
    and ps': "ps' \<le> 12" "bs = 2 ^ (12 - ps')" and mf: "memory_first S" and malloc: "allocates (malloc_entry env)" and dma: "dma_works env"
    and size: "unat esize * unat count = frame_size * num" "esize \<noteq> 0" and n: "0 < num" "num \<le> CACHE_SIZE"
    and ok: "\<forall>key \<in> page_range (u_path stream) (file_page stream) num. page_ok key"
    and d: "fresh_process env d" "name_goes (env_os env) (host_machine d)"
  shows "reads_back env dest esize count stream num (disk S (world (host_machine d))) d"
proof -
  obtain d1 where d1: "init_page_cache env d = Some (d1, 0)" "caching env S (unat bs) ps' d1 [] (rev [0..<CACHE_SIZE]) (empty_view ps')"
    "disk S (world (host_machine d1)) = disk S (world (host_machine d))"
    using new_process_starts [OF apart os dev ps' mf malloc d dma] by blast
  have none: "page_range (u_path stream) (file_page stream) num \<inter> page_key (lists d1) ` set [] = {}" by simp
  have sees: "seen S d1 [] (empty_view ps') key x = page_byte (disk S (world (host_machine d))) key x" for key x
    using new_process_sees [OF d1(2)] d1(3) by simp
  have "\<exists>d2. uread env dest esize count stream d1 = Some (d2, count) \<and> (\<forall>j < num. \<forall>x < frame_size.
      mem d2 (dest + of_nat (frame_size * j + x)) = page_byte (disk S (world (host_machine d))) (u_path stream, file_page stream + of_nat j) x)"
    if away: "area dest (frame_size * num) \<inter> page_memory d1 = {}"
    using read_whole_pages [OF d1(2) none size n ok away] unfolding sees .
  with d1(1) show ?thesis unfolding reads_back_def by blast
qed

lemma write_exit_restart:
  assumes apart: "files_apart env S" "exit_blind env" and os: "shm_works (env_os env)" and dev: "device_comes_up (env_sys env) S bs"
    and dma: "dma_works env"
    and ps': "ps' \<le> 12" "bs = 2 ^ (12 - ps')" and c: "caching env S b k c ps fs v" and alone: "no_users c"
    and mode: "u_mode stream AND U_OWRITE \<noteq> 0" and size: "unat esize * unat count = frame_size * num" "esize \<noteq> 0"
    and n: "0 < num" "num \<le> length fs"
    and new: "page_range (u_path stream) (file_page stream) num \<inter> page_key (lists c) ` set ps = {}"
    and ok: "\<forall>key \<in> page_range (u_path stream) (file_page stream) num. page_ok key"
    and buffer: "area buf (frame_size * num) \<inter> page_memory c = {}"
  shows "\<exists>c0 c1 c2. exit_page_cache env c = Some (c0, 0)
    \<and> uwrite env buf esize count stream c = Some (c1, count) \<and> exit_page_cache env c1 = Some (c2, 0)
    \<and> disk S (world (host_machine c2)) = disk S (world (host_machine c0))
    \<and> (\<forall>d. fresh_process env d \<and> name_goes (env_os env) (host_machine d)
          \<and> disk S (world (host_machine d)) = disk S (world (host_machine c2)) \<longrightarrow>
        reads_back env dest esize count stream num (disk S (world (host_machine c0))) d)"
proof -
  note C = cachingD [OF c]
  have mf: "memory_first S" using C(1) by (simp add: on_ssd_def)
  have room: "num \<le> CACHE_SIZE" using caching_pages [OF c] n(2) by simp
  have n': "0 < frame_size * num" "frame_size * num \<le> frame_size * CACHE_SIZE" "num = (frame_size * num + 4095) div frame_size"
    using n room by simp_all
  obtain c1 where c1: "uwrite env buf esize count stream c = Some (c1, count)" "only_memory c c1"
    using write_file [OF c mode size n' new ok buffer] n(2) by blast
  obtain c0 c2 where ends: "exit_page_cache env c = Some (c0, 0)" "exit_page_cache env c1 = Some (c2, 0)"
    "disk S (world (host_machine c2)) = disk S (world (host_machine c0))"
    using exit_forgets_memory [OF apart(2) mf alone c1(2)] by blast
  have "reads_back env dest esize count stream num (disk S (world (host_machine c0))) d"
    if "fresh_process env d \<and> name_goes (env_os env) (host_machine d) \<and> disk S (world (host_machine d)) = disk S (world (host_machine c2))" for d
    using new_process_reads_back [OF apart(1) os dev ps' mf C(5) dma size n(1) room ok, of d] that ends(3) by simp
  with c1(1) ends show ?thesis by blast
qed

section \<open>A concrete process\<close>

text \<open>A new process on a machine whose files are full of sevens.\<close>

definition new_process :: "drives page_cache" where
  "new_process = \<lparr>lists = empty_lists, map_base = 0, phys_base = 0, process = idle_proc,
     host_machine = \<lparr>objects = (\<lambda>_. zeroed_cache), shm_name = None, next_object = 0,
       world = (\<lambda>a. ucast a, \<lparr>m_flash = (\<lambda>_. 0), m_disk = (\<lambda>_ _. 7), m_open = []\<rparr>)\<rparr>,
     pio_nodes = Map.empty\<rparr>"

lemma machine_comes_up: "device_comes_up machine_system machine_storage 512"
proof -
  let ?t = "\<lparr>t_ctrlr = 1, t_ns = 1, t_qpair = (\<lambda>_. 0)(IO_QUEUE := 1, MG_QUEUE := 1), t_isfind = True\<rparr>"
  have fields: "env_init machine_system w = (0, w)" "nvme_probe machine_system w = ((0, [(NVME_ADDR, 1)]), w)"
    "first_active_ns machine_system 1 = 1" "alloc_io_qpair machine_system 1 w = (1, w)" for w
    by (simp_all add: machine_system_def trimming_machine_def)
  have "search_ns machine_system 1 1 u = Some (u\<lparr>t_ns := 1, t_isfind := True\<rparr>)" for u
    by (subst search_ns.simps) (simp add: machine_system_def trimming_machine_def register_ns_def)
  then have up: "init_spdk machine_system (t, w) = Some ((?t, w), 0)" for t w
    by (simp add: init_spdk_def fields attach_cb_def strcmp_eq_def reset_ctrlr_and_ns_def create_qpair_def)
  have info: "get_device_info machine_system ?t = Some (512, 2 ^ 31)" by (simp add: get_device_info_def machine_system_def trimming_machine_def)
  have "2 ^ 30 \<le> unat (2 ^ 31 :: u64)" "unat (512 :: u32) = 512" by simp_all
  then show ?thesis unfolding device_comes_up_def using up info machine_reliable by (metis (no_types))
qed

lemma stack_apart: "files_apart stack_env machine_storage" and stack_blind: "exit_blind stack_env" and stack_dma: "dma_works stack_env"
  and stack_name: "name_goes (env_os stack_env) M" and stack_shm: "shm_works (env_os stack_env)"
  and stack_up: "device_comes_up (env_sys stack_env) machine_storage 512" and stack_malloc: "allocates (malloc_entry stack_env)"
  using machine_comes_up
  by (simp_all add: files_apart_def exit_blind_def blind_def dma_works_def name_goes_def keeps_disk_def shm_works_def stack_env_def
      quiet_os_def machine_system_def trimming_machine_def machine_storage_def first_free_allocates)

lemma new_process_fresh: "fresh_process stack_env (new_process\<lparr>host_machine := M\<rparr>)" "fresh_process stack_env new_process"
  using empty_lists_pool by (simp_all add: fresh_process_def new_process_def idle_proc_def stack_env_def) (simp_all add: empty_lists_def)

lemma small_blocks: "(3 :: nat) \<le> 12" "(512 :: u32) = 2 ^ (12 - 3)" "unat (512 :: u32) = 512"
  by simp_all

lemma started:
  assumes "fresh_process stack_env d"
  shows "\<exists>c. init_page_cache stack_env d = Some (c, 0)
    \<and> caching stack_env machine_storage 512 3 c [] (rev [0..<CACHE_SIZE]) (empty_view 3)
    \<and> m_disk (snd (world (host_machine c))) = m_disk (snd (world (host_machine d))) \<and> no_users c \<and> phys_base c = 2 ^ 40"
proof -
  have "fst (alloc_dma stack_env len w) = 2 ^ 40" for len w by (simp add: stack_env_def)
  then show ?thesis
    using new_process_starts [OF stack_apart stack_shm stack_up small_blocks(1,2) machine_memory_first stack_malloc assms stack_name stack_dma]
    unfolding small_blocks(3) by (simp add: machine_changes)
qed

section \<open>Properties\<close>

text \<open>
  C10. A new process starts with the files as they are on the disk. When the shared memory can be created, an old name of it
  removed, the device comes up with at least 1 GB in blocks of a power of two up to 4 KB, and the DMA memory can be had,
  \<open>init_page_cache\<close> returns 0 and leaves an empty page cache with all pages free on an empty SSD cache that nobody else
  uses, ready for \<open>uwrite\<close> and \<open>uread\<close>; a user sees in every page the bytes of the disk. On a first start
  there is no old name, and \<^verbatim>\<open>shm_unlink\<close> may fail.
\<close>

theorem init_page_cache_ready:
  assumes "files_apart env S" and "shm_works (env_os env)" and "device_comes_up (env_sys env) S bs" and "ps \<le> 12" and "bs = 2 ^ (12 - ps)"
    and "memory_first S" and "allocates (malloc_entry env)" and "fresh_process env c" and "name_goes (env_os env) (host_machine c)"
    and "dma_works env"
  shows "\<exists>c'. init_page_cache env c = Some (c', 0) \<and> no_users c'
    \<and> caching env S (unat bs) ps c' [] (rev [0..<CACHE_SIZE]) (empty_view ps)
    \<and> (\<forall>key x. seen S c' [] (empty_view ps) key x = page_byte (disk S (world (host_machine c))) key x)"
proof -
  obtain c' where c': "init_page_cache env c = Some (c', 0)" "caching env S (unat bs) ps c' [] (rev [0..<CACHE_SIZE]) (empty_view ps)"
    "disk S (world (host_machine c')) = disk S (world (host_machine c))" "no_users c'"
    using new_process_starts [OF assms] by blast
  then show ?thesis using new_process_sees [OF c'(2)] by auto
qed

text \<open>Input: a first start, where removing the name fails.\<close>

definition first_env :: "drives env" where
  "first_env = stack_env\<lparr>env_os := quiet_os\<lparr>sys_shm_unlink := (\<lambda>w. (- 1, w))\<rparr>\<rparr>"

lemma first_start: "files_apart first_env machine_storage" "shm_works (env_os first_env)" "dma_works first_env"
    "name_goes (env_os first_env) (host_machine new_process)" "fresh_process first_env new_process"
    "device_comes_up (env_sys first_env) machine_storage 512" "allocates (malloc_entry first_env)"
  using stack_apart stack_shm stack_dma new_process_fresh(2) stack_up stack_malloc
  by (simp_all add: files_apart_def keeps_disk_def shm_works_def dma_works_def name_goes_def fresh_process_def first_env_def stack_env_def
      quiet_os_def) (simp add: new_process_def)

theorem init_page_cache_ready_witness:
  "\<exists>c. init_page_cache first_env new_process = Some (c, 0)
    \<and> (\<forall>x. seen machine_storage c [] (empty_view 3) (''f'', 2) x = 7)"
  using init_page_cache_ready [OF first_start(1,2,6) small_blocks(1,2) machine_memory_first first_start(7,5,4,3)]
  by (auto simp: machine_changes page_byte_def) (auto simp: new_process_def)

text \<open>
  C8. A restart loses what was written. \<open>uwrite\<close> into free pages returns the number of items, and \<open>exit_page_cache\<close> returns 0;
  it writes no page back. It leaves the files as it would have left them without the write, whatever the migration thread
  still does before it ends. When a process on the same disk then starts with \<open>init_page_cache\<close>, \<open>uread\<close> gives it
  those bytes (in \<open>reads_back\<close>, for every page of the write), and none of what was written.
\<close>

theorem write_lost_on_restart:
  assumes "files_apart env S" and "exit_blind env" and "shm_works (env_os env)" and "device_comes_up (env_sys env) S bs" and "dma_works env"
    and "ps' \<le> 12" and "bs = 2 ^ (12 - ps')" and "caching env S b k c ps fs v" and "no_users c"
    and "u_mode stream AND U_OWRITE \<noteq> 0" and "unat esize * unat count = frame_size * num" and "esize \<noteq> 0"
    and "0 < num" and "num \<le> length fs"
    and "page_range (u_path stream) (file_page stream) num \<inter> page_key (lists c) ` set ps = {}"
    and "\<forall>key \<in> page_range (u_path stream) (file_page stream) num. page_ok key"
    and "area buf (frame_size * num) \<inter> page_memory c = {}"
  shows "\<exists>c0 c1 c2. exit_page_cache env c = Some (c0, 0)
    \<and> uwrite env buf esize count stream c = Some (c1, count) \<and> exit_page_cache env c1 = Some (c2, 0)
    \<and> disk S (world (host_machine c2)) = disk S (world (host_machine c0))
    \<and> (\<forall>d. fresh_process env d \<and> name_goes (env_os env) (host_machine d)
          \<and> disk S (world (host_machine d)) = disk S (world (host_machine c2)) \<longrightarrow>
        reads_back env dest esize count stream num (disk S (world (host_machine c0))) d)"
  by (rule write_exit_restart [OF assms])

text \<open>In the example nothing is written back, so the files are as they were at the start.\<close>

lemma stack_exit_disk:
  assumes "no_users c" and "exit_page_cache stack_env c = Some (c0, 0)"
  shows "m_disk (snd (world (host_machine c0))) = m_disk (snd (world (host_machine c)))"
proof -
  have keep: "world (snd (shutdown_mg_worker quiet_os P M)) = world M" "world (snd (unmap_shm quiet_os M)) = world M"
    "world (snd (unlink_shm quiet_os M)) = world M" "snd (exit_spdk machine_system (t, w)) = w" for P t w and M :: "host machine"
    by (auto simp: shutdown_mg_worker_def unmap_shm_def unlink_shm_def quiet_os_def exit_spdk_def destroy_qpair_def machine_system_def
        trimming_machine_def upd_cache_def Let_def split: option.split)
  from exit_page_cache_machine [OF assms(1), of stack_env] assms(2) show ?thesis
    by (auto simp: exit_machine_def stack_env_def keep Let_def)
qed

theorem write_lost_on_restart_witness:
  "\<exists>c c1 c2 d1 d2. init_page_cache stack_env new_process = Some (c, 0)
    \<and> uwrite stack_env (of_nat (2 ^ 30)) 1 4096 sample_stream c = Some (c1, 4096) \<and> exit_page_cache stack_env c1 = Some (c2, 0)
    \<and> init_page_cache stack_env (new_process\<lparr>host_machine := host_machine c2\<rparr>) = Some (d1, 0)
    \<and> uread stack_env (of_nat (2 ^ 33)) 1 4096 sample_stream d1 = Some (d2, 4096) \<and> (\<forall>x < frame_size. mem d2 (of_nat (2 ^ 33) + of_nat x) = 7)"
proof -
  let ?name = "u_path sample_stream" and ?i = "file_page sample_stream"
  obtain c where c: "init_page_cache stack_env new_process = Some (c, 0)"
    "caching stack_env machine_storage 512 3 c [] (rev [0..<CACHE_SIZE]) (empty_view 3)"
    "m_disk (snd (world (host_machine c))) = m_disk (snd (world (host_machine new_process)))" "no_users c" "phys_base c = 2 ^ 40"
    using started [OF new_process_fresh(2)] by blast
  have size: "unat (1 :: u64) * unat (4096 :: u64) = frame_size * 1" "(1 :: u64) \<noteq> 0" by simp_all
  have n: "0 < (1 :: nat)" "1 \<le> length (rev [0..<CACHE_SIZE])" by (simp_all add: CACHE_SIZE_def del: upt_rec_numeral)
  have none: "page_range ?name ?i 1 \<inter> page_key (lists c) ` set [] = {}" by simp
  have ok: "\<forall>key \<in> page_range ?name ?i 1. page_ok key" by (rule sample_stream_pages) simp
  have apart: "area (of_nat (2 ^ 30)) (frame_size * 1) \<inter> page_memory c = {}" by (rule high_buffers [OF c(5)]) simp
  obtain c0 c1 c2 where ends: "exit_page_cache stack_env c = Some (c0, 0)"
    and run: "uwrite stack_env (of_nat (2 ^ 30)) 1 4096 sample_stream c = Some (c1, 4096)" "exit_page_cache stack_env c1 = Some (c2, 0)"
    and later: "\<forall>d. fresh_process stack_env d \<and> name_goes (env_os stack_env) (host_machine d)
          \<and> disk machine_storage (world (host_machine d)) = disk machine_storage (world (host_machine c2)) \<longrightarrow>
        reads_back stack_env (of_nat (2 ^ 33)) 1 4096 sample_stream 1 (disk machine_storage (world (host_machine c0))) d"
    using write_lost_on_restart [OF stack_apart stack_blind stack_shm stack_up stack_dma small_blocks(1,2) c(2,4) sample_stream_mode size n none ok apart,
      of "of_nat (2 ^ 33)"] by (elim exE conjE) (rule that)
  let ?d = "new_process\<lparr>host_machine := host_machine c2\<rparr>"
  have "fresh_process stack_env ?d \<and> name_goes (env_os stack_env) (host_machine ?d)
      \<and> disk machine_storage (world (host_machine ?d)) = disk machine_storage (world (host_machine c2))"
    using new_process_fresh(1) stack_name by simp
  with later have "reads_back stack_env (of_nat (2 ^ 33)) 1 4096 sample_stream 1 (disk machine_storage (world (host_machine c0))) ?d" by blast
  then obtain d1 where d1: "init_page_cache stack_env ?d = Some (d1, 0)" "area (of_nat (2 ^ 33)) (frame_size * 1) \<inter> page_memory d1 = {} \<longrightarrow>
          (\<exists>d2. uread stack_env (of_nat (2 ^ 33)) 1 4096 sample_stream d1 = Some (d2, 4096) \<and> (\<forall>j < 1. \<forall>x < frame_size.
             mem d2 (of_nat (2 ^ 33) + of_nat (frame_size * j + x))
               = page_byte (disk machine_storage (world (host_machine c0))) (?name, ?i + of_nat j) x))"
    unfolding reads_back_def by blast
  have "phys_base d1 = 2 ^ 40" using started [OF new_process_fresh(1), of "host_machine c2"] d1(1) by auto
  then have "area (of_nat (2 ^ 33)) (frame_size * 1) \<inter> page_memory d1 = {}" by (rule high_buffers) simp
  with d1(2) obtain d2 where d2: "uread stack_env (of_nat (2 ^ 33)) 1 4096 sample_stream d1 = Some (d2, 4096)"
    "\<forall>x < frame_size. mem d2 (of_nat (2 ^ 33) + of_nat x) = page_byte (disk machine_storage (world (host_machine c0))) (?name, ?i) x"
    by auto
  have "page_byte (disk machine_storage (world (host_machine c0))) key x = 7" for key x
    by (simp add: machine_changes stack_exit_disk [OF c(4) ends] c(3) page_byte_def) (simp add: new_process_def)
  with d2(2) have "\<forall>x < frame_size. mem d2 (of_nat (2 ^ 33) + of_nat x) = 7" by simp
  with c(1) run d1(1) d2(1) show ?thesis by blast
qed

text \<open>
  C9. A write of part of a page replaces the whole page. Of the page that \<open>uwrite\<close> takes for it the first \<open>n\<close> bytes come
  from the buffer, as they should; the rest of the page of the file becomes what the page frame held before,
  whatever the file has there, as the file is not read.
\<close>

theorem partial_write_replaces_page:
  assumes "caching env S bs k c ps (f # fs) v" and "u_mode stream AND U_OWRITE \<noteq> 0"
    and "unat esize * unat count = n" and "esize \<noteq> 0" and "0 < n" and "n \<le> frame_size"
    and "(u_path stream, file_page stream) \<notin> page_key (lists c) ` set ps" and "page_ok (u_path stream, file_page stream)"
    and "area buf n \<inter> page_memory c = {}"
  shows "\<exists>c' v'. uwrite env buf esize count stream c = Some (c', count) \<and> caching env S bs k c' (f # ps) fs v'
    \<and> (\<forall>x < n. seen S c' (f # ps) v' (u_path stream, file_page stream) x = mem c (buf + of_nat x))
    \<and> (\<forall>x < frame_size. n \<le> x \<longrightarrow> seen S c' (f # ps) v' (u_path stream, file_page stream) x = mem c (page_data c f + of_nat x))"
  by (rule write_part [OF assms])

theorem partial_write_replaces_page_witness:
  "\<exists>c' v'. uwrite stack_env (of_nat (2 ^ 30)) 1 100 sample_stream stack_cache = Some (c', 100)
    \<and> seen machine_storage stack_cache [] new_view (''f'', 0) 200 = 0 \<and> seen machine_storage c' [131071] v' (''f'', 0) 200 = 200"
proof -
  have last: "rev [0..<CACHE_SIZE] = 131071 # rev [0..<131071]"
  proof -
    have size: "CACHE_SIZE = Suc 131071" by (simp add: CACHE_SIZE_def)
    have "rev [0..<Suc m] = m # rev [0..<m]" for m by simp
    then show ?thesis unfolding size .
  qed
  have size: "unat (1 :: u64) * unat (100 :: u64) = 100" "(1 :: u64) \<noteq> 0" "0 < (100 :: nat)" "(100 :: nat) \<le> frame_size" by simp_all
  have key: "(u_path sample_stream, file_page sample_stream) = (''f'', 0)"
    by (simp add: sample_stream_def new_stream_def file_page_def Let_def)
  have ok: "page_ok (u_path sample_stream, file_page sample_stream)" unfolding key by (simp add: page_ok_def config_eqs)
  have new: "(u_path sample_stream, file_page sample_stream) \<notin> page_key (lists stack_cache) ` set []" by simp
  have apart: "area (of_nat (2 ^ 30)) 100 \<inter> page_memory stack_cache = {}" by (rule high_buffers) (simp_all add: stack_cache_def)
  obtain c' v' where c': "uwrite stack_env (of_nat (2 ^ 30)) 1 100 sample_stream stack_cache = Some (c', 100)"
    "\<forall>x < frame_size. 100 \<le> x \<longrightarrow> seen machine_storage c' [131071] v' (''f'', 0) x = mem stack_cache (page_data stack_cache 131071 + of_nat x)"
    using partial_write_replaces_page [OF stack_caching [unfolded last] sample_stream_mode size new ok apart] unfolding key
    by (elim exE conjE) (rule that)
  have "seen machine_storage c' [131071] v' (''f'', 0) 200 = mem stack_cache (page_data stack_cache 131071 + of_nat 200)"
    by (rule c'(2) [rule_format]) simp_all
  then have "seen machine_storage c' [131071] v' (''f'', 0) 200 = 200"
    by (simp add: stack_mem page_data_offset) (simp add: stack_cache_def)
  moreover have "seen machine_storage stack_cache [] new_view (''f'', 0) 200 = 0"
    by (simp add: seen_def holder_def page_byte_def files_def content_def v_init_def stack_cache_def machine_storage_def)
  ultimately show ?thesis using c'(1) by blast
qed

end
