(* ===== verification/Spec2Isabelle.thy ===== *)
theory Spec2Isabelle
  imports WorkQueue HashTable CacheMapping MappingProps MappingSystem Pio Target CacheApi LruProps PageHeader UPageSystem
    FioEngine PlainFiles Races Restart
begin

text \<open>
  A model of the User-Level Page Cache: an SSD cache in front of slow files, shared by processes through
  shared memory (\<^verbatim>\<open>dm-cache\<close>), and a page cache in the memory of a process on top of it (\<^verbatim>\<open>page-cache\<close>).

  \<^bold>\<open>The program.\<close> A process asks for pages of 4 KB of a file (\<^verbatim>\<open>pio.c\<close>). \<^verbatim>\<open>ssd_cache_target.c\<close> looks the cache
  page (8 pages, 32 KB) up in the mapping and sends the request to the SSD or to the file. The mapping
  (\<^verbatim>\<open>ssd_cache_mapping.c\<close>) is an array of entries, one per block of the SSD, that are on a free, a clean or a
  dirty list and in a hash table. A miss queues the page (\<^verbatim>\<open>work_queue.c\<close>); the migration thread takes it from
  the queue and promotes it into a free block, or else frees a clean block, or else writes a dirty block
  back to its file. \<^verbatim>\<open>spdk.c\<close> talks to the device, \<^verbatim>\<open>ssd_cache_api.c\<close> and \<^verbatim>\<open>shm.c\<close> create, link and remove the
  shared cache. The page cache (\<^verbatim>\<open>upage.c\<close>, \<^verbatim>\<open>lru.c\<close>, \<^verbatim>\<open>upio.c\<close>) keeps pages on a list in the order of their use and in
  a hash table, and writes the last half of the list out when no page is free.

  \<^bold>\<open>Conventions.\<close> \<^verbatim>\<open>unsigned\<close> is a 32-bit word and wraps as in C, an address a 64-bit word. Structures are
  records with the fields of the source; memory that is linked by pointers is an array with indices
  (entries, pages) or a heap that is a partial map (requests, entries of the page table). Undefined
  behaviour and calls that never return are \<^const>\<open>None\<close>; a theorem that a call returns says so with
  \<^const>\<open>Some\<close>. The operating system, the device library and \<^verbatim>\<open>malloc\<close> are arguments of the definitions: records of
  functions on a state of the world. Loops that need not end are partial functions into \<^typ>\<open>'a option\<close>; there is
  no fuel in the model, only the number of polls or rounds in statements about waiting.

  \<^bold>\<open>Theories, in the order of the code.\<close>
  \<^item> \<^verbatim>\<open>Prelude\<close>: constants of \<^verbatim>\<open>config.h\<close>, C strings, reachability and the locale of inductive invariants,
    allocators, lemmas on words and lists.
  \<^item> \<^verbatim>\<open>Spinlock\<close> (\<^verbatim>\<open>atomic.c\<close>): the lock as a function of one caller and as a step relation of many threads; mutual
    exclusion in every interleaving.
  \<^item> \<^verbatim>\<open>WorkQueue\<close> (\<^verbatim>\<open>work_queue.c\<close>): the ring; it is a bounded duplicate-free queue, served in turn.
  \<^item> \<^verbatim>\<open>IList\<close>, \<^verbatim>\<open>HashTable\<close>, \<^verbatim>\<open>Allocator\<close> (\<^verbatim>\<open>ssd_cache_mapping.c\<close>, \<^verbatim>\<open>cache.h\<close>): lists of indices, buckets, flag bits and the
    allocator, with the laws of the lists as a locale and its interpretation.
  \<^item> \<^verbatim>\<open>CacheMapping\<close>: the operations of the mapping; \<^verbatim>\<open>CacheView\<close>: what they promise, on queues, sets and a page
    table; \<^verbatim>\<open>MappingRep\<close>: the relation between both; \<^verbatim>\<open>MappingOps\<close>, \<^verbatim>\<open>MappingUse\<close>: one simulation lemma per operation;
    \<^verbatim>\<open>MappingProps\<close>: the refinement theorems.
  \<^item> \<^verbatim>\<open>Spdk\<close> (\<^verbatim>\<open>spdk.c\<close>): the device, synchronous and vectored commands.
  \<^item> \<^verbatim>\<open>Migration\<close>: the transfers and the service of a queued page; what failures do.
  \<^item> \<^verbatim>\<open>MappingSystem\<close>: users and the migration thread interleaved, the states they can reach and the invariant
    of the mapping in all of them. A step of a user is labelled with its call and has no guard of its own; which calls
    are allowed is a predicate (\<open>allowed\<close>): paths of at most 31 bytes, existing blocks, no discard of a page
    in a transfer. The code checks none of this.
  \<^item> \<^verbatim>\<open>Pio\<close> (\<^verbatim>\<open>pio.c\<close>), \<^verbatim>\<open>Target\<close> (\<^verbatim>\<open>ssd_cache_target.c\<close>): requests, their routing and their results.
  \<^item> \<^verbatim>\<open>CacheApi\<close> (\<^verbatim>\<open>ssd_cache_api.c\<close>, \<^verbatim>\<open>shm.c\<close>): the life of the shared cache, the count of its users, the end of the
    migration thread. A request to end it takes effect where it tests for one and in the file operations of a
    transfer (\<open>sys_cut\<close>), which are cancellation points too; until then it goes on with the mapping and the files, so that
    \<open>sys_thread_stop\<close> is a function on the cache and the world.
  \<^item> \<^verbatim>\<open>Lru\<close>, \<^verbatim>\<open>LruProps\<close> (\<^verbatim>\<open>lru.c\<close>): pages, their lists and their table; the pool of pages and what breaks it.
  \<^item> \<^verbatim>\<open>PageHeader\<close>, \<^verbatim>\<open>UPage\<close>, \<^verbatim>\<open>UPageProps\<close>, \<^verbatim>\<open>UPageSystem\<close> (\<^verbatim>\<open>upage.c\<close>, \<^verbatim>\<open>upio.c\<close>): the page cache on a memory of bytes, \<open>uwrite\<close> and
    \<open>uread\<close> separately and one after the other.
  \<^item> \<^verbatim>\<open>SsdPages\<close>, \<^verbatim>\<open>Eviction\<close>, \<^verbatim>\<open>FileAccess\<close>, \<^verbatim>\<open>CachedReads\<close>, \<^verbatim>\<open>FileProps\<close>: the page cache on top of the SSD cache. The byte
    of a file is the one in the page cache, or else the one on the cache device, or else the one on the disk (\<open>seen\<close>);
    what page requests, evictions, \<open>uwrite\<close> and \<open>uread\<close> do to it, and reads of pages that are in memory. \<^verbatim>\<open>Restart\<close>: from
    one process to the next.
  \<^item> \<^verbatim>\<open>FioEngine\<close> (\<^verbatim>\<open>fio\<close>): the engines that drive the library.
  \<^item> \<^verbatim>\<open>Stages\<close>: a round of \<open>do_migration_work\<close> cut where the code gives up the lock, for interleavings and for the end of
    the thread; the stages one after the other are \<open>do_migration_work\<close> (\<open>stages_make_round\<close>).
  \<^item> \<^verbatim>\<open>BlockStore\<close>: the bytes of the cache device and of the files as one content per file; \<^verbatim>\<open>Coherence\<close>: storage
    that does what it is documented to do, as a predicate on the parameters, and the commands on it. What a trimmed
    block reads as is left open: it may be the old bytes, zeros or anything else;
    \<^verbatim>\<open>Transparency\<close>: a request does to the content what it does to plain files; \<^verbatim>\<open>Interleaving\<close>: the stages of the
    migration thread keep the content, with requests between them; \<^verbatim>\<open>Machine\<close>: a machine with such storage, for
    the examples; \<^verbatim>\<open>PlainFiles\<close>: runs of the whole cache compared with plain files; \<^verbatim>\<open>Races\<close>: the writes that get lost.

  \<^bold>\<open>Interfaces.\<close> The locales name what a client relies on, and are interpreted on the definitions of the model:
  the lists of entries for the mapping, inductive invariants for the lock, the mapping with its users and
  the processes of a host.

  \<^bold>\<open>What the theorems show.\<close> On storage that works, reads and writes of named files, each as one step, with the stages
  of the migration thread between them, have the effect they have on plain files, under two conditions: no write
  hits a page in the middle of its promotion or demotion (such a write is lost), and no trim of a demotion
  changes what cache block 0 reads as while a page is there (every demotion trims that block; on a device that
  erases, the page is lost). Every operation of the mapping implements its abstract counterpart; with allowed
  calls every block is accounted for in every reachable state, a hit returns the block of the page looked up, and all
  calls return; a discard of a page in a transfer or a path of 32 bytes breaks this. Requests stay inside their cache
  block. The count of users is the number of links less that of unlinks, and wraps around when unlinks are in
  excess. The migration thread ends when asked to, between two rounds or, leaving a block pending and its page
  queued, inside a transfer. With the page cache on top, \<open>uwrite\<close> of pages that are not in memory puts the bytes of the
  buffer into its pages and changes no other page of a file, evictions included; the rest of its last page is lost.
  \<open>uread\<close> of at most two pages or of whole pages gives the bytes of the file, wherever they are; longer requests
  that end inside a page overrun the buffer. A page that is hit leaves the list of pages without a back link, so
  that reads go on while there are free pages, and the eviction after that loses pages. A process that starts sees the
  files as they are on the disk; what was written and not evicted when the one before it ended is lost. Where the
  code does not do what it means to, the theorem has the failing case in its statement.

  \<^bold>\<open>Not modelled.\<close> Messages and statistics that are only printed; the
  demonstration programs and tests; the writeback thread of \<^verbatim>\<open>ssd_cache_api.c\<close>, which is commented out in the
  source. Threads interleave at the calls of the mapping, whose lock makes each of them atomic; the
  mutual exclusion that this rests on is proved in \<^verbatim>\<open>Spinlock\<close>. Relaxed memory ordering is not modelled.
\<close>

end
